(* ===== verification/VC_Prelude.thy ===== *)
theory VC_Prelude
  imports Main "HOL-Library.Word"
begin

unbundle bit_operations_syntax

text \<open>
  Shared vocabulary of the development: the names of the C integer types, the collection
  \<open>nat_of_word\<close> that moves word arithmetic which does not wrap to natural numbers, and the
  interface of a deterministic machine whose invariant every step keeps.
\<close>

section \<open>C integer types\<close>

type_synonym uint8_t = "8 word"
type_synonym uint16_t = "16 word"
type_synonym uint32_t = "32 word"
type_synonym uint64_t = "64 word"
type_synonym int32_t = "32 word" \<comment> \<open>two's complement; compared with the signed order\<close>

named_theorems nat_of_word \<open>word arithmetic that does not wrap, read as natural numbers\<close>

section \<open>Words read as natural numbers\<close>

lemma unat_below: "unat (w :: 'a::len word) < 2 ^ LENGTH('a)"
  by (rule unsigned_less)

lemma unat_add_no_wrap [nat_of_word]:
  fixes a b :: "'a::len word"
  assumes "unat a + unat b < 2 ^ LENGTH('a)"
  shows "unat (a + b) = unat a + unat b"
  using assms by (simp add: unat_word_ariths)

lemma unat_sub_no_wrap [nat_of_word]:
  fixes a b :: "'a::len word"
  assumes "b \<le> a"
  shows "unat (a - b) = unat a - unat b"
  using assms by (simp add: unat_sub)

lemma unat_succ_below [nat_of_word]:
  fixes i n :: "'a::len word"
  assumes "i < n"
  shows "unat (i + 1) = Suc (unat i)"
proof -
  have "unat i < unat n"
    using assms by (simp add: word_less_nat_alt)
  moreover have "unat n < 2 ^ LENGTH('a)"
    by (rule unsigned_less)
  ultimately have "unat i + 1 < 2 ^ LENGTH('a)"
    by linarith
  then have "unat i + unat (1 :: 'a word) < 2 ^ LENGTH('a)"
    by simp
  then show ?thesis
    by (simp add: unat_add_no_wrap)
qed

lemma unat_of_nat_small [nat_of_word]:
  assumes "n < 2 ^ LENGTH('a::len)"
  shows "unat (of_nat n :: 'a word) = n"
  using assms by (simp add: unsigned_of_nat take_bit_nat_eq_self)

lemma unat_ucast_widen [nat_of_word]:
  assumes "LENGTH('a::len) \<le> LENGTH('b::len)"
  shows "unat (ucast (w :: 'a word) :: 'b word) = unat w"
  using assms
  by (metis less_le_trans one_le_numeral power_increasing take_bit_nat_eq_self unsigned_less
      unsigned_ucast_eq)

lemma word_max_unat: "unat (- 1 :: 'a::len word) = 2 ^ LENGTH('a) - 1"
  by (simp add: unsigned_minus_1_eq_mask mask_eq_exp_minus_1)

lemma le_max_minus_iff:
  fixes a b :: "'a::len word"
  shows "a \<le> - 1 - b \<longleftrightarrow> unat a + unat b < 2 ^ LENGTH('a)"
proof -
  have "unat (- 1 - b) = 2 ^ LENGTH('a) - 1 - unat b"
    by (simp add: unat_sub_no_wrap word_max_unat)
  moreover have "unat b < 2 ^ LENGTH('a)"
    by (rule unsigned_less)
  ultimately show ?thesis
    unfolding word_le_nat_alt by linarith
qed

lemma all_from_step:
  fixes i n :: nat
  assumes "i < n"
  shows "(\<forall>j. i \<le> j \<and> j < n \<longrightarrow> P j) \<longleftrightarrow> P i \<and> (\<forall>j. Suc i \<le> j \<and> j < n \<longrightarrow> P j)"
  using assms by (auto simp: Suc_le_eq) (metis le_eq_less_or_eq)

section \<open>Error branches\<close>

lemma if_Inl_eq_Inr: "(if c then Inl e else r) = Inr v \<longleftrightarrow> \<not> c \<and> r = Inr v"
  by simp

lemma case_option_Inl_eq_Inr:
  "(case x of None \<Rightarrow> Inl e | Some y \<Rightarrow> f y) = Inr v \<longleftrightarrow> (\<exists>y. x = Some y \<and> f y = Inr v)"
  by (cases x) auto

lemmas Inr_branch = if_Inl_eq_Inr case_option_Inl_eq_Inr

section \<open>Deterministic machines\<close>

text \<open>
  A component that is driven by a sequence of calls: a step function and an invariant that
  every step keeps. The components interpret this interface with their own step functions, so
  that an invariant of one call is an invariant of every sequence of calls.
\<close>

locale invariant_machine =
  fixes step :: "'st \<Rightarrow> 'ev \<Rightarrow> 'st"
    and inv :: "'st \<Rightarrow> bool"
  assumes inv_step: "inv s \<Longrightarrow> inv (step s e)"
begin

lemma inv_run: "inv s \<Longrightarrow> inv (foldl step s es)"
  by (induction es arbitrary: s) (auto simp: inv_step)

lemma inv_every_prefix: "inv s \<Longrightarrow> inv (foldl step s (take n es))"
  by (rule inv_run)

end

end
