(* ===== verification/VC_Memory.thy ===== *)
theory VC_Memory
  imports VC_Prelude
begin

unbundle bit_operations_syntax

text \<open>
  The memory the search routines of \<^verbatim>\<open>src/search.c\<close> read and write: a flat array of bytes
  indexed by addresses. The address type \<open>'s word\<close> is \<^verbatim>\<open>uintptr_t\<close>, and also
  \<^verbatim>\<open>size_t\<close>: on the supported targets (32-bit ARM Vita, 64-bit Windows) both have the same
  width, and the development keeps that width a type parameter. Objects of type
  \<^verbatim>\<open>uint32_t\<close> and \<^verbatim>\<open>size_t\<close> are stored little-endian, as on both targets.

  \<open>span a n\<close> is the set of the \<open>n\<close> addresses from \<open>a\<close> on. The interface \<open>range_guard\<close> is what
  the two range checks of the program (\<^verbatim>\<open>vc_ranges_overlap\<close> of \<^verbatim>\<open>src/search.c\<close> and
  \<^verbatim>\<open>ranges_overlap\<close> of \<^verbatim>\<open>src/legacy_psv.c\<close>) promise; each of the two components interprets
  it with its own copy.
\<close>

type_synonym 's memory = "'s word \<Rightarrow> uint8_t"

section \<open>Address ranges\<close>

definition span :: "'s::len word \<Rightarrow> nat \<Rightarrow> 's word set" where
  "span a n = {x. unat (x - a) < n}"

lemma span_empty [simp]: "span a 0 = {}"
  by (simp add: span_def)

lemma span_mono: "n \<le> k \<Longrightarrow> span a n \<subseteq> span a k"
  by (auto simp: span_def)

lemma mem_span_no_wrap:
  fixes a x :: "'s::len word"
  assumes "unat a + n \<le> 2 ^ LENGTH('s)"
  shows "x \<in> span a n \<longleftrightarrow> unat a \<le> unat x \<and> unat x < unat a + n"
proof -
  have "unat a < 2 ^ LENGTH('s)" and "unat x < 2 ^ LENGTH('s)"
    by (rule unsigned_less)+
  then show ?thesis
    using assms by (auto simp: span_def unat_sub_if' word_size)
qed

lemma unat_le_add_of_nat:
  fixes y :: "'s::len word"
  shows "unat y \<le> unat (y - of_nat k) + k"
proof -
  have "unat (u + v) \<le> unat u + unat v" for u v :: "'s word"
    by (simp add: unat_word_ariths)
  from this [of "y - of_nat k" "of_nat k"]
  have "unat y \<le> unat (y - of_nat k) + unat (of_nat k :: 's word)"
    by simp
  moreover have "unat (of_nat k :: 's word) \<le> k"
    by (simp add: unsigned_of_nat take_bit_nat_less_eq_self)
  ultimately show ?thesis
    by simp
qed

lemma add_of_nat_in_span:
  fixes a :: "'s::len word"
  shows "i < n \<Longrightarrow> a + of_nat i \<in> span a n"
  using unat_le_add_of_nat [of "of_nat i :: 's word" i] by (simp add: span_def)

lemma span_offset:
  assumes "k + j \<le> n"
  shows "span (a + of_nat k) j \<subseteq> span a n"
proof
  fix x
  assume "x \<in> span (a + of_nat k) j"
  then have "unat (x - a - of_nat k) < j"
    by (simp add: span_def algebra_simps)
  with assms unat_le_add_of_nat [of "x - a" k] show "x \<in> span a n"
    by (simp add: span_def)
qed

lemma span_offsets_disjoint:
  fixes a :: "'s::len word"
  assumes "i + n \<le> j" and "j + k \<le> 2 ^ LENGTH('s)"
  shows "span (a + of_nat i) n \<inter> span (a + of_nat j) k = {}"
proof -
  have False if x: "x \<in> span (a + of_nat i) n" "x \<in> span (a + of_nat j) k" for x
  proof -
    define d where "d = unat (x - (a + of_nat j))"
    have d: "d < k" "x = a + of_nat j + of_nat d"
      using x(2) by (simp_all add: d_def span_def)
    have "x - (a + of_nat i) = of_nat (j + d - i)"
      using assms d by (simp add: of_nat_diff)
    moreover have "j + d - i < 2 ^ LENGTH('s)"
      using assms d by linarith
    ultimately have "unat (x - (a + of_nat i)) = j + d - i"
      by (simp add: unat_of_nat_small)
    with x(1) assms show False
      by (simp add: span_def)
  qed
  then show ?thesis
    by blast
qed

section \<open>Bytes and words\<close>

definition le_word :: "uint8_t list \<Rightarrow> 'v::len word" where
  "le_word bs = foldr (\<lambda>b acc. ucast b OR push_bit 8 acc) bs 0"

definition load_word :: "'s::len memory \<Rightarrow> 's word \<Rightarrow> 'v::len word" where
  "load_word m a = le_word (map (\<lambda>i. m (a + of_nat i)) [0..<LENGTH('v) div 8])"

definition store_word :: "'s::len memory \<Rightarrow> 's word \<Rightarrow> 'v::len word \<Rightarrow> 's memory" where
  "store_word m a v =
     (\<lambda>x. let i = unat (x - a)
          in if i < LENGTH('v) div 8 then ucast (drop_bit (8 * i) v) else m x)"

definition load_array :: "'s::len memory \<Rightarrow> 's word \<Rightarrow> nat \<Rightarrow> uint32_t list" where
  "load_array m a n = map (\<lambda>i. load_word m (a + 4 * of_nat i)) [0..<n]"

lemma bit_le_word:
  "bit (le_word bs :: 'v::len word) k \<longleftrightarrow>
     k < LENGTH('v) \<and> k div 8 < length bs \<and> bit (bs ! (k div 8)) (k mod 8)"
proof (induction bs arbitrary: k)
  case Nil
  then show ?case by (simp add: le_word_def)
next
  case (Cons b bs)
  have step: "le_word (b # bs) = (ucast b OR push_bit 8 (le_word bs) :: 'v word)"
    by (simp add: le_word_def)
  show ?case
  proof (cases "k < 8")
    case True
    then show ?thesis
      by (simp add: step bit_or_iff bit_push_bit_iff bit_ucast_iff)
  next
    case False
    then obtain d where d: "k = d + 8"
      by (metis add.commute le_Suc_ex not_less)
    have "\<not> bit b (d + 8)"
      using bit_imp_le_length [of b "d + 8"] by auto
    moreover have "(d + 8) div 8 = Suc (d div 8)" and "(d + 8) mod 8 = d mod 8"
      by simp_all
    ultimately show ?thesis
      using Cons.IH [of d]
      by (auto simp: d step bit_or_iff bit_push_bit_iff bit_ucast_iff)
  qed
qed

lemma load_word_cong:
  fixes m m' :: "'s::len memory"
  assumes "\<And>x. x \<in> span a (LENGTH('v) div 8) \<Longrightarrow> m x = m' x"
  shows "(load_word m a :: 'v::len word) = load_word m' a"
proof -
  have "m (a + of_nat i) = m' (a + of_nat i)" if "i < LENGTH('v) div 8" for i
    by (rule assms) (rule add_of_nat_in_span [OF that])
  then show ?thesis
    by (auto simp: load_word_def intro!: arg_cong [where f = le_word])
qed

lemma store_word_outside:
  "x \<notin> span a (LENGTH('v) div 8) \<Longrightarrow> store_word m a (v :: 'v::len word) x = m x"
  by (simp add: store_word_def span_def Let_def)

lemma load_store_disjoint:
  fixes v :: "'v::len word" and m :: "'s::len memory"
  assumes "span a (LENGTH('v) div 8) \<inter> span b (LENGTH('w) div 8) = {}"
  shows "(load_word (store_word m a v) b :: 'w::len word) = load_word m b"
  using assms by (intro load_word_cong store_word_outside) blast

lemma load_store_same:
  fixes v :: "'v::len word" and m :: "'s::len memory"
  assumes "8 dvd LENGTH('v)" and "LENGTH('v) div 8 \<le> 2 ^ LENGTH('s)"
  shows "load_word (store_word m a v) a = v"
proof (rule bit_word_eqI)
  fix k
  assume k: "k < LENGTH('v)"
  from k assms(1) have i: "k div 8 < LENGTH('v) div 8"
    by (auto elim!: dvdE)
  then have "unat (of_nat (k div 8) :: 's word) = k div 8"
    using assms(2) by (simp add: unat_of_nat_small)
  then have "store_word m a v (a + of_nat (k div 8)) = ucast (drop_bit (8 * (k div 8)) v)"
    using i by (simp add: store_word_def Let_def)
  with k i show "bit (load_word (store_word m a v) a :: 'v word) k \<longleftrightarrow> bit v k"
    by (simp add: load_word_def bit_le_word bit_ucast_iff bit_drop_bit_eq)
qed

lemma length_load_array [simp]: "length (load_array m a n) = n"
  by (simp add: load_array_def)

lemma nth_load_array [simp]: "i < n \<Longrightarrow> load_array m a n ! i = load_word m (a + 4 * of_nat i)"
  by (simp add: load_array_def)

lemma load_array_Suc: "load_array m a (Suc n) = load_array m a n @ [load_word m (a + 4 * of_nat n)]"
  by (simp add: load_array_def)

lemma take_load_array: "k \<le> n \<Longrightarrow> take k (load_array m a n) = load_array m a k"
  by (simp add: load_array_def take_map)

lemma array_slot_in_span:
  assumes "i < n"
  shows "span (a + 4 * of_nat i) 4 \<subseteq> span a (4 * n)"
  using span_offset [of "4 * i" 4 "4 * n" a] assms by simp

lemma array_slots_disjoint:
  fixes a :: "'s::len word"
  assumes "i < j" and "4 * j + 4 \<le> 2 ^ LENGTH('s)"
  shows "span (a + 4 * of_nat i) 4 \<inter> span (a + 4 * of_nat j) 4 = {}"
  using span_offsets_disjoint [of "4 * i" 4 "4 * j" 4 a] assms by simp

lemma load_array_cong:
  assumes "\<And>x. x \<in> span a (4 * n) \<Longrightarrow> m x = m' x"
  shows "load_array m a n = load_array m' a n"
proof (rule nth_equalityI)
  fix i
  assume "i < length (load_array m a n)"
  with assms array_slot_in_span [of i n a] show "load_array m a n ! i = load_array m' a n ! i"
    by (auto intro!: load_word_cong)
qed simp

section \<open>Writing a sequence of array slots\<close>

text \<open>
  \<open>store_array m a ws\<close> is the memory after the values \<open>ws\<close> were written to the slots of a
  \<^verbatim>\<open>uint32_t\<close> array from \<open>a\<close> on, first slot first: what the loops of \<^verbatim>\<open>src/search.c\<close> leave
  behind.
\<close>

primrec store_array :: "'s::len memory \<Rightarrow> 's word \<Rightarrow> uint32_t list \<Rightarrow> 's memory" where
  "store_array m a [] = m"
| "store_array m a (w # ws) = store_array (store_word m a w) (a + 4) ws"

lemma store_array_outside:
  "x \<notin> span a (4 * length ws) \<Longrightarrow> store_array m a ws x = m x"
proof (induction ws arbitrary: m a)
  case Nil
  then show ?case by simp
next
  case (Cons w ws)
  have "span (a + 4) (4 * length ws) \<subseteq> span a (4 * length (w # ws))"
    using span_offset [of 4 "4 * length ws" "4 * length (w # ws)" a] by simp
  moreover have "span a 4 \<subseteq> span a (4 * length (w # ws))"
    by (rule span_mono) simp
  ultimately have "x \<notin> span (a + 4) (4 * length ws)" and "x \<notin> span a 4"
    using Cons.prems by blast+
  then show ?case
    by (simp add: Cons.IH store_word_outside)
qed

lemma load_store_array:
  fixes a :: "'s::len word"
  assumes "4 * length ws \<le> 2 ^ LENGTH('s)"
  shows "load_array (store_array m a ws) a (length ws) = ws"
  using assms
proof (induction ws arbitrary: m a)
  case Nil
  then show ?case by (simp add: load_array_def)
next
  case (Cons w ws)
  let ?m = "store_array (store_word m a w) (a + 4) ws"
  have "span a 4 \<inter> span (a + 4) (4 * length ws) = {}"
    using span_offsets_disjoint [of 0 4 4 "4 * length ws" a] Cons.prems by simp
  then have "(load_word ?m a :: uint32_t) = load_word (store_word m a w) a"
    by (intro load_word_cong store_array_outside) auto
  moreover have "4 \<le> (2 :: nat) ^ LENGTH('s)"
    using Cons.prems by simp
  ultimately have first: "load_word ?m a = w"
    by (simp add: load_store_same)
  have "load_array ?m (a + 4) (length ws) = ws"
    using Cons by simp
  moreover have "load_array ?m a (Suc (length ws)) =
      load_word ?m a # load_array ?m (a + 4) (length ws)"
    by (simp add: load_array_def upt_conv_Cons map_Suc_upt [symmetric] algebra_simps del: upt_Suc)
  ultimately show ?case
    using first by simp
qed

section \<open>The contract of a range check\<close>

locale range_guard =
  fixes overlap :: "'s::len word \<Rightarrow> 's word \<Rightarrow> 's word \<Rightarrow> 's word \<Rightarrow> bool"
    and mult :: "'s word \<Rightarrow> 's word \<Rightarrow> 's word option"
  assumes overlap_iff: "overlap l ls r rs \<longleftrightarrow>
      l \<noteq> 0 \<and> r \<noteq> 0 \<and> ls \<noteq> 0 \<and> rs \<noteq> 0 \<and>
      (2 ^ LENGTH('s) \<le> unat l + unat ls \<or> 2 ^ LENGTH('s) \<le> unat r + unat rs \<or>
       span l (unat ls) \<inter> span r (unat rs) \<noteq> {})"
    and mult_iff: "mult a b = Some c \<longleftrightarrow> unat c = unat a * unat b"
begin

lemma no_overlap_disjoint:
  assumes "\<not> overlap l ls r rs" and "l = 0 \<Longrightarrow> ls = 0" and "r = 0 \<Longrightarrow> rs = 0"
  shows "span l (unat ls) \<inter> span r (unat rs) = {}"
  using assms by (cases "ls = 0 \<or> rs = 0") (auto simp: overlap_iff)

lemma no_overlap_no_wrap:
  assumes "\<not> overlap l ls r rs" and "l \<noteq> 0" and "r \<noteq> 0" and "ls \<noteq> 0" and "rs \<noteq> 0"
  shows "unat l + unat ls < 2 ^ LENGTH('s)" and "unat r + unat rs < 2 ^ LENGTH('s)"
  using assms by (auto simp: overlap_iff)

lemma overlap_commute: "overlap l ls r rs \<longleftrightarrow> overlap r rs l ls"
  by (auto simp: overlap_iff)

lemma mult_None_iff: "mult a b = None \<longleftrightarrow> 2 ^ LENGTH('s) \<le> unat a * unat b"
proof (cases "unat a * unat b < 2 ^ LENGTH('s)")
  case True
  then have "mult a b = Some (of_nat (unat a * unat b))"
    unfolding mult_iff by (rule unat_of_nat_small)
  with True show ?thesis
    by simp
next
  case False
  have "mult a b \<noteq> Some c" for c
  proof -
    have "unat c < 2 ^ LENGTH('s)"
      by (rule unsigned_less)
    with False show ?thesis
      unfolding mult_iff by linarith
  qed
  with False show ?thesis
    by (cases "mult a b") auto
qed

lemma mult_Some_iff: "mult a b = Some c \<longleftrightarrow> unat a * unat b < 2 ^ LENGTH('s) \<and> c = a * b"
proof (cases "unat a * unat b < 2 ^ LENGTH('s)")
  case True
  then have "unat (a * b) = unat a * unat b"
    by (simp add: unat_word_ariths)
  then have "mult a b = Some c \<longleftrightarrow> c = a * b"
    unfolding mult_iff word_unat_eq_iff by simp
  with True show ?thesis
    by simp
next
  case False
  then have "mult a b = None"
    by (simp add: mult_None_iff)
  with False show ?thesis
    by simp
qed

end

end
