(* ===== verification/VC_Scalar.thy ===== *)
theory VC_Scalar
  imports VC_Memory
begin

unbundle bit_operations_syntax

text \<open>
  The scalar layer of \<^verbatim>\<open>src/search.c\<close> and \<^verbatim>\<open>include/vitacheat/search.h\<close>: the
  scalar types and relations of a query, the explicit little-endian read, the sign extension and
  the comparison \<^verbatim>\<open>vc_matches\<close>. The reference semantics \<open>scalar_value\<close> (the integer a bit
  pattern denotes in a scalar type) and \<open>relation_holds\<close> (what a relation says of integers) is
  stated without masks or shifts; the lemmas show that the code computes it.
\<close>

section \<open>Queries\<close>

text \<open>
  A C object of an enumeration type can hold a value that is no enumerator, and the code guards
  against it. Such a value is \<open>VC_SCALAR_BEYOND n\<close> or \<open>VC_RELATION_BEYOND n\<close>: read as an
  unsigned integer, it lies \<open>n\<close> past the last enumerator plus one.
\<close>

datatype vc_scalar_type =
    VC_SCALAR_U8
  | VC_SCALAR_S8
  | VC_SCALAR_U16
  | VC_SCALAR_S16
  | VC_SCALAR_U32
  | VC_SCALAR_S32
  | VC_SCALAR_BEYOND nat

datatype vc_relation =
    VC_RELATION_EQUAL
  | VC_RELATION_NOT_EQUAL
  | VC_RELATION_CHANGED
  | VC_RELATION_UNCHANGED
  | VC_RELATION_INCREASED
  | VC_RELATION_DECREASED
  | VC_RELATION_BEYOND nat

datatype vc_status =
    VC_STATUS_OK
  | VC_STATUS_TRUNCATED
  | VC_STATUS_INVALID_ARGUMENT
  | VC_STATUS_INVALID_QUERY
  | VC_STATUS_INVALID_CANDIDATES

record vc_query =
  scalar_type :: vc_scalar_type \<comment> \<open>the field \<^verbatim>\<open>type\<close>\<close>
  relation :: vc_relation
  value_bits :: uint32_t
  stride :: uint32_t

text \<open>The value of a relation as \<^verbatim>\<open>(unsigned int)relation\<close> reads it.\<close>

fun relation_unsigned :: "vc_relation \<Rightarrow> nat" where
  "relation_unsigned VC_RELATION_EQUAL = 0"
| "relation_unsigned VC_RELATION_NOT_EQUAL = 1"
| "relation_unsigned VC_RELATION_CHANGED = 2"
| "relation_unsigned VC_RELATION_UNCHANGED = 3"
| "relation_unsigned VC_RELATION_INCREASED = 4"
| "relation_unsigned VC_RELATION_DECREASED = 5"
| "relation_unsigned (VC_RELATION_BEYOND n) = 6 + n"

section \<open>Operations\<close>

definition vc_type_is_signed :: "vc_scalar_type \<Rightarrow> bool" where
  "vc_type_is_signed t \<longleftrightarrow>
     t = VC_SCALAR_S8 \<or> t = VC_SCALAR_S16 \<or> t = VC_SCALAR_S32"

fun vc_scalar_width :: "vc_scalar_type \<Rightarrow> nat" where
  "vc_scalar_width VC_SCALAR_U8 = 1"
| "vc_scalar_width VC_SCALAR_S8 = 1"
| "vc_scalar_width VC_SCALAR_U16 = 2"
| "vc_scalar_width VC_SCALAR_S16 = 2"
| "vc_scalar_width VC_SCALAR_U32 = 4"
| "vc_scalar_width VC_SCALAR_S32 = 4"
| "vc_scalar_width (VC_SCALAR_BEYOND n) = 0"

definition vc_relation_is_valid :: "vc_relation \<Rightarrow> bool" where
  "vc_relation_is_valid r \<longleftrightarrow> relation_unsigned r \<le> relation_unsigned VC_RELATION_DECREASED"

definition vc_width_mask :: "nat \<Rightarrow> uint32_t" where
  "vc_width_mask width = (if width = 1 then 0xff else if width = 2 then 0xffff else - 1)"

function vc_read_le_loop ::
  "'s::len memory \<Rightarrow> 's word \<Rightarrow> nat \<Rightarrow> nat \<Rightarrow> uint32_t \<Rightarrow> uint32_t" where
  "vc_read_le_loop m bytes width index value =
     (if index < width
      then vc_read_le_loop m bytes width (Suc index)
             (value OR push_bit (index * 8) (ucast (m (bytes + of_nat index))))
      else value)"
  by pat_completeness auto
termination
  by (relation "measure (\<lambda>(m, bytes, width, index, value). width - index)") auto

declare vc_read_le_loop.simps [simp del]

definition vc_read_little_endian :: "'s::len memory \<Rightarrow> 's word \<Rightarrow> nat \<Rightarrow> uint32_t" where
  "vc_read_little_endian m bytes width = vc_read_le_loop m bytes width 0 0"

definition vc_signed_value :: "uint32_t \<Rightarrow> nat \<Rightarrow> int" where
  "vc_signed_value bits width =
     (let mask = ucast (vc_width_mask width) :: uint64_t;
          val = ucast bits AND mask;
          sign_bit = push_bit (width * 8 - 1) 1
      in if val AND sign_bit \<noteq> 0 then - sint (mask - val + 1) else sint val)"

definition vc_matches ::
  "vc_scalar_type \<Rightarrow> vc_relation \<Rightarrow> uint32_t \<Rightarrow> uint32_t \<Rightarrow> uint32_t \<Rightarrow> nat \<Rightarrow> bool" where
  "vc_matches type rel previous0 current0 constant0 width =
     (let mask = vc_width_mask width;
          previous = previous0 AND mask;
          current = current0 AND mask;
          constant = constant0 AND mask
      in case rel of
           VC_RELATION_EQUAL \<Rightarrow> current = constant
         | VC_RELATION_NOT_EQUAL \<Rightarrow> current \<noteq> constant
         | VC_RELATION_CHANGED \<Rightarrow> current \<noteq> previous
         | VC_RELATION_UNCHANGED \<Rightarrow> current = previous
         | VC_RELATION_INCREASED \<Rightarrow>
             if vc_type_is_signed type
             then vc_signed_value current width > vc_signed_value previous width
             else current > previous
         | VC_RELATION_DECREASED \<Rightarrow>
             if vc_type_is_signed type
             then vc_signed_value current width < vc_signed_value previous width
             else current < previous
         | VC_RELATION_BEYOND _ \<Rightarrow> False)"

section \<open>Reference semantics\<close>

fun scalar_value :: "vc_scalar_type \<Rightarrow> uint32_t \<Rightarrow> int" where
  "scalar_value VC_SCALAR_U8 w = uint (ucast w :: 8 word)"
| "scalar_value VC_SCALAR_S8 w = sint (ucast w :: 8 word)"
| "scalar_value VC_SCALAR_U16 w = uint (ucast w :: 16 word)"
| "scalar_value VC_SCALAR_S16 w = sint (ucast w :: 16 word)"
| "scalar_value VC_SCALAR_U32 w = uint w"
| "scalar_value VC_SCALAR_S32 w = sint w"
| "scalar_value (VC_SCALAR_BEYOND _) w = 0"

fun relation_holds :: "vc_relation \<Rightarrow> int \<Rightarrow> int \<Rightarrow> int \<Rightarrow> bool" where
  "relation_holds VC_RELATION_EQUAL old new k \<longleftrightarrow> new = k"
| "relation_holds VC_RELATION_NOT_EQUAL old new k \<longleftrightarrow> new \<noteq> k"
| "relation_holds VC_RELATION_CHANGED old new k \<longleftrightarrow> new \<noteq> old"
| "relation_holds VC_RELATION_UNCHANGED old new k \<longleftrightarrow> new = old"
| "relation_holds VC_RELATION_INCREASED old new k \<longleftrightarrow> new > old"
| "relation_holds VC_RELATION_DECREASED old new k \<longleftrightarrow> new < old"
| "relation_holds (VC_RELATION_BEYOND _) old new k \<longleftrightarrow> False"

section \<open>Widths and masks\<close>

lemma vc_relation_is_valid_iff: "vc_relation_is_valid r \<longleftrightarrow> (\<forall>n. r \<noteq> VC_RELATION_BEYOND n)"
  by (cases r) (auto simp: vc_relation_is_valid_def)

lemma vc_scalar_width_cases: "vc_scalar_width t \<in> {0, 1, 2, 4}"
  by (cases t) auto

lemma vc_scalar_width_0_iff: "vc_scalar_width t = 0 \<longleftrightarrow> (\<exists>n. t = VC_SCALAR_BEYOND n)"
  by (cases t) auto

lemma vc_scalar_width_le_4: "vc_scalar_width t \<le> 4"
  by (cases t) auto

lemma vc_width_mask_eq:
  "width \<in> {1, 2, 4} \<Longrightarrow> vc_width_mask width = Bit_Operations.mask (8 * width)"
  by (auto simp: vc_width_mask_def mask_eq_exp_minus_1)

lemma and_width_mask:
  "width \<in> {1, 2, 4} \<Longrightarrow> w AND vc_width_mask width = take_bit (8 * width) w"
  by (simp add: vc_width_mask_eq take_bit_eq_mask)

section \<open>The little-endian read\<close>

lemma vc_read_le_loop_bit:
  assumes "width \<le> 4" and "index \<le> width"
  shows "bit (vc_read_le_loop m bytes width index value) k \<longleftrightarrow>
    bit value k \<or> (index \<le> k div 8 \<and> k div 8 < width \<and>
      bit (m (bytes + of_nat (k div 8))) (k mod 8))"
  using assms
proof (induction m bytes width index "value" rule: vc_read_le_loop.induct)
  case (1 m bytes width index val)
  show ?case
  proof (cases "index < width")
    case True
    have shifted: "bit (push_bit (index * 8) (ucast (m (bytes + of_nat index))) :: uint32_t) k
      \<longleftrightarrow> k div 8 = index \<and> bit (m (bytes + of_nat (k div 8))) (k mod 8)"
    proof -
      have in_byte: "k div 8 = index \<longleftrightarrow> index * 8 \<le> k \<and> k - index * 8 < 8"
        by auto
      have low: "bit (m x) j \<Longrightarrow> j < 8" for x j
        using bit_imp_le_length [of "m x" j] by simp
      have "k mod 8 = k - index * 8" if "k div 8 = index"
        using that minus_div_mult_eq_mod [of k 8] by simp
      with in_byte show ?thesis
        using True "1.prems"
        by (auto simp: bit_push_bit_iff bit_ucast_iff dest: low)
    qed
    show ?thesis
      using True 1 by (subst vc_read_le_loop.simps) (auto simp: bit_or_iff shifted)
  next
    case False
    then show ?thesis
      by (subst vc_read_le_loop.simps) auto
  qed
qed

lemma vc_read_little_endian_le_word:
  assumes "width \<le> 4"
  shows "vc_read_little_endian m bytes width =
    le_word (map (\<lambda>i. m (bytes + of_nat i)) [0..<width])"
proof (rule bit_word_eqI)
  fix k
  assume "k < LENGTH(32)"
  with assms show "bit (vc_read_little_endian m bytes width) k \<longleftrightarrow>
      bit (le_word (map (\<lambda>i. m (bytes + of_nat i)) [0..<width]) :: uint32_t) k"
    by (auto simp: vc_read_little_endian_def vc_read_le_loop_bit bit_le_word)
qed

lemma unat_le_word:
  assumes "8 * length bs \<le> LENGTH('v)"
  shows "unat (le_word bs :: 'v::len word) = (\<Sum>i<length bs. unat (bs ! i) * 256 ^ i)"
  using assms
proof (induction bs)
  case Nil
  then show ?case by (simp add: le_word_def)
next
  case (Cons b bs)
  let ?rest = "le_word bs :: 'v word"
  have step: "le_word (b # bs) = (ucast b OR push_bit 8 ?rest)"
    by (simp add: le_word_def)
  have bound: "unat ?rest < 256 ^ length bs"
  proof -
    have "take_bit (8 * length bs) ?rest = ?rest"
      by (rule bit_word_eqI) (auto simp: bit_take_bit_iff bit_le_word)
    then have "take_bit (8 * length bs) (unat ?rest) = unat ?rest"
      by (metis unsigned_take_bit_eq)
    then have "unat ?rest < 2 ^ (8 * length bs)"
      by (simp add: take_bit_nat_eq_self_iff)
    then show ?thesis
      by (simp add: power_mult)
  qed
  have disjoint: "ucast b AND push_bit 8 ?rest = 0"
    by (rule bit_word_eqI) (auto simp: bit_and_iff bit_push_bit_iff bit_ucast_iff
        dest: bit_imp_le_length)
  have widen: "unat (ucast b :: 'v word) = unat b"
    using Cons.prems by (simp add: unat_ucast_widen)
  have fits: "unat b + unat ?rest * 256 < 2 ^ LENGTH('v)"
  proof -
    have "unat b < 256"
      using unsigned_less [of b] by simp
    with bound have "unat b + unat ?rest * 256 < 256 ^ length (b # bs)"
      by simp
    also have "(256 :: nat) ^ length (b # bs) = 2 ^ (8 * length (b # bs))"
      by (simp only: power_mult) simp
    also have "\<dots> \<le> 2 ^ LENGTH('v)"
      using Cons.prems by (intro power_increasing) auto
    finally show ?thesis .
  qed
  have "unat (push_bit 8 ?rest) = take_bit LENGTH('v) (push_bit 8 (unat ?rest))"
    by (rule unsigned_push_bit_eq)
  then have "unat (push_bit 8 ?rest) = unat ?rest * 256"
    using fits by (simp add: push_bit_eq_mult take_bit_nat_eq_self)
  moreover have "ucast b OR push_bit 8 ?rest = ucast b + push_bit 8 ?rest"
    using disjoint by (simp add: disjunctive_add_eq_or)
  ultimately have "unat (le_word (b # bs) :: 'v word) = unat b + unat ?rest * 256"
    using fits by (simp add: step unat_add_no_wrap widen)
  with Cons show ?case
    by (simp add: sum.lessThan_Suc_shift sum_distrib_left mult.assoc mult.commute mult.left_commute
        del: sum.lessThan_Suc)
qed

section \<open>Sign extension\<close>

lemma vc_signed_value_eq:
  assumes "width \<in> {1, 2, 4}"
  shows "vc_signed_value bits width = signed_take_bit (8 * width - 1) (uint bits)"
proof -
  define n where "n = 8 * width - 1"
  define v where "v = take_bit (Suc n) (uint bits)"
  have n: "8 * width = Suc n" "width * 8 - 1 = n" "n < 32"
    using assms by (auto simp: n_def)
  let ?mask = "ucast (vc_width_mask width) :: uint64_t"
  let ?val = "ucast bits AND ?mask"
  have mask: "?mask = Bit_Operations.mask (Suc n)"
    using n assms by (intro bit_word_eqI)
      (auto simp: vc_width_mask_eq bit_mask_iff bit_ucast_iff)
  have val: "?val = take_bit (Suc n) (ucast bits)"
    by (simp add: mask take_bit_eq_mask)
  have uint_val: "uint ?val = v"
    using n by (simp add: val v_def unsigned_take_bit_eq unsigned_ucast_eq take_bit_take_bit min_def)
  have v_bounds: "0 \<le> v" "v < 2 ^ Suc n"
    unfolding v_def by (simp, rule take_bit_int_less_exp)
  have sign: "?val AND push_bit n 1 \<noteq> 0 \<longleftrightarrow> bit (uint bits) n"
  proof -
    have "?val AND push_bit n 1 \<noteq> 0 \<longleftrightarrow> bit ?val n"
      by (simp only: push_bit_of_1 and_exp_eq_0_iff_not_bit not_not)
    then show ?thesis
      using n by (simp add: val bit_take_bit_iff bit_ucast_iff bit_uint_iff)
  qed
  have small: "(2::int) ^ Suc n \<le> 2 ^ 32"
    using n by (intro power_increasing) auto
  have sint_val: "sint ?val = v"
    using v_bounds small
    by (simp add: sint_uint uint_val signed_take_bit_int_eq_self)
  have code: "vc_signed_value bits width =
      (if ?val AND push_bit n 1 \<noteq> 0 then - sint (?mask - ?val + 1) else sint ?val)"
    unfolding vc_signed_value_def Let_def n(2) by (rule refl)
  show ?thesis
  proof (cases "bit (uint bits) n")
    case False
    then have "signed_take_bit n (uint bits) = v"
      by (simp add: signed_take_bit_eq_take_bit_minus v_def)
    with False show ?thesis
      unfolding code sign by (simp add: sint_val n)
  next
    case True
    have "v \<noteq> 0"
      using True by (auto simp: v_def dest!: arg_cong [where f = "\<lambda>x. bit x n"] simp: bit_take_bit_iff)
    have le: "?val \<le> ?mask"
      by (simp add: and.commute word_and_le1)
    have uint_mask: "uint ?mask = 2 ^ Suc n - 1"
      using assms by (auto simp: n_def vc_width_mask_def unsigned_ucast_eq unsigned_minus_1_eq_mask
          mask_eq_exp_minus_1)
    have "uint (?mask - ?val) = uint ?mask - uint ?val"
      using le by (rule uint_sub_lem [THEN iffD1, OF word_le_def [THEN iffD1]])
    then have "uint (?mask - ?val + 1) = 2 ^ Suc n - v"
      using v_bounds \<open>v \<noteq> 0\<close> small
      by (simp add: uint_word_ariths uint_val uint_mask)
    then have "sint (?mask - ?val + 1) = 2 ^ Suc n - v"
      using v_bounds small by (simp add: sint_uint signed_take_bit_int_eq_self)
    moreover have "signed_take_bit n (uint bits) = v - 2 ^ Suc n"
      using True by (simp add: signed_take_bit_eq_take_bit_minus v_def)
    ultimately show ?thesis
      using True unfolding code sign by (simp add: n)
  qed
qed

section \<open>The comparison\<close>

lemma and_width_mask_4 [simp]: "w AND vc_width_mask 4 = w"
  by (simp add: vc_width_mask_def)

lemma uint_and_width_mask:
  "width \<in> {1, 2, 4} \<Longrightarrow> uint (w AND vc_width_mask width) = take_bit (8 * width) (uint w)"
  by (simp add: and_width_mask unsigned_take_bit_eq)

lemma and_width_mask_eq_iff:
  assumes "width \<in> {1, 2, 4}"
  shows "v AND vc_width_mask width = w AND vc_width_mask width \<longleftrightarrow>
    take_bit (8 * width) (uint v) = take_bit (8 * width) (uint w)"
  using assms by (metis uint_and_width_mask unsigned_word_eqI)

lemma scalar_value_unsigned:
  assumes "vc_scalar_width t \<noteq> 0" and "\<not> vc_type_is_signed t"
  shows "scalar_value t w = uint (w AND vc_width_mask (vc_scalar_width t))"
  using assms
  by (cases t) (auto simp: vc_type_is_signed_def uint_and_width_mask unsigned_ucast_eq)

lemma scalar_value_signed:
  assumes "vc_type_is_signed t"
  shows "scalar_value t w = vc_signed_value (w AND vc_width_mask (vc_scalar_width t)) (vc_scalar_width t)"
  using assms
  by (cases t) (auto simp: vc_type_is_signed_def vc_signed_value_eq uint_and_width_mask sint_uint
      unsigned_ucast_eq signed_take_bit_take_bit)

lemma scalar_value_eq_iff:
  assumes "vc_scalar_width t \<noteq> 0"
  shows "scalar_value t v = scalar_value t w \<longleftrightarrow>
    v AND vc_width_mask (vc_scalar_width t) = w AND vc_width_mask (vc_scalar_width t)"
proof (cases "vc_type_is_signed t")
  case True
  have sint_eq: "sint a = sint b \<longleftrightarrow> uint a = uint b" for a b :: "'a::len word"
    by (metis signed_word_eqI unsigned_word_eqI)
  from True show ?thesis
    by (cases t) (auto simp: vc_type_is_signed_def sint_eq unsigned_ucast_eq and_width_mask_eq_iff
        dest: unsigned_word_eqI)
next
  case False
  with assms show ?thesis
    by (auto simp: scalar_value_unsigned dest: unsigned_word_eqI)
qed

lemma vc_matches_relation:
  assumes "vc_scalar_width t \<noteq> 0"
  shows "vc_matches t r old new k (vc_scalar_width t) \<longleftrightarrow>
    relation_holds r (scalar_value t old) (scalar_value t new) (scalar_value t k)"
proof (cases "vc_type_is_signed t")
  case True
  then show ?thesis
    by (cases r; simp add: vc_matches_def Let_def scalar_value_eq_iff [OF assms];
        simp add: scalar_value_signed)
next
  case False
  then show ?thesis
    by (cases r; simp add: vc_matches_def Let_def scalar_value_eq_iff [OF assms];
        simp add: word_less_def scalar_value_unsigned [OF assms])
qed

section \<open>The comparison, over the bytes in memory\<close>

text \<open>The integer a list of bytes encodes: little-endian, and in two's complement when it is signed.\<close>

definition bytes_value :: "bool \<Rightarrow> uint8_t list \<Rightarrow> int" where
  "bytes_value is_signed bs =
     (let n = \<Sum>i<length bs. uint (bs ! i) * 256 ^ i
      in if is_signed \<and> 2 * n \<ge> 256 ^ length bs then n - 256 ^ length bs else n)"

definition low_bytes :: "uint32_t \<Rightarrow> nat \<Rightarrow> uint8_t list" where
  "low_bytes w n = map (\<lambda>i. ucast (drop_bit (8 * i) w)) [0..<n]"

lemma signed_take_bit_small:
  assumes "0 \<le> (x :: int)" and "x < 2 ^ Suc n"
  shows "signed_take_bit n x = (if 2 ^ Suc n \<le> 2 * x then x - 2 ^ Suc n else x)"
proof -
  have "take_bit (Suc n) x = x"
    using assms by (simp add: take_bit_int_eq_self)
  moreover have "bit x n \<longleftrightarrow> 2 ^ n \<le> x"
  proof (cases "2 ^ n \<le> x")
    case True
    then have "x div 2 ^ n = 1"
      using assms(2) by (intro int_div_pos_eq [of _ _ _ "x - 2 ^ n"]) auto
    with True show ?thesis
      by (simp add: bit_iff_odd)
  next
    case False
    then have "x div 2 ^ n = 0"
      using assms(1) by simp
    with False show ?thesis
      by (simp add: bit_iff_odd)
  qed
  ultimately show ?thesis
    by (simp add: signed_take_bit_eq_take_bit_minus)
qed

lemma scalar_value_le_word:
  assumes "length bs = vc_scalar_width t" and "vc_scalar_width t \<noteq> 0"
  shows "scalar_value t (le_word bs) = bytes_value (vc_type_is_signed t) bs"
proof -
  let ?n = "\<Sum>i<length bs. uint (bs ! i) * 256 ^ i"
  have width: "8 * length bs \<le> 32"
    using vc_scalar_width_le_4 [of t] assms(1) by simp
  have n: "uint (le_word bs :: uint32_t) = ?n"
    using arg_cong [OF unat_le_word [of bs, where 'v = 32], of int] width by simp
  have bits: "take_bit (8 * length bs) (le_word bs :: uint32_t) = le_word bs"
    by (rule bit_word_eqI) (auto simp: bit_take_bit_iff bit_le_word)
  then have "take_bit (8 * length bs) (uint (le_word bs :: uint32_t)) = uint (le_word bs :: uint32_t)"
    by (metis unsigned_take_bit_eq)
  then have small: "?n < 2 ^ (8 * length bs)" "take_bit (8 * length bs) ?n = ?n"
    unfolding n by (simp_all add: take_bit_int_eq_self_iff)
  have mask: "uint ((le_word bs :: uint32_t) AND vc_width_mask (length bs)) = ?n"
    using assms small(2) vc_scalar_width_cases [of t] by (auto simp: uint_and_width_mask n)
  have pow: "(256 :: int) ^ length bs = 2 ^ (8 * length bs)"
    by (simp only: power_mult) simp
  have nonneg: "0 \<le> ?n"
    by (intro sum_nonneg) simp
  show ?thesis
  proof (cases "vc_type_is_signed t")
    case True
    have suc: "8 * length bs = Suc (8 * length bs - 1)"
      using assms by simp
    have "length bs \<in> {1, 2, 4}"
      using assms vc_scalar_width_cases [of t] by auto
    then have "scalar_value t (le_word bs) = signed_take_bit (8 * length bs - 1) ?n"
      using True mask by (simp add: scalar_value_signed vc_signed_value_eq flip: assms(1))
    also have "\<dots> = (if 2 ^ (8 * length bs) \<le> 2 * ?n then ?n - 2 ^ (8 * length bs) else ?n)"
      using signed_take_bit_small [of ?n "8 * length bs - 1"] nonneg small(1)
      unfolding suc [symmetric] by blast
    finally show ?thesis
      using True by (simp add: bytes_value_def Let_def pow)
  next
    case False
    then show ?thesis
      using assms mask by (simp add: scalar_value_unsigned bytes_value_def flip: assms(1))
  qed
qed

lemma scalar_value_low_bytes:
  assumes "vc_scalar_width t \<noteq> 0"
  shows "scalar_value t w = bytes_value (vc_type_is_signed t) (low_bytes w (vc_scalar_width t))"
proof -
  let ?bs = "low_bytes w (vc_scalar_width t)"
  have len: "length ?bs = vc_scalar_width t"
    by (simp add: low_bytes_def)
  have "le_word ?bs = take_bit (8 * vc_scalar_width t) w"
    using len by (intro bit_word_eqI)
      (auto simp: bit_le_word bit_take_bit_iff low_bytes_def bit_ucast_iff bit_drop_bit_eq)
  then have "w AND vc_width_mask (vc_scalar_width t) = le_word ?bs AND vc_width_mask (vc_scalar_width t)"
    using assms vc_scalar_width_cases [of t]
    by (auto simp: and_width_mask_eq_iff unsigned_take_bit_eq take_bit_take_bit)
  then show ?thesis
    using scalar_value_le_word [OF len assms] scalar_value_eq_iff [OF assms] by metis
qed

text \<open>C39. The read and the comparison, over the integers: for the six scalar types, \<^verbatim>\<open>vc_matches\<close> on the words
  that \<^verbatim>\<open>vc_read_little_endian\<close> reads compares the integers the bytes at the two addresses encode,
  little-endian and in two's complement for the signed types, and the low bytes of \<^verbatim>\<open>value_bits\<close> likewise.\<close>

theorem vc_matches_integers:
  assumes "t \<in> {VC_SCALAR_U8, VC_SCALAR_S8, VC_SCALAR_U16, VC_SCALAR_S16, VC_SCALAR_U32, VC_SCALAR_S32}"
  defines "width \<equiv> vc_scalar_width t"
  shows "vc_matches t r (vc_read_little_endian m old width) (vc_read_little_endian m new width) k width \<longleftrightarrow>
    relation_holds r
      (bytes_value (vc_type_is_signed t) (map (\<lambda>i. m (old + of_nat i)) [0..<width]))
      (bytes_value (vc_type_is_signed t) (map (\<lambda>i. m (new + of_nat i)) [0..<width]))
      (bytes_value (vc_type_is_signed t) (low_bytes k width))"
proof -
  have "vc_scalar_width t \<noteq> 0"
    using assms(1) by auto
  then show ?thesis
    using vc_scalar_width_le_4 [of t]
    by (simp add: vc_matches_relation width_def vc_read_little_endian_le_word scalar_value_le_word
        scalar_value_low_bytes [of _ k])
qed

text \<open>Two bytes in memory, read as signed 16-bit values: \<open>ff ff\<close> is less than \<open>01 00\<close>.\<close>

theorem vc_matches_integers_witness:
  "vc_matches VC_SCALAR_S16 VC_RELATION_INCREASED
     (vc_read_little_endian (\<lambda>x :: 32 word. if x < 2 then 255 else if x = 2 then 1 else 0) 0 2)
     (vc_read_little_endian (\<lambda>x :: 32 word. if x < 2 then 255 else if x = 2 then 1 else 0) 2 2) 0 2"
proof -
  let ?m = "\<lambda>x :: 32 word. if x < 2 then 255 else if x = 2 then 1 else 0 :: uint8_t"
  have "bytes_value (vc_type_is_signed VC_SCALAR_S16) (map (\<lambda>i. ?m (0 + of_nat i)) [0..<2]) = - 1"
    and "bytes_value (vc_type_is_signed VC_SCALAR_S16) (map (\<lambda>i. ?m (2 + of_nat i)) [0..<2]) = 1"
    by code_simp+
  then show ?thesis
    using vc_matches_integers [of VC_SCALAR_S16 VC_RELATION_INCREASED ?m 0 2 0] by simp
qed

end
