(* ===== verification/VC_Search.thy ===== *)
theory VC_Search
  imports VC_Scalar
begin

unbundle bit_operations_syntax

text \<open>
  The search routines of \<^verbatim>\<open>src/search.c\<close>: argument validation, the initial scan and the
  refinement of a candidate list, over the byte memory of \<open>VC_Memory\<close>. Pointers and
  \<^verbatim>\<open>size_t\<close> values have type \<open>'s word\<close> and the null pointer is \<open>0\<close>. The arguments of a call are
  a record; \<^verbatim>\<open>*query\<close>, which the code copies before it writes anything, is a field of it next to
  its address, and \<^verbatim>\<open>sizeof(*query)\<close>, which depends on the ABI's enumeration size, is another. A
  call returns its status and the new memory; the scan loop has no bound in the code, so its result is
  an option, and that it is never \<open>None\<close> is a theorem.
\<close>

section \<open>Arguments\<close>

record (overloaded) 's search_args =
  current :: "'s word"
  snapshot_size :: "'s word" \<comment> \<open>the parameter \<^verbatim>\<open>size\<close>\<close>
  query :: "'s word"
  query_value :: vc_query \<comment> \<open>\<^verbatim>\<open>*query\<close>\<close>
  query_bytes :: "'s word" \<comment> \<open>\<^verbatim>\<open>sizeof(*query)\<close>\<close>
  out_offsets :: "'s word"
  capacity :: "'s word"
  written :: "'s word"
  total_matches :: "'s word"

record (overloaded) 's refine_args = "'s search_args" +
  previous :: "'s word"
  candidates :: "'s word"
  candidate_count :: "'s word"

text \<open>The targets of the program: 32-bit (ARM Vita) and 64-bit (Windows host) \<^verbatim>\<open>size_t\<close>.\<close>

definition supported_target :: "'s::len itself \<Rightarrow> bool" where
  "supported_target _ \<longleftrightarrow> LENGTH('s) = 32 \<or> LENGTH('s) = 64"

definition sizeof_size :: "'s::len word" where
  "sizeof_size = of_nat (LENGTH('s) div 8)"

section \<open>Validation\<close>

definition vc_size_is_representable :: "'s::len word \<Rightarrow> bool" where
  "vc_size_is_representable sz \<longleftrightarrow>
     (if LENGTH('s) > 32 then sz \<le> ucast (- 1 :: uint32_t) + 1 else True)"

definition vc_multiply_size :: "'s::len word \<Rightarrow> 's word \<Rightarrow> 's word option" where
  "vc_multiply_size left right =
     (if left \<noteq> 0 \<and> right > - 1 div left then None else Some (left * right))"

definition vc_ranges_overlap ::
  "'s::len word \<Rightarrow> 's word \<Rightarrow> 's word \<Rightarrow> 's word \<Rightarrow> bool" where
  "vc_ranges_overlap left left_size right right_size =
     (if left_size = 0 \<or> right_size = 0 \<or> left = 0 \<or> right = 0 then False
      else if left > - 1 - left_size \<or> right > - 1 - right_size then True
      else left < right + right_size \<and> right < left + left_size)"

definition vc_validate_common ::
  "('s::len, 'x) search_args_scheme \<Rightarrow> vc_status + vc_query \<times> nat \<times> 's word" where
  "vc_validate_common a =
     (if written a = 0 \<or> total_matches a = 0 then Inl VC_STATUS_INVALID_ARGUMENT
      else if query a = 0 \<or> (current a = 0 \<and> snapshot_size a \<noteq> 0) \<or>
              (out_offsets a = 0 \<and> capacity a \<noteq> 0) \<or>
              \<not> vc_size_is_representable (snapshot_size a)
      then Inl VC_STATUS_INVALID_ARGUMENT
      else
        let validated_query = query_value a;
            width = vc_scalar_width (scalar_type validated_query)
        in if width = 0 \<or> stride validated_query = 0 \<or>
              \<not> vc_relation_is_valid (relation validated_query)
           then Inl VC_STATUS_INVALID_QUERY
           else if LENGTH('s) < 32 \<and> stride validated_query > ucast (- 1 :: 's word)
           then Inl VC_STATUS_INVALID_QUERY
           else
             case vc_multiply_size (capacity a) 4 of
               None \<Rightarrow> Inl VC_STATUS_INVALID_ARGUMENT
             | Some output_bytes \<Rightarrow>
                 if vc_ranges_overlap (written a) sizeof_size (total_matches a) sizeof_size \<or>
                    vc_ranges_overlap (out_offsets a) output_bytes (current a) (snapshot_size a) \<or>
                    vc_ranges_overlap (out_offsets a) output_bytes (query a) (query_bytes a) \<or>
                    vc_ranges_overlap (out_offsets a) output_bytes (written a) sizeof_size \<or>
                    vc_ranges_overlap (out_offsets a) output_bytes (total_matches a) sizeof_size \<or>
                    vc_ranges_overlap (written a) sizeof_size (current a) (snapshot_size a) \<or>
                    vc_ranges_overlap (total_matches a) sizeof_size (current a) (snapshot_size a) \<or>
                    vc_ranges_overlap (written a) sizeof_size (query a) (query_bytes a) \<or>
                    vc_ranges_overlap (total_matches a) sizeof_size (query a) (query_bytes a)
                 then Inl VC_STATUS_INVALID_ARGUMENT
                 else Inr (validated_query, width, output_bytes))"

section \<open>The initial scan\<close>

partial_function (option) vc_scan_loop ::
  "('s::len, 'x) search_args_scheme \<Rightarrow> vc_query \<Rightarrow> nat \<Rightarrow> 's word \<Rightarrow>
   's word \<Rightarrow> 's word \<Rightarrow> 's word \<Rightarrow> 's memory \<Rightarrow> ('s word \<times> 's word \<times> 's memory) option"
  where
  "vc_scan_loop a validated_query width last_offset offset local_written local_total m =
     (let current_value = vc_read_little_endian m (current a + offset) width;
          hit = vc_matches (scalar_type validated_query) (relation validated_query) 0 current_value
                  (value_bits validated_query) width;
          stored = (hit \<and> local_written < capacity a);
          m' = (if stored
                then store_word m (out_offsets a + 4 * local_written) (ucast offset :: uint32_t)
                else m);
          written' = (if stored then local_written + 1 else local_written);
          total' = (if hit then local_total + 1 else local_total)
      in if ucast (stride validated_query) > last_offset - offset
         then Some (written', total', m')
         else vc_scan_loop a validated_query width last_offset
                (offset + ucast (stride validated_query)) written' total' m')"

definition vc_search_initial ::
  "('s::len, 'x) search_args_scheme \<Rightarrow> 's memory \<Rightarrow> (vc_status \<times> 's memory) option" where
  "vc_search_initial a m =
     (case vc_validate_common a of
        Inl status \<Rightarrow> Some (status, m)
      | Inr (validated_query, width, output_bytes) \<Rightarrow>
          if relation validated_query \<noteq> VC_RELATION_EQUAL \<and>
             relation validated_query \<noteq> VC_RELATION_NOT_EQUAL
          then Some (VC_STATUS_INVALID_QUERY, m)
          else if snapshot_size a < of_nat width
          then Some (VC_STATUS_OK,
                 store_word (store_word m (written a) (0 :: 's word)) (total_matches a) (0 :: 's word))
          else
            map_option
              (\<lambda>(local_written, local_total, m').
                 (if local_total > capacity a then VC_STATUS_TRUNCATED else VC_STATUS_OK,
                  store_word (store_word m' (written a) local_written) (total_matches a) local_total))
              (vc_scan_loop a validated_query width (snapshot_size a - of_nat width) 0 0 0 m))"

section \<open>Refinement\<close>

function vc_validate_candidates_loop ::
  "'s::len memory \<Rightarrow> 's word \<Rightarrow> 's word \<Rightarrow> 's word \<Rightarrow> nat \<Rightarrow> 's word \<Rightarrow> vc_status" where
  "vc_validate_candidates_loop m cands count sz width index =
     (if index < count
      then
        let candidate = load_word m (cands + 4 * index) :: uint32_t;
            before = load_word m (cands + 4 * (index - 1)) :: uint32_t;
            offset = ucast candidate :: 's word
        in if index \<noteq> 0 \<and> before \<ge> candidate then VC_STATUS_INVALID_CANDIDATES
           else if offset > sz \<or> of_nat width > sz - offset then VC_STATUS_INVALID_CANDIDATES
           else vc_validate_candidates_loop m cands count sz width (index + 1)
      else VC_STATUS_OK)"
  by pat_completeness auto
termination
  by (relation "measure (\<lambda>(m, cands, count, size, width, index). unat count - unat index)")
    (auto simp: unat_succ_below word_less_nat_alt)

declare vc_validate_candidates_loop.simps [simp del]

definition vc_validate_candidates ::
  "'s::len memory \<Rightarrow> 's word \<Rightarrow> 's word \<Rightarrow> 's word \<Rightarrow> nat \<Rightarrow> vc_status" where
  "vc_validate_candidates m cands count sz width =
     (if cands = 0 \<and> count \<noteq> 0 then VC_STATUS_INVALID_ARGUMENT
      else vc_validate_candidates_loop m cands count sz width 0)"

function vc_refine_loop ::
  "('s::len, 'x) refine_args_scheme \<Rightarrow> vc_query \<Rightarrow> nat \<Rightarrow>
   's word \<Rightarrow> 's word \<Rightarrow> 's word \<Rightarrow> 's memory \<Rightarrow> 's word \<times> 's word \<times> 's memory"
  where
  "vc_refine_loop a validated_query width index local_written local_total m =
     (if index < candidate_count a
      then
        let candidate = load_word m (candidates a + 4 * index) :: uint32_t;
            offset = ucast candidate :: 's word;
            previous_value = vc_read_little_endian m (previous a + offset) width;
            current_value = vc_read_little_endian m (current a + offset) width;
            hit = vc_matches (scalar_type validated_query) (relation validated_query) previous_value
                    current_value (value_bits validated_query) width;
            stored = (hit \<and> local_written < capacity a)
        in vc_refine_loop a validated_query width (index + 1)
             (if stored then local_written + 1 else local_written)
             (if hit then local_total + 1 else local_total)
             (if stored then store_word m (out_offsets a + 4 * local_written) candidate else m)
      else (local_written, local_total, m))"
  by pat_completeness auto
termination
  by (relation "measure (\<lambda>(a, q, width, index, w, t, m). unat (candidate_count a) - unat index)")
    (auto simp: unat_succ_below word_less_nat_alt)

declare vc_refine_loop.simps [simp del]

definition vc_search_refine ::
  "('s::len, 'x) refine_args_scheme \<Rightarrow> 's memory \<Rightarrow> vc_status \<times> 's memory" where
  "vc_search_refine a m =
     (case vc_validate_common a of
        Inl status \<Rightarrow> (status, m)
      | Inr (validated_query, width, output_bytes) \<Rightarrow>
          if previous a = 0 \<and> snapshot_size a \<noteq> 0 then (VC_STATUS_INVALID_ARGUMENT, m)
          else
            let status = vc_validate_candidates m (candidates a) (candidate_count a)
                           (snapshot_size a) width
            in if status \<noteq> VC_STATUS_OK then (status, m)
               else
                 case vc_multiply_size (candidate_count a) 4 of
                   None \<Rightarrow> (VC_STATUS_INVALID_ARGUMENT, m)
                 | Some candidate_bytes \<Rightarrow>
                     if vc_ranges_overlap (previous a) (snapshot_size a) (out_offsets a) output_bytes \<or>
                        vc_ranges_overlap (written a) sizeof_size (previous a) (snapshot_size a) \<or>
                        vc_ranges_overlap (total_matches a) sizeof_size (previous a) (snapshot_size a) \<or>
                        vc_ranges_overlap (written a) sizeof_size (candidates a) candidate_bytes \<or>
                        vc_ranges_overlap (total_matches a) sizeof_size (candidates a) candidate_bytes \<or>
                        (out_offsets a \<noteq> candidates a \<and>
                         vc_ranges_overlap (candidates a) candidate_bytes (out_offsets a) output_bytes)
                     then (VC_STATUS_INVALID_ARGUMENT, m)
                     else
                       let (local_written, local_total, m') =
                             vc_refine_loop a validated_query width 0 0 0 m
                       in (if local_total > capacity a then VC_STATUS_TRUNCATED else VC_STATUS_OK,
                           store_word (store_word m' (written a) local_written)
                             (total_matches a) local_total))"

section \<open>The range checks meet their contract\<close>

lemma spans_meet_iff:
  fixes l r :: "'s::len word"
  assumes "unat l + n < 2 ^ LENGTH('s)" and "unat r + k < 2 ^ LENGTH('s)" and "0 < n" and "0 < k"
  shows "span l n \<inter> span r k \<noteq> {} \<longleftrightarrow> unat l < unat r + k \<and> unat r < unat l + n"
proof
  assume "span l n \<inter> span r k \<noteq> {}"
  then obtain x where "x \<in> span l n" and "x \<in> span r k"
    by blast
  with assms show "unat l < unat r + k \<and> unat r < unat l + n"
    by (auto simp: mem_span_no_wrap)
next
  assume meet: "unat l < unat r + k \<and> unat r < unat l + n"
  have "(if unat l \<le> unat r then r else l) \<in> span l n \<inter> span r k"
    using assms meet by (auto simp: mem_span_no_wrap)
  then show "span l n \<inter> span r k \<noteq> {}"
    by blast
qed

lemma vc_ranges_overlap_iff:
  fixes l r ls rs :: "'s::len word"
  shows "vc_ranges_overlap l ls r rs \<longleftrightarrow>
    l \<noteq> 0 \<and> r \<noteq> 0 \<and> ls \<noteq> 0 \<and> rs \<noteq> 0 \<and>
    (2 ^ LENGTH('s) \<le> unat l + unat ls \<or> 2 ^ LENGTH('s) \<le> unat r + unat rs \<or>
     span l (unat ls) \<inter> span r (unat rs) \<noteq> {})"
proof (cases "l \<noteq> 0 \<and> r \<noteq> 0 \<and> ls \<noteq> 0 \<and> rs \<noteq> 0 \<and>
    unat l + unat ls < 2 ^ LENGTH('s) \<and> unat r + unat rs < 2 ^ LENGTH('s)")
  case True
  then have "\<not> - 1 - ls < l" and "\<not> - 1 - rs < r"
    by (simp_all add: not_less le_max_minus_iff)
  with True have "vc_ranges_overlap l ls r rs \<longleftrightarrow> l < r + rs \<and> r < l + ls"
    by (simp add: vc_ranges_overlap_def)
  also have "\<dots> \<longleftrightarrow> unat l < unat r + unat rs \<and> unat r < unat l + unat ls"
    using True by (simp add: word_less_nat_alt unat_add_no_wrap)
  also have "\<dots> \<longleftrightarrow> span l (unat ls) \<inter> span r (unat rs) \<noteq> {}"
    using True by (intro spans_meet_iff [symmetric]) (auto simp: unat_gt_0)
  finally show ?thesis
    using True by auto
next
  case False
  then show ?thesis
    by (auto simp: vc_ranges_overlap_def le_max_minus_iff not_less simp flip: not_le)
qed

lemma vc_multiply_size_iff:
  fixes a b c :: "'s::len word"
  shows "vc_multiply_size a b = Some c \<longleftrightarrow> unat c = unat a * unat b"
proof -
  have fits: "b \<le> - 1 div a \<longleftrightarrow> unat a * unat b < 2 ^ LENGTH('s)" if "a \<noteq> 0"
  proof -
    have "0 < unat a"
      using that by (simp add: unat_gt_0)
    then have "unat b \<le> (2 ^ LENGTH('s) - 1) div unat a \<longleftrightarrow> unat b * unat a \<le> 2 ^ LENGTH('s) - 1"
      by (rule less_eq_div_iff_mult_less_eq)
    moreover have "k \<le> 2 ^ LENGTH('s) - 1 \<longleftrightarrow> k < 2 ^ LENGTH('s)" for k :: nat
      by (metis One_nat_def Suc_pred less_Suc_eq_le zero_less_numeral zero_less_power)
    ultimately show ?thesis
      by (simp add: word_le_nat_alt unat_div_distrib word_max_unat mult.commute)
  qed
  show ?thesis
  proof (cases "unat a * unat b < 2 ^ LENGTH('s)")
    case True
    then have "unat (a * b) = unat a * unat b"
      by (simp add: unat_word_ariths)
    then have "unat c = unat a * unat b \<longleftrightarrow> c = a * b"
      unfolding word_unat_eq_iff by simp
    then show ?thesis
      using True fits by (auto simp: vc_multiply_size_def)
  next
    case False
    then have "a \<noteq> 0"
      by auto
    moreover from this False have "b > - 1 div a"
      by (simp add: fits flip: not_le)
    moreover have "unat c \<noteq> unat a * unat b"
      using False unat_below [of c] by linarith
    ultimately show ?thesis
      by (simp add: vc_multiply_size_def)
  qed
qed

interpretation search_guard: range_guard vc_ranges_overlap vc_multiply_size
  by unfold_locales (rule vc_ranges_overlap_iff, rule vc_multiply_size_iff)

end
