(* ===== verification/VC_Search_Correct.thy ===== *)
theory VC_Search_Correct
  imports VC_Search
begin

unbundle bit_operations_syntax

text \<open>
  Correctness of the search routines: the contract of a search over snapshot bytes
  (\<open>initial_hits\<close>, \<open>refine_hits\<close>, \<open>search_outcome\<close>), the effect of the two loops, what a passed
  validation guarantees, and the properties of \<^verbatim>\<open>vc_search_initial\<close> and
  \<^verbatim>\<open>vc_search_refine\<close>.
\<close>

section \<open>What a search promises\<close>

text \<open>
  The contract of a search, over the bytes of the snapshots and independent of memory: the scalar at
  an offset, the offsets a scan visits, the offsets that match. \<open>search_outcome\<close> says what a
  successful call leaves in memory: the status, the first matches that fit in the output array, the two
  counters, and every other byte as it was.
\<close>

definition snapshot :: "'s::len memory \<Rightarrow> 's word \<Rightarrow> nat \<Rightarrow> uint8_t list" where
  "snapshot m a n = map (\<lambda>i. m (a + of_nat i)) [0..<n]"

definition scalar_at :: "vc_scalar_type \<Rightarrow> uint8_t list \<Rightarrow> nat \<Rightarrow> int" where
  "scalar_at t bytes i = scalar_value t (le_word (take (vc_scalar_width t) (drop i bytes)))"

definition scan_from :: "nat \<Rightarrow> nat \<Rightarrow> nat \<Rightarrow> nat list" where
  "scan_from offset final step = map (\<lambda>j. offset + j * step) [0..<Suc ((final - offset) div step)]"

definition scan_offsets :: "vc_query \<Rightarrow> nat \<Rightarrow> nat list" where
  "scan_offsets q n =
     (let width = vc_scalar_width (scalar_type q)
      in if n < width then [] else scan_from 0 (n - width) (unat (stride q)))"

definition initial_hits :: "vc_query \<Rightarrow> uint8_t list \<Rightarrow> nat list" where
  "initial_hits q bytes =
     filter (\<lambda>i. relation_holds (relation q) 0 (scalar_at (scalar_type q) bytes i)
                   (scalar_value (scalar_type q) (value_bits q)))
       (scan_offsets q (length bytes))"

definition refine_hits ::
  "vc_query \<Rightarrow> uint8_t list \<Rightarrow> uint8_t list \<Rightarrow> uint32_t list \<Rightarrow> uint32_t list" where
  "refine_hits q old new cands =
     filter (\<lambda>c. relation_holds (relation q) (scalar_at (scalar_type q) old (unat c))
                   (scalar_at (scalar_type q) new (unat c))
                   (scalar_value (scalar_type q) (value_bits q)))
       cands"

definition search_outcome ::
  "('s::len, 'x) search_args_scheme \<Rightarrow> 's memory \<Rightarrow> uint32_t list \<Rightarrow> vc_status \<Rightarrow> 's memory \<Rightarrow> bool"
  where
  "search_outcome a m hits status m' \<longleftrightarrow>
     (let stored = take (unat (capacity a)) hits in
      status = (if length hits > unat (capacity a) then VC_STATUS_TRUNCATED else VC_STATUS_OK) \<and>
      load_array m' (out_offsets a) (length stored) = stored \<and>
      unat (load_word m' (written a) :: 's word) = length stored \<and>
      unat (load_word m' (total_matches a) :: 's word) = length hits \<and>
      (\<forall>x. x \<notin> span (out_offsets a) (4 * length stored) \<union> span (written a) (LENGTH('s) div 8) \<union>
               span (total_matches a) (LENGTH('s) div 8) \<longrightarrow> m' x = m x))"

section \<open>Reading a snapshot\<close>

lemma length_snapshot [simp]: "length (snapshot m a n) = n"
  by (simp add: snapshot_def)

lemma snapshot_cong:
  "(\<And>x. x \<in> span a n \<Longrightarrow> m x = m' x) \<Longrightarrow> snapshot m a n = snapshot m' a n"
  by (simp add: snapshot_def add_of_nat_in_span)

lemma read_snapshot:
  assumes "i + width \<le> n" and "width \<le> 4"
  shows "vc_read_little_endian m (a + of_nat i) width = le_word (take width (drop i (snapshot m a n)))"
proof -
  have "map (\<lambda>j. m (a + of_nat i + of_nat j)) [0..<width] = take width (drop i (snapshot m a n))"
    using assms by (intro nth_equalityI) (auto simp: snapshot_def add.assoc)
  with assms(2) show ?thesis
    by (simp add: vc_read_little_endian_le_word)
qed

lemma matches_snapshot:
  assumes "vc_scalar_width t \<noteq> 0" and "i + vc_scalar_width t \<le> n"
  shows "vc_matches t r old (vc_read_little_endian m (a + of_nat i) (vc_scalar_width t)) k
      (vc_scalar_width t) \<longleftrightarrow>
    relation_holds r (scalar_value t old) (scalar_at t (snapshot m a n) i) (scalar_value t k)"
  using assms vc_scalar_width_le_4 [of t]
  by (simp add: vc_matches_relation read_snapshot scalar_at_def)

lemma scan_from_step:
  assumes "0 < step"
  shows "scan_from offset final step =
    offset # (if step > final - offset then [] else scan_from (offset + step) final step)"
proof (cases "step > final - offset")
  case True
  then show ?thesis
    by (simp add: scan_from_def)
next
  case False
  then have "(final - offset) div step = Suc ((final - (offset + step)) div step)"
    using assms by (simp add: le_div_geq)
  then show ?thesis
    using False
    by (simp add: scan_from_def upt_conv_Cons map_Suc_upt [symmetric] algebra_simps del: upt_Suc)
qed

lemma set_scan_from:
  "0 < step \<Longrightarrow> offset \<le> final \<Longrightarrow>
    i \<in> set (scan_from offset final step) \<longleftrightarrow> offset \<le> i \<and> i \<le> final \<and> step dvd i - offset"
proof -
  assume step: "0 < step" and "offset \<le> final"
  have "i \<in> set (scan_from offset final step) \<longleftrightarrow>
      (\<exists>j. j * step \<le> final - offset \<and> i = offset + j * step)"
    using step by (auto simp: scan_from_def less_Suc_eq_le less_eq_div_iff_mult_less_eq
        simp del: upt_Suc)
  also have "\<dots> \<longleftrightarrow> offset \<le> i \<and> i \<le> final \<and> step dvd i - offset"
  proof
    assume "offset \<le> i \<and> i \<le> final \<and> step dvd i - offset"
    then obtain j where "i - offset = j * step" and "offset \<le> i" and "i \<le> final"
      by (metis dvdE mult.commute)
    then show "\<exists>j. j * step \<le> final - offset \<and> i = offset + j * step"
      by (intro exI [of _ j]) linarith
  qed (use \<open>offset \<le> final\<close> in auto)
  finally show ?thesis .
qed

section \<open>The effect of a loop that emits matches\<close>

text \<open>
  Both loops of \<^verbatim>\<open>src/search.c\<close> count the matches and store those that fit. \<open>emitted\<close> is the
  result of doing so for a list of matches.
\<close>

definition emitted ::
  "'s::len word \<Rightarrow> 's word \<Rightarrow> 's word \<Rightarrow> 's word \<Rightarrow> 's memory \<Rightarrow> uint32_t list \<Rightarrow>
   's word \<times> 's word \<times> 's memory" where
  "emitted out cap w t m hits =
     (w + of_nat (min (length hits) (unat cap - unat w)), t + of_nat (length hits),
      store_array m (out + 4 * w) (take (unat cap - unat w) hits))"

lemma emitted_Nil [simp]: "emitted out cap w t m [] = (w, t, m)"
  by (simp add: emitted_def)

lemma emitted_stored:
  assumes "w < cap"
  shows "emitted out cap w t m (h # hits) =
    emitted out cap (w + 1) (t + 1) (store_word m (out + 4 * w) h) hits"
proof -
  have "unat cap - unat w = Suc (unat cap - unat (w + 1))"
    using assms by (simp add: unat_succ_below word_less_nat_alt)
  then show ?thesis
    by (simp add: emitted_def algebra_simps)
qed

lemma emitted_full:
  assumes "\<not> w < cap"
  shows "emitted out cap w t m (h # hits) = emitted out cap w (t + 1) m hits"
  using assms by (simp add: emitted_def word_less_nat_alt)

lemmas emitted_simps = emitted_Nil emitted_stored emitted_full

text \<open>Storing a match changes only a slot of the output array that is free, and no candidate still to be read.\<close>

lemma stored_match_outside:
  fixes c :: uint32_t
  assumes "x \<notin> span out (4 * unat cap)" and "hit \<longrightarrow> w < cap"
  shows "(if hit then store_word m (out + 4 * w) c else m) x = m x"
proof (cases hit)
  case True
  then have "x \<notin> span (out + 4 * w) 4"
    using assms array_slot_in_span [of "unat w" "unat cap" out] by (auto simp: word_less_nat_alt)
  with True show ?thesis
    by (simp add: store_word_outside)
qed simp

lemma stored_match_snapshot:
  fixes c :: uint32_t
  assumes "span out (4 * unat cap) \<inter> span at n = {}" and "hit \<longrightarrow> w < cap"
  shows "snapshot (if hit then store_word m (out + 4 * w) c else m) at n = snapshot m at n"
  using assms by (intro snapshot_cong stored_match_outside) blast+

lemma stored_match_candidates:
  fixes out :: "'s::len word" and c :: uint32_t
  assumes j: "unat w < j" "j < n" "4 * n \<le> 2 ^ LENGTH('s)" and "hit \<longrightarrow> w < cap"
    and in_place: "out = cands \<or> span out (4 * unat cap) \<inter> span cands (4 * n) = {}"
  shows "(load_word (if hit then store_word m (out + 4 * w) c else m) (cands + 4 * of_nat j) :: uint32_t) =
    load_word m (cands + 4 * of_nat j)"
proof -
  let ?m = "if hit then store_word m (out + 4 * w) c else m"
  have "?m x = m x" if x: "x \<in> span (cands + 4 * of_nat j) 4" for x
    using in_place
  proof
    assume same: "out = cands"
    have "span (out + 4 * of_nat (unat w)) 4 \<inter> span (cands + 4 * of_nat j) 4 = {}"
      unfolding same using j by (intro array_slots_disjoint) linarith+
    with x have "x \<notin> span (out + 4 * w) 4"
      by auto
    then show ?thesis
      by (simp add: store_word_outside)
  next
    assume "span out (4 * unat cap) \<inter> span cands (4 * n) = {}"
    with x array_slot_in_span [OF j(2), of cands] assms(4) show ?thesis
      by (intro stored_match_outside) blast+
  qed
  then show ?thesis
    by (intro load_word_cong) simp
qed

lemma vc_scan_loop_emits:
  fixes a :: "('s::len, 'x) search_args_scheme"
  assumes target: "32 \<le> LENGTH('s)"
    and valid: "width = vc_scalar_width (scalar_type q)" "width \<noteq> 0" "stride q \<noteq> 0"
    and room: "unat last_offset + width = unat (snapshot_size a)"
    and disjoint: "span (out_offsets a) (4 * unat (capacity a)) \<inter>
      span (current a) (unat (snapshot_size a)) = {}"
    and bytes: "snapshot m (current a) (unat (snapshot_size a)) = bytes"
    and offset: "unat offset \<le> unat last_offset"
  shows "vc_scan_loop a q width last_offset offset w t m =
    Some (emitted (out_offsets a) (capacity a) w t m
      (map of_nat (filter (\<lambda>i. relation_holds (relation q) (scalar_value (scalar_type q) 0)
          (scalar_at (scalar_type q) bytes i) (scalar_value (scalar_type q) (value_bits q)))
        (scan_from (unat offset) (unat last_offset) (unat (stride q))))))"
  using bytes offset
proof (induction "unat last_offset - unat offset" arbitrary: offset w t m rule: less_induct)
  case less
  let ?step = "ucast (stride q) :: 's word"
  let ?P = "\<lambda>i. relation_holds (relation q) (scalar_value (scalar_type q) 0)
    (scalar_at (scalar_type q) bytes i) (scalar_value (scalar_type q) (value_bits q))"
  let ?hit = "?P (unat offset)"
  let ?m = "if ?hit \<and> w < capacity a
    then store_word m (out_offsets a + 4 * w) (ucast offset :: uint32_t) else m"
  let ?w = "if ?hit \<and> w < capacity a then w + 1 else w"
  let ?t = "if ?hit then t + 1 else t"
  have step: "unat ?step = unat (stride q)" "0 < unat (stride q)"
    using target valid by (simp_all add: unat_ucast_widen unat_gt_0)
  have hit: "vc_matches (scalar_type q) (relation q) 0
      (vc_read_little_endian m (current a + offset) width) (value_bits q) width = ?hit"
    using matches_snapshot [of "scalar_type q" "unat offset" "unat (snapshot_size a)"
        "relation q" 0 m "current a" "value_bits q"] less.prems room valid
    by simp
  have bytes': "snapshot ?m (current a) (unat (snapshot_size a)) = bytes"
    using stored_match_snapshot [OF disjoint] less.prems(1) by simp
  have break: "?step > last_offset - offset \<longleftrightarrow>
      unat (stride q) > unat last_offset - unat offset"
    using less.prems(2) step by (simp add: word_less_nat_alt unat_sub_no_wrap word_le_nat_alt)
  show ?case
  proof (cases "?step > last_offset - offset")
    case True
    then show ?thesis
      using step break
      by (subst vc_scan_loop.simps)
        (simp add: Let_def hit scan_from_step [of "unat (stride q)"] emitted_stored emitted_full)
  next
    case False
    have "unat offset + unat (stride q) \<le> unat last_offset"
      using False break less.prems(2) by linarith
    then have next_offset: "unat (offset + ?step) = unat offset + unat (stride q)"
      using unat_below [of last_offset] step
      by (subst unat_add_no_wrap) linarith+
    have "vc_scan_loop a q width last_offset (offset + ?step) ?w ?t ?m =
      Some (emitted (out_offsets a) (capacity a) ?w ?t ?m
        (map of_nat (filter ?P (scan_from (unat (offset + ?step)) (unat last_offset) (unat (stride q))))))"
      using less.hyps [OF _ bytes'] False break less.prems(2) next_offset step by simp
    then show ?thesis
      using False step break next_offset
      by (subst vc_scan_loop.simps)
        (simp add: Let_def hit scan_from_step [of "unat (stride q)" "unat offset"]
          emitted_stored emitted_full)
  qed
qed

section \<open>The refinement loop\<close>

text \<open>
  The output array may be the candidate array itself: a match is stored in a slot at or before the
  one it was read from, so the candidates still to be read are unchanged.
\<close>

lemma vc_refine_loop_emits:
  fixes a :: "('s::len, 'x) refine_args_scheme"
  assumes target: "32 \<le> LENGTH('s)"
    and valid: "width = vc_scalar_width (scalar_type q)" "width \<noteq> 0"
    and slots: "4 * unat (candidate_count a) \<le> 2 ^ LENGTH('s)"
    and bounds: "\<And>c. c \<in> set cs \<Longrightarrow> unat c + width \<le> unat (snapshot_size a)"
    and length: "length cs = unat (candidate_count a)"
    and disjoint: "span (out_offsets a) (4 * unat (capacity a)) \<inter>
        span (current a) (unat (snapshot_size a)) = {}"
      "span (out_offsets a) (4 * unat (capacity a)) \<inter>
        span (previous a) (unat (snapshot_size a)) = {}"
    and in_place: "out_offsets a = candidates a \<or>
      span (out_offsets a) (4 * unat (capacity a)) \<inter>
      span (candidates a) (4 * unat (candidate_count a)) = {}"
    and new: "snapshot m (current a) (unat (snapshot_size a)) = new"
    and old: "snapshot m (previous a) (unat (snapshot_size a)) = old"
    and cands: "\<And>j. unat index \<le> j \<Longrightarrow> j < unat (candidate_count a) \<Longrightarrow>
      load_word m (candidates a + 4 * of_nat j) = cs ! j"
    and w: "unat w \<le> unat index"
  shows "vc_refine_loop a q width index w t m =
    emitted (out_offsets a) (capacity a) w t m (refine_hits q old new (drop (unat index) cs))"
  using new old cands w
proof (induction "unat (candidate_count a) - unat index" arbitrary: index w t m rule: less_induct)
  case less
  show ?case
  proof (cases "index < candidate_count a")
    case False
    then show ?thesis
      using length by (subst vc_refine_loop.simps) (simp add: word_less_nat_alt refine_hits_def)
  next
    case True
    then have i: "unat index < unat (candidate_count a)" "unat (index + 1) = Suc (unat index)"
      by (simp_all add: word_less_nat_alt unat_succ_below)
    define c where "c = cs ! unat index"
    let ?hit = "relation_holds (relation q) (scalar_at (scalar_type q) old (unat c))
      (scalar_at (scalar_type q) new (unat c)) (scalar_value (scalar_type q) (value_bits q))"
    let ?stored = "?hit \<and> w < capacity a"
    let ?m = "if ?stored then store_word m (out_offsets a + 4 * w) c else m"
    let ?w = "if ?stored then w + 1 else w"
    let ?t = "if ?hit then t + 1 else t"
    have c: "c \<in> set cs" "drop (unat index) cs = c # drop (Suc (unat index)) cs"
      using i length by (simp_all add: c_def Cons_nth_drop_Suc)
    have load: "(load_word m (candidates a + 4 * index) :: uint32_t) = c"
      using less.prems(3) [of "unat index"] i by (simp add: c_def)
    have offset: "unat (ucast c :: 's word) = unat c"
      using target by (simp add: unat_ucast_widen)
    have hit: "vc_matches (scalar_type q) (relation q)
        (vc_read_little_endian m (previous a + ucast c) width)
        (vc_read_little_endian m (current a + ucast c) width) (value_bits q) width = ?hit"
      using bounds [OF c(1)] valid less.prems(1,2) vc_scalar_width_le_4 [of "scalar_type q"]
        read_snapshot [of "unat c" width "unat (snapshot_size a)" m "previous a"]
        read_snapshot [of "unat c" width "unat (snapshot_size a)" m "current a"]
      by (simp add: vc_matches_relation scalar_at_def)
    have new': "snapshot ?m (current a) (unat (snapshot_size a)) = new"
      and old': "snapshot ?m (previous a) (unat (snapshot_size a)) = old"
      using stored_match_snapshot [OF disjoint(1)] stored_match_snapshot [OF disjoint(2)] less.prems(1,2) by simp_all
    have cands': "load_word ?m (candidates a + 4 * of_nat j) = cs ! j"
      if j: "Suc (unat index) \<le> j" "j < unat (candidate_count a)" for j
      using stored_match_candidates [of w j "unat (candidate_count a)" ?stored "capacity a" "out_offsets a" "candidates a" m c]
        j slots in_place less.prems(3) [of j] less.prems(4) by simp
    have w': "unat ?w \<le> unat (index + 1)"
      using less.prems(4) i(2) unat_succ_below [of w "capacity a"] by simp
    have "vc_refine_loop a q width (index + 1) ?w ?t ?m =
      emitted (out_offsets a) (capacity a) ?w ?t ?m (refine_hits q old new (drop (Suc (unat index)) cs))"
      using less.hyps [OF _ new' old' _ w'] cands' i by simp
    then show ?thesis
      using True by (subst vc_refine_loop.simps)
        (simp add: Let_def load hit c(2) refine_hits_def emitted_stored emitted_full)
  qed
qed

section \<open>What validation accepts\<close>

text \<open>
  Two ranges are \<open>apart\<close> when one of them is null or empty, or neither reaches the end of the address
  space and they share no byte. Validation accepts a call exactly when its arguments are
  \<open>well_placed\<close> and its query is well formed.
\<close>

definition apart :: "'s::len word \<Rightarrow> nat \<Rightarrow> 's word \<Rightarrow> nat \<Rightarrow> bool" where
  "apart l n r k \<longleftrightarrow> l = 0 \<or> r = 0 \<or> n = 0 \<or> k = 0 \<or>
     (unat l + n < 2 ^ LENGTH('s) \<and> unat r + k < 2 ^ LENGTH('s) \<and> span l n \<inter> span r k = {})"

definition well_formed_query :: "vc_query \<Rightarrow> bool" where
  "well_formed_query q \<longleftrightarrow>
     vc_scalar_width (scalar_type q) \<noteq> 0 \<and> stride q \<noteq> 0 \<and> (\<forall>n. relation q \<noteq> VC_RELATION_BEYOND n)"

definition well_placed :: "('s::len, 'x) search_args_scheme \<Rightarrow> bool" where
  "well_placed a \<longleftrightarrow>
     (let out = 4 * unat (capacity a); size = unat (snapshot_size a); counter = LENGTH('s) div 8 in
      written a \<noteq> 0 \<and> total_matches a \<noteq> 0 \<and> query a \<noteq> 0 \<and>
      (current a = 0 \<longrightarrow> size = 0) \<and> (out_offsets a = 0 \<longrightarrow> out = 0) \<and>
      size \<le> 2 ^ 32 \<and> out < 2 ^ LENGTH('s) \<and>
      apart (written a) counter (total_matches a) counter \<and>
      apart (out_offsets a) out (current a) size \<and>
      apart (out_offsets a) out (query a) (unat (query_bytes a)) \<and>
      apart (out_offsets a) out (written a) counter \<and>
      apart (out_offsets a) out (total_matches a) counter \<and>
      apart (written a) counter (current a) size \<and>
      apart (total_matches a) counter (current a) size \<and>
      apart (written a) counter (query a) (unat (query_bytes a)) \<and>
      apart (total_matches a) counter (query a) (unat (query_bytes a)))"

lemma supported_targetD:
  assumes "supported_target TYPE('s::len)"
  shows "32 \<le> LENGTH('s)" and "8 dvd LENGTH('s)" and "LENGTH('s) div 8 < 2 ^ LENGTH('s)"
    and "unat (4 :: 's word) = 4" and "unat (sizeof_size :: 's word) = LENGTH('s) div 8"
proof -
  have cases: "LENGTH('s) = 32 \<or> LENGTH('s) = 64"
    using assms by (simp add: supported_target_def)
  then show "32 \<le> LENGTH('s)" and "8 dvd LENGTH('s)"
    by auto
  show below: "LENGTH('s) div 8 < 2 ^ LENGTH('s)"
    by (rule le_less_trans [OF div_le_dividend less_exp])
  have "unat (of_nat 4 :: 's word) = 4"
    using cases by (intro unat_of_nat_small) auto
  then show "unat (4 :: 's word) = 4"
    by simp
  show "unat (sizeof_size :: 's word) = LENGTH('s) div 8"
    using below by (simp add: sizeof_size_def unat_of_nat_small)
qed

lemma vc_size_is_representable_iff:
  assumes "supported_target TYPE('s::len)"
  shows "vc_size_is_representable (n :: 's word) \<longleftrightarrow> unat n \<le> 2 ^ 32"
proof (cases "LENGTH('s) = 32")
  case True
  then show ?thesis
    using unat_below [of n] by (simp add: vc_size_is_representable_def)
next
  case False
  then have bits: "LENGTH('s) = 64"
    using assms by (simp add: supported_target_def)
  then have "unat (ucast (- 1 :: uint32_t) :: 's word) = 2 ^ 32 - 1"
    by (simp add: unat_ucast_widen word_max_unat)
  then have "unat (ucast (- 1 :: uint32_t) + 1 :: 's word) = 2 ^ 32"
    using bits by (subst unat_add_no_wrap) simp_all
  with bits show ?thesis
    by (simp add: vc_size_is_representable_def word_le_nat_alt)
qed

lemma apart_32:
  fixes l r :: "32 word"
  assumes "unat l + n < 2 ^ 32" and "unat r + k < 2 ^ 32" and "unat l + n \<le> unat r \<or> unat r + k \<le> unat l"
  shows "apart l n r k"
proof -
  have "span l n \<inter> span r k = {}"
    using assms mem_span_no_wrap [of l n] mem_span_no_wrap [of r k] by auto
  with assms show ?thesis
    by (simp add: apart_def)
qed

lemma not_overlap_iff_apart:
  "\<not> vc_ranges_overlap l ls r rs \<longleftrightarrow> apart l (unat ls) r (unat rs)"
  by (auto simp: search_guard.overlap_iff apart_def not_le unat_eq_0)

lemma apart_disjoint:
  assumes "apart l n r k" and "l = 0 \<Longrightarrow> n = 0" and "r = 0 \<Longrightarrow> k = 0"
  shows "span l n \<inter> span r k = {}"
  using assms by (auto simp: apart_def)

lemma vc_validate_common_accepts:
  fixes a :: "('s::len, 'x) search_args_scheme"
  assumes "supported_target TYPE('s)"
  shows "vc_validate_common a = Inr (q, width, output_bytes) \<longleftrightarrow>
    well_placed a \<and> well_formed_query (query_value a) \<and> q = query_value a \<and>
    width = vc_scalar_width (scalar_type q) \<and> unat output_bytes = 4 * unat (capacity a)"
proof -
  note target = supported_targetD [OF assms]
  have mult: "vc_multiply_size (capacity a) 4 = Some c \<longleftrightarrow>
      unat c = 4 * unat (capacity a) \<and> 4 * unat (capacity a) < 2 ^ LENGTH('s)" for c
    unfolding search_guard.mult_iff target(4) by (metis mult.commute unat_below)
  have wide: "\<not> LENGTH('s) < 32"
    using target(1) by simp
  show ?thesis
    unfolding vc_validate_common_def Let_def Inr_branch mult
    by (auto simp: well_placed_def well_formed_query_def Let_def not_overlap_iff_apart wide
        target(5) vc_size_is_representable_iff [OF assms] vc_relation_is_valid_iff unat_eq_0)
qed

lemma vc_validate_common_ok:
  fixes a :: "('s::len, 'x) search_args_scheme"
  assumes target: "supported_target TYPE('s)" and "well_placed a"
    and "well_formed_query (query_value a)"
  obtains output_bytes where "vc_validate_common a =
    Inr (query_value a, vc_scalar_width (scalar_type (query_value a)), output_bytes)"
proof -
  have "4 * unat (capacity a) < 2 ^ LENGTH('s)"
    using assms by (simp add: well_placed_def Let_def)
  then have "unat (of_nat (4 * unat (capacity a)) :: 's word) = 4 * unat (capacity a)"
    by (rule unat_of_nat_small)
  with that show thesis
    using assms by (simp add: vc_validate_common_accepts [OF target])
qed

section \<open>The memory a search leaves\<close>

lemma well_placed_disjoint:
  fixes a :: "('s::len, 'x) search_args_scheme"
  assumes "well_placed a"
  shows "span (written a) (LENGTH('s) div 8) \<inter> span (total_matches a) (LENGTH('s) div 8) = {}"
    and "span (out_offsets a) (4 * unat (capacity a)) \<inter>
      span (current a) (unat (snapshot_size a)) = {}"
    and "span (out_offsets a) (4 * unat (capacity a)) \<inter>
      span (written a) (LENGTH('s) div 8) = {}"
    and "span (out_offsets a) (4 * unat (capacity a)) \<inter>
      span (total_matches a) (LENGTH('s) div 8) = {}"
proof -
  have nonnull: "written a \<noteq> 0" "total_matches a \<noteq> 0"
    "current a = 0 \<Longrightarrow> unat (snapshot_size a) = 0" "out_offsets a = 0 \<Longrightarrow> 4 * unat (capacity a) = 0"
    and apart: "apart (written a) (LENGTH('s) div 8) (total_matches a) (LENGTH('s) div 8)"
    "apart (out_offsets a) (4 * unat (capacity a)) (current a) (unat (snapshot_size a))"
    "apart (out_offsets a) (4 * unat (capacity a)) (written a) (LENGTH('s) div 8)"
    "apart (out_offsets a) (4 * unat (capacity a)) (total_matches a) (LENGTH('s) div 8)"
    using assms by (simp_all add: well_placed_def Let_def)
  show "span (written a) (LENGTH('s) div 8) \<inter> span (total_matches a) (LENGTH('s) div 8) = {}"
    using nonnull by (intro apart_disjoint [OF apart(1)]) auto
  show "span (out_offsets a) (4 * unat (capacity a)) \<inter>
      span (current a) (unat (snapshot_size a)) = {}"
    using nonnull by (intro apart_disjoint [OF apart(2)]) auto
  show "span (out_offsets a) (4 * unat (capacity a)) \<inter>
      span (written a) (LENGTH('s) div 8) = {}"
    using nonnull by (intro apart_disjoint [OF apart(3)]) auto
  show "span (out_offsets a) (4 * unat (capacity a)) \<inter>
      span (total_matches a) (LENGTH('s) div 8) = {}"
    using nonnull by (intro apart_disjoint [OF apart(4)]) auto
qed

lemma emitted_outcome:
  fixes a :: "('s::len, 'x) search_args_scheme"
  assumes target: "supported_target TYPE('s)" and placed: "well_placed a"
    and few: "length hits < 2 ^ LENGTH('s)"
    and run: "emitted (out_offsets a) (capacity a) 0 0 m hits = (w, t, m1)"
  shows "search_outcome a m hits
    (if t > capacity a then VC_STATUS_TRUNCATED else VC_STATUS_OK)
    (store_word (store_word m1 (written a) w) (total_matches a) t)"
proof -
  note bits = supported_targetD [OF target]
  note disjoint = well_placed_disjoint [OF placed]
  let ?stored = "take (unat (capacity a)) hits"
  let ?n = "LENGTH('s) div 8"
  let ?m = "store_word (store_word m1 (written a) w) (total_matches a) t"
  have w: "unat w = length ?stored" and t: "unat t = length hits"
    and m1: "m1 = store_array m (out_offsets a) ?stored"
    using run few by (auto simp: emitted_def unat_of_nat_small)
  have fits: "4 * length ?stored \<le> 2 ^ LENGTH('s)"
    using placed by (auto simp: well_placed_def Let_def)
  have out: "span (out_offsets a) (4 * length ?stored) \<subseteq>
      span (out_offsets a) (4 * unat (capacity a))"
    by (rule span_mono) simp
  have array: "load_array ?m (out_offsets a) (length ?stored) = ?stored"
  proof -
    have "?m x = m1 x" if "x \<in> span (out_offsets a) (4 * length ?stored)" for x
    proof -
      have "x \<notin> span (written a) ?n" and "x \<notin> span (total_matches a) ?n"
        using that out disjoint by blast+
      then show ?thesis
        by (simp add: store_word_outside)
    qed
    then have "load_array ?m (out_offsets a) (length ?stored) =
        load_array m1 (out_offsets a) (length ?stored)"
      by (rule load_array_cong)
    then show ?thesis
      unfolding m1 load_store_array [OF fits] .
  qed
  have counters: "load_word ?m (written a) = w" "load_word ?m (total_matches a) = t"
    using bits disjoint(1) by (simp_all add: load_store_disjoint load_store_same Int_commute)
  have frame: "?m x = m x"
    if "x \<notin> span (out_offsets a) (4 * length ?stored) \<union> span (written a) ?n \<union>
      span (total_matches a) ?n" for x
    using that by (simp add: store_word_outside store_array_outside m1)
  have "t > capacity a \<longleftrightarrow> length hits > unat (capacity a)"
    by (simp add: word_less_nat_alt t)
  with w t array counters frame show ?thesis
    by (simp add: search_outcome_def Let_def del: length_take)
qed

section \<open>The initial search\<close>

lemma supported_width:
  assumes "supported_target TYPE('s::len)" and "(n :: nat) \<le> 4"
  shows "n < 2 ^ LENGTH('s)"
proof -
  have "n < 2 ^ 32"
    using assms(2) by simp
  also have "(2 :: nat) ^ 32 \<le> 2 ^ LENGTH('s)"
    using supported_targetD(1) [OF assms(1)] by (intro power_increasing) auto
  finally show ?thesis .
qed

lemma vc_validate_common_errors:
  "vc_validate_common a = Inl status \<Longrightarrow>
    status \<in> {VC_STATUS_INVALID_ARGUMENT, VC_STATUS_INVALID_QUERY}"
  by (auto simp: vc_validate_common_def Let_def split: if_splits option.splits)

lemma scalar_value_0 [simp]: "scalar_value t 0 = 0"
  by (cases t) simp_all

lemma length_initial_hits:
  assumes "vc_scalar_width (scalar_type q) \<noteq> 0"
  shows "length (initial_hits q bytes) \<le> length bytes"
proof -
  let ?w = "vc_scalar_width (scalar_type q)"
  have "length (initial_hits q bytes) \<le> length (scan_offsets q (length bytes))"
    by (simp add: initial_hits_def)
  also have "\<dots> \<le> length bytes"
  proof (cases "length bytes < ?w")
    case False
    have "(length bytes - ?w) div unat (stride q) \<le> length bytes - ?w"
      by (rule div_le_dividend)
    with False assms have "Suc ((length bytes - ?w) div unat (stride q)) \<le> length bytes"
      by linarith
    with False show ?thesis
      by (simp add: scan_offsets_def scan_from_def Let_def)
  qed (simp add: scan_offsets_def)
  finally show ?thesis .
qed

lemma vc_search_initial_run:
  fixes a :: "('s::len, 'x) search_args_scheme"
  assumes target: "supported_target TYPE('s)" and placed: "well_placed a"
    and query: "well_formed_query (query_value a)"
    and rel: "relation (query_value a) \<in> {VC_RELATION_EQUAL, VC_RELATION_NOT_EQUAL}"
  shows "\<exists>status m'. vc_search_initial a m = Some (status, m') \<and>
    search_outcome a m (map of_nat (initial_hits (query_value a)
      (snapshot m (current a) (unat (snapshot_size a))))) status m'"
proof -
  note bits = supported_targetD [OF target]
  define q where "q = query_value a"
  define width where "width = vc_scalar_width (scalar_type q)"
  define bytes where "bytes = snapshot m (current a) (unat (snapshot_size a))"
  let ?hits = "map of_nat (initial_hits q bytes) :: uint32_t list"
  have len: "length bytes = unat (snapshot_size a)"
    by (simp add: bytes_def)
  have valid: "width \<noteq> 0" "stride q \<noteq> 0" "width \<le> 4"
    using query vc_scalar_width_le_4 by (auto simp: well_formed_query_def width_def q_def)
  obtain output_bytes where accepted: "vc_validate_common a = Inr (q, width, output_bytes)"
    using vc_validate_common_ok [OF target placed query] unfolding q_def width_def by blast
  have unat_width: "unat (of_nat width :: 's word) = width"
    using valid(3) supported_width [OF target] by (simp add: unat_of_nat_small)
  have "length ?hits \<le> unat (snapshot_size a)"
    using length_initial_hits [of q bytes] valid len by (simp add: width_def)
  then have few: "length ?hits < 2 ^ LENGTH('s)"
    by (rule le_less_trans [OF _ unat_below])
  have run: "vc_search_initial a m = Some (
      (if t > capacity a then VC_STATUS_TRUNCATED else VC_STATUS_OK),
      store_word (store_word m1 (written a) w) (total_matches a) t)"
    if "emitted (out_offsets a) (capacity a) 0 0 m ?hits = (w, t, m1)" for w t m1
  proof (cases "snapshot_size a < of_nat width")
    case True
    then have "initial_hits q bytes = []"
      by (simp add: initial_hits_def scan_offsets_def len word_less_nat_alt unat_width flip: width_def)
    with that True accepted rel show ?thesis
      by (auto simp: vc_search_initial_def simp flip: q_def)
  next
    case False
    then have size: "unat (snapshot_size a - of_nat width) + width = unat (snapshot_size a)"
      by (simp add: not_less unat_sub_no_wrap unat_width word_le_nat_alt)
    have "vc_scan_loop a q width (snapshot_size a - of_nat width) 0 0 0 m =
        Some (emitted (out_offsets a) (capacity a) 0 0 m ?hits)"
      using False size
      by (subst vc_scan_loop_emits [OF bits(1) width_def valid(1,2) size
            well_placed_disjoint(2) [OF placed] bytes_def [symmetric]])
        (simp_all add: initial_hits_def scan_offsets_def len word_less_nat_alt unat_width
          unat_sub_no_wrap word_le_nat_alt flip: width_def)
    with that False accepted rel show ?thesis
      by (auto simp: vc_search_initial_def simp flip: q_def)
  qed
  obtain w t m1 where emit: "emitted (out_offsets a) (capacity a) 0 0 m ?hits = (w, t, m1)"
    by (cases "emitted (out_offsets a) (capacity a) 0 0 m ?hits")
  show ?thesis
    using run [OF emit] emitted_outcome [OF target placed few emit]
    by (auto simp: q_def bytes_def)
qed

lemma vc_search_initial_rejects:
  fixes a :: "('s::len, 'x) search_args_scheme"
  assumes target: "supported_target TYPE('s)"
    and bad: "\<not> (well_placed a \<and> well_formed_query (query_value a) \<and>
      relation (query_value a) \<in> {VC_RELATION_EQUAL, VC_RELATION_NOT_EQUAL})"
  shows "\<exists>status. status \<in> {VC_STATUS_INVALID_ARGUMENT, VC_STATUS_INVALID_QUERY} \<and>
    vc_search_initial a m = Some (status, m)"
proof (cases "vc_validate_common a")
  case (Inl status)
  then show ?thesis
    using vc_validate_common_errors [OF Inl] by (auto simp: vc_search_initial_def)
next
  case (Inr accepted)
  then obtain q width output_bytes
    where accepted: "vc_validate_common a = Inr (q, width, output_bytes)"
    by (cases accepted) auto
  then have "relation q \<notin> {VC_RELATION_EQUAL, VC_RELATION_NOT_EQUAL}"
    using bad by (auto simp: vc_validate_common_accepts [OF target])
  with accepted show ?thesis
    by (simp add: vc_search_initial_def)
qed

section \<open>The candidate check\<close>

definition valid_candidates :: "uint32_t list \<Rightarrow> nat \<Rightarrow> nat \<Rightarrow> bool" where
  "valid_candidates cs n width \<longleftrightarrow>
     sorted_wrt (<) cs \<and> (\<forall>c \<in> set cs. unat c + width \<le> n)"

lemma offset_in_bounds_iff:
  fixes n :: "'s::len word" and c :: uint32_t
  assumes target: "supported_target TYPE('s)" and "width \<le> 4"
  shows "ucast c > n \<or> of_nat width > n - ucast c \<longleftrightarrow> \<not> unat c + width \<le> unat n"
proof -
  have "unat (ucast c :: 's word) = unat c"
    using supported_targetD(1) [OF target] by (simp add: unat_ucast_widen)
  moreover have "unat (of_nat width :: 's word) = width"
    using supported_width [OF target \<open>width \<le> 4\<close>] by (rule unat_of_nat_small)
  ultimately show ?thesis
    by (cases "ucast c \<le> n") (auto simp: word_less_nat_alt word_le_nat_alt unat_sub_no_wrap not_less)
qed

lemma vc_validate_candidates_loop_status:
  fixes size count index :: "'s::len word"
  assumes target: "supported_target TYPE('s)" and width: "width \<le> 4"
    and cs: "cs = load_array m cands (unat count)"
  shows "vc_validate_candidates_loop m cands count size width index =
    (if \<forall>j. unat index \<le> j \<and> j < unat count \<longrightarrow>
          (j \<noteq> 0 \<longrightarrow> cs ! (j - 1) < cs ! j) \<and> unat (cs ! j) + width \<le> unat size
     then VC_STATUS_OK else VC_STATUS_INVALID_CANDIDATES)"
proof (induction "unat count - unat index" arbitrary: index rule: less_induct)
  case less
  let ?ok = "\<lambda>j. (j \<noteq> 0 \<longrightarrow> cs ! (j - 1) < cs ! j) \<and> unat (cs ! j) + width \<le> unat size"
  show ?case
  proof (cases "index < count")
    case False
    then show ?thesis
      by (subst vc_validate_candidates_loop.simps) (simp add: word_less_nat_alt)
  next
    case True
    then have i: "unat index < unat count" "unat (index + 1) = Suc (unat index)"
      by (simp_all add: word_less_nat_alt unat_succ_below)
    have this_one: "(load_word m (cands + 4 * index) :: uint32_t) = cs ! unat index"
      using i by (simp add: cs)
    have before: "(load_word m (cands + 4 * (index - 1)) :: uint32_t) = cs ! (unat index - 1)"
      if "index \<noteq> 0"
    proof -
      have "unat (index - 1) = unat index - 1"
        using that by (simp add: unat_sub_no_wrap word_le_nat_alt unat_gt_0 Suc_le_eq)
      then have "index - 1 = of_nat (unat index - 1)"
        by (metis of_nat_unat ucast_id)
      with i show ?thesis
        by (simp add: cs)
    qed
    have range: "(\<forall>j. unat index \<le> j \<and> j < unat count \<longrightarrow> ?ok j) \<longleftrightarrow>
        ?ok (unat index) \<and> (\<forall>j. Suc (unat index) \<le> j \<and> j < unat count \<longrightarrow> ?ok j)"
      using i(1) by (rule all_from_step)
    have step: "vc_validate_candidates_loop m cands count size width index =
      (if ?ok (unat index) then vc_validate_candidates_loop m cands count size width (index + 1)
       else VC_STATUS_INVALID_CANDIDATES)"
      using True before offset_in_bounds_iff [OF target width, of size "cs ! unat index"]
      by (subst vc_validate_candidates_loop.simps)
        (auto simp: Let_def this_one unat_eq_0 not_le)
    have "vc_validate_candidates_loop m cands count size width (index + 1) =
      (if \<forall>j. Suc (unat index) \<le> j \<and> j < unat count \<longrightarrow> ?ok j
       then VC_STATUS_OK else VC_STATUS_INVALID_CANDIDATES)"
      using less.hyps [of "index + 1"] i by simp
    then show ?thesis
      unfolding step range by auto
  qed
qed

lemma vc_validate_candidates_status:
  fixes size count :: "'s::len word"
  assumes target: "supported_target TYPE('s)" and width: "width \<le> 4"
  shows "vc_validate_candidates m cands count size width =
    (if cands = 0 \<and> count \<noteq> 0 then VC_STATUS_INVALID_ARGUMENT
     else if valid_candidates (load_array m cands (unat count)) (unat size) width then VC_STATUS_OK
     else VC_STATUS_INVALID_CANDIDATES)"
proof -
  let ?cs = "load_array m cands (unat count)"
  have "valid_candidates ?cs (unat size) width \<longleftrightarrow>
      (\<forall>j < unat count. (j \<noteq> 0 \<longrightarrow> ?cs ! (j - 1) < ?cs ! j) \<and> unat (?cs ! j) + width \<le> unat size)"
  proof -
    have "sorted_wrt (<) ?cs \<longleftrightarrow> (\<forall>j < unat count. j \<noteq> 0 \<longrightarrow> ?cs ! (j - 1) < ?cs ! j)"
    proof -
      have "sorted_wrt (<) ?cs \<longleftrightarrow> (\<forall>i. Suc i < unat count \<longrightarrow> ?cs ! i < ?cs ! Suc i)"
        by (simp add: sorted_wrt_iff_nth_Suc_transp del: nth_load_array)
      also have "\<dots> \<longleftrightarrow> (\<forall>j < unat count. j \<noteq> 0 \<longrightarrow> ?cs ! (j - 1) < ?cs ! j)"
        by (metis diff_Suc_1 nat.discI not0_implies_Suc)
      finally show ?thesis .
    qed
    moreover have "(\<forall>c \<in> set ?cs. unat c + width \<le> unat size) \<longleftrightarrow>
        (\<forall>j < unat count. unat (?cs ! j) + width \<le> unat size)"
      by (simp add: all_set_conv_all_nth)
    ultimately show ?thesis
      unfolding valid_candidates_def by blast
  qed
  then show ?thesis
    by (auto simp: vc_validate_candidates_def vc_validate_candidates_loop_status [OF target width refl]
        simp del: nth_load_array)
qed

section \<open>The refinement\<close>

definition refine_placed :: "('s::len, 'x) refine_args_scheme \<Rightarrow> bool" where
  "refine_placed a \<longleftrightarrow>
     (let out = 4 * unat (capacity a); cand = 4 * unat (candidate_count a);
          size = unat (snapshot_size a); counter = LENGTH('s) div 8 in
      well_placed a \<and> (previous a = 0 \<longrightarrow> size = 0) \<and> (candidates a = 0 \<longrightarrow> cand = 0) \<and>
      cand < 2 ^ LENGTH('s) \<and>
      apart (previous a) size (out_offsets a) out \<and>
      apart (written a) counter (previous a) size \<and>
      apart (total_matches a) counter (previous a) size \<and>
      apart (written a) counter (candidates a) cand \<and>
      apart (total_matches a) counter (candidates a) cand \<and>
      (out_offsets a = candidates a \<or> apart (candidates a) cand (out_offsets a) out))"

definition refine_candidates :: "('s::len, 'x) refine_args_scheme \<Rightarrow> 's memory \<Rightarrow> uint32_t list" where
  "refine_candidates a m = load_array m (candidates a) (unat (candidate_count a))"

definition refine_accepted :: "('s::len, 'x) refine_args_scheme \<Rightarrow> 's memory \<Rightarrow> bool" where
  "refine_accepted a m \<longleftrightarrow>
     refine_placed a \<and> well_formed_query (query_value a) \<and>
     valid_candidates (refine_candidates a m) (unat (snapshot_size a))
       (vc_scalar_width (scalar_type (query_value a)))"

lemma refine_placed_disjoint:
  fixes a :: "('s::len, 'x) refine_args_scheme"
  assumes "refine_placed a"
  shows "span (out_offsets a) (4 * unat (capacity a)) \<inter>
      span (previous a) (unat (snapshot_size a)) = {}"
    and "out_offsets a = candidates a \<or>
      span (out_offsets a) (4 * unat (capacity a)) \<inter>
      span (candidates a) (4 * unat (candidate_count a)) = {}"
proof -
  have null: "previous a = 0 \<Longrightarrow> unat (snapshot_size a) = 0"
    "out_offsets a = 0 \<Longrightarrow> 4 * unat (capacity a) = 0"
    "candidates a = 0 \<Longrightarrow> 4 * unat (candidate_count a) = 0"
    and apart: "apart (previous a) (unat (snapshot_size a)) (out_offsets a) (4 * unat (capacity a))"
    "out_offsets a = candidates a \<or>
      apart (candidates a) (4 * unat (candidate_count a)) (out_offsets a) (4 * unat (capacity a))"
    using assms by (simp_all add: refine_placed_def well_placed_def Let_def)
  show "span (out_offsets a) (4 * unat (capacity a)) \<inter>
      span (previous a) (unat (snapshot_size a)) = {}"
    using apart_disjoint [OF apart(1)] null by blast
  show "out_offsets a = candidates a \<or>
      span (out_offsets a) (4 * unat (capacity a)) \<inter>
      span (candidates a) (4 * unat (candidate_count a)) = {}"
    using apart(2) apart_disjoint [of "candidates a" "4 * unat (candidate_count a)"] null by blast
qed

text \<open>The guards of \<^verbatim>\<open>vc_search_refine\<close> pass exactly for the accepted calls.\<close>

definition refine_clash :: "('s::len, 'x) refine_args_scheme \<Rightarrow> 's word \<Rightarrow> 's word \<Rightarrow> bool" where
  "refine_clash a output_bytes candidate_bytes \<longleftrightarrow>
     vc_ranges_overlap (previous a) (snapshot_size a) (out_offsets a) output_bytes \<or>
     vc_ranges_overlap (written a) sizeof_size (previous a) (snapshot_size a) \<or>
     vc_ranges_overlap (total_matches a) sizeof_size (previous a) (snapshot_size a) \<or>
     vc_ranges_overlap (written a) sizeof_size (candidates a) candidate_bytes \<or>
     vc_ranges_overlap (total_matches a) sizeof_size (candidates a) candidate_bytes \<or>
     (out_offsets a \<noteq> candidates a \<and>
      vc_ranges_overlap (candidates a) candidate_bytes (out_offsets a) output_bytes)"

lemma vc_multiply_size_4:
  assumes "supported_target TYPE('s::len)"
  shows "vc_multiply_size (n :: 's word) 4 = Some c \<longleftrightarrow> unat c = 4 * unat n"
    and "vc_multiply_size (n :: 's word) 4 = None \<longleftrightarrow> 2 ^ LENGTH('s) \<le> 4 * unat n"
  unfolding search_guard.mult_iff search_guard.mult_None_iff supported_targetD(4) [OF assms]
  by (simp_all add: mult.commute)

lemma refine_accepted_checks:
  fixes a :: "('s::len, 'x) refine_args_scheme"
  assumes target: "supported_target TYPE('s)"
    and common: "well_placed a" "well_formed_query (query_value a)"
    and bytes: "unat output_bytes = 4 * unat (capacity a)"
      "unat candidate_bytes = 4 * unat (candidate_count a)"
  shows "refine_accepted a m \<longleftrightarrow>
    \<not> (previous a = 0 \<and> snapshot_size a \<noteq> 0) \<and>
    vc_validate_candidates m (candidates a) (candidate_count a) (snapshot_size a)
      (vc_scalar_width (scalar_type (query_value a))) = VC_STATUS_OK \<and>
    \<not> refine_clash a output_bytes candidate_bytes"
proof -
  have "4 * unat (candidate_count a) < 2 ^ LENGTH('s)"
    by (metis bytes(2) unat_below)
  moreover have "vc_validate_candidates m (candidates a) (candidate_count a) (snapshot_size a)
      (vc_scalar_width (scalar_type (query_value a))) =
    (if candidates a = 0 \<and> candidate_count a \<noteq> 0 then VC_STATUS_INVALID_ARGUMENT
     else if valid_candidates (refine_candidates a m) (unat (snapshot_size a))
       (vc_scalar_width (scalar_type (query_value a))) then VC_STATUS_OK
     else VC_STATUS_INVALID_CANDIDATES)"
    using vc_validate_candidates_status [OF target vc_scalar_width_le_4]
    by (simp add: refine_candidates_def)
  ultimately show ?thesis
    using common bytes supported_targetD(5) [OF target]
    by (simp add: refine_accepted_def refine_placed_def refine_clash_def Let_def
        not_overlap_iff_apart unat_eq_0)
qed

lemma vc_search_refine_guards:
  fixes a :: "('s::len, 'x) refine_args_scheme"
  assumes target: "supported_target TYPE('s)"
  shows "refine_accepted a m \<Longrightarrow> vc_search_refine a m =
      (let (w, t, m') = vc_refine_loop a (query_value a)
             (vc_scalar_width (scalar_type (query_value a))) 0 0 0 m
       in (if t > capacity a then VC_STATUS_TRUNCATED else VC_STATUS_OK,
           store_word (store_word m' (written a) w) (total_matches a) t))" (is "_ \<Longrightarrow> ?run")
    and "\<not> refine_accepted a m \<Longrightarrow>
      \<exists>status. status \<notin> {VC_STATUS_OK, VC_STATUS_TRUNCATED} \<and> vc_search_refine a m = (status, m)"
      (is "_ \<Longrightarrow> ?rejected")
proof -
  let ?width = "vc_scalar_width (scalar_type (query_value a))"
  let ?check = "vc_validate_candidates m (candidates a) (candidate_count a) (snapshot_size a) ?width"
  have check: "?check \<noteq> VC_STATUS_TRUNCATED"
    by (simp add: vc_validate_candidates_status [OF target vc_scalar_width_le_4])
  have "(refine_accepted a m \<longrightarrow> ?run) \<and> (\<not> refine_accepted a m \<longrightarrow> ?rejected)"
  proof (cases "vc_validate_common a")
    case (Inl status)
    then have "\<not> refine_accepted a m"
      using vc_validate_common_ok [OF target, of a]
      by (auto simp: refine_accepted_def refine_placed_def Let_def)
    with Inl vc_validate_common_errors [OF Inl] show ?thesis
      by (auto simp: vc_search_refine_def)
  next
    case (Inr accepted)
    then obtain output_bytes
      where accepted: "vc_validate_common a = Inr (query_value a, ?width, output_bytes)"
        and common: "well_placed a" "well_formed_query (query_value a)"
        and bytes: "unat output_bytes = 4 * unat (capacity a)"
      by (cases accepted) (auto simp: vc_validate_common_accepts [OF target])
    show ?thesis
    proof (cases "vc_multiply_size (candidate_count a) 4")
      case None
      then have "\<not> refine_accepted a m"
        by (simp add: refine_accepted_def refine_placed_def Let_def vc_multiply_size_4 [OF target])
      with None check show ?thesis
        by (auto simp: vc_search_refine_def accepted Let_def)
    next
      case (Some candidate_bytes)
      then have accept: "refine_accepted a m \<longleftrightarrow>
          \<not> (previous a = 0 \<and> snapshot_size a \<noteq> 0) \<and> ?check = VC_STATUS_OK \<and>
          \<not> refine_clash a output_bytes candidate_bytes"
        using refine_accepted_checks [OF target common bytes] by (simp add: vc_multiply_size_4 [OF target])
      have "vc_search_refine a m =
        (if previous a = 0 \<and> snapshot_size a \<noteq> 0 then (VC_STATUS_INVALID_ARGUMENT, m)
         else if ?check \<noteq> VC_STATUS_OK then (?check, m)
         else if refine_clash a output_bytes candidate_bytes then (VC_STATUS_INVALID_ARGUMENT, m)
         else (let (w, t, m') = vc_refine_loop a (query_value a) ?width 0 0 0 m
               in (if t > capacity a then VC_STATUS_TRUNCATED else VC_STATUS_OK,
                   store_word (store_word m' (written a) w) (total_matches a) t)))"
        by (simp add: vc_search_refine_def accepted Some refine_clash_def Let_def)
      with check show ?thesis
        unfolding accept by auto
    qed
  qed
  then show "refine_accepted a m \<Longrightarrow> ?run" and "\<not> refine_accepted a m \<Longrightarrow> ?rejected"
    by blast+
qed

lemma vc_search_refine_run:
  fixes a :: "('s::len, 'x) refine_args_scheme"
  assumes target: "supported_target TYPE('s)" and accepted: "refine_accepted a m"
  shows "\<exists>status m'. vc_search_refine a m = (status, m') \<and>
    search_outcome a m (refine_hits (query_value a)
      (snapshot m (previous a) (unat (snapshot_size a)))
      (snapshot m (current a) (unat (snapshot_size a))) (refine_candidates a m)) status m'"
proof -
  note bits = supported_targetD [OF target]
  let ?q = "query_value a" and ?cs = "refine_candidates a m"
  let ?width = "vc_scalar_width (scalar_type ?q)"
  let ?old = "snapshot m (previous a) (unat (snapshot_size a))"
  let ?new = "snapshot m (current a) (unat (snapshot_size a))"
  let ?hits = "refine_hits ?q ?old ?new ?cs"
  have placed: "refine_placed a" "well_placed a" and width: "?width \<noteq> 0"
    and bounds: "\<And>c. c \<in> set ?cs \<Longrightarrow> unat c + ?width \<le> unat (snapshot_size a)"
    and slots: "4 * unat (candidate_count a) \<le> 2 ^ LENGTH('s)"
    using accepted
    by (auto simp: refine_accepted_def refine_placed_def well_formed_query_def valid_candidates_def
        Let_def)
  have length: "length ?cs = unat (candidate_count a)"
    by (simp add: refine_candidates_def)
  have loop: "vc_refine_loop a ?q ?width 0 0 0 m =
      emitted (out_offsets a) (capacity a) 0 0 m ?hits"
    using vc_refine_loop_emits [OF bits(1) refl width slots bounds length
        well_placed_disjoint(2) [OF placed(2)] refine_placed_disjoint [OF placed(1)],
        where m = m and index = 0 and w = 0 and t = 0]
    by (simp add: refine_candidates_def)
  have "length ?hits \<le> unat (candidate_count a)"
    using length_filter_le [of _ ?cs] length by (simp add: refine_hits_def)
  then have few: "length ?hits < 2 ^ LENGTH('s)"
    by (rule le_less_trans [OF _ unat_below])
  obtain w t m1 where emit: "emitted (out_offsets a) (capacity a) 0 0 m ?hits = (w, t, m1)"
    by (cases "emitted (out_offsets a) (capacity a) 0 0 m ?hits")
  show ?thesis
    using emitted_outcome [OF target placed(2) few emit]
    by (simp add: vc_search_refine_guards(1) [OF target accepted] loop emit)
qed

end
