(* ===== verification/VC_Search_Props.thy ===== *)
theory VC_Search_Props
  imports VC_Search_Correct
begin

unbundle bit_operations_syntax

text \<open>
  The properties of \<^verbatim>\<open>vc_search_initial\<close> and \<^verbatim>\<open>vc_search_refine\<close>, stated over the calls and
  the memories before and after them, and the properties of the helpers they rest on. The witnesses run a
  32-bit target on a small memory.
\<close>

section \<open>Whole calls\<close>

definition initial_accepted :: "('s::len, 'x) search_args_scheme \<Rightarrow> bool" where
  "initial_accepted a \<longleftrightarrow>
     well_placed a \<and> well_formed_query (query_value a) \<and>
     relation (query_value a) \<in> {VC_RELATION_EQUAL, VC_RELATION_NOT_EQUAL}"

text \<open>The offsets a finished search stored, as \<^verbatim>\<open>*written\<close> counts them.\<close>

definition stored_offsets :: "('s::len, 'x) search_args_scheme \<Rightarrow> 's memory \<Rightarrow> uint32_t list" where
  "stored_offsets a m = load_array m (out_offsets a) (unat (load_word m (written a) :: 's word))"

definition counted_matches :: "('s::len, 'x) search_args_scheme \<Rightarrow> 's memory \<Rightarrow> nat" where
  "counted_matches a m = unat (load_word m (total_matches a) :: 's word)"

abbreviation "width_of a \<equiv> vc_scalar_width (scalar_type (query_value a))"

lemma search_outcome_stored:
  assumes "search_outcome a m hits status m'"
  shows "stored_offsets a m' = take (unat (capacity a)) hits" and "counted_matches a m' = length hits"
    and "status = (if length hits > unat (capacity a) then VC_STATUS_TRUNCATED else VC_STATUS_OK)"
  using assms
  by (simp_all add: search_outcome_def Let_def stored_offsets_def counted_matches_def del: length_take)

lemma vc_search_initial_error:
  fixes a :: "('s::len, 'x) search_args_scheme"
  assumes "supported_target TYPE('s)" and "\<not> initial_accepted a"
  shows "\<exists>status. status \<in> {VC_STATUS_INVALID_ARGUMENT, VC_STATUS_INVALID_QUERY} \<and>
    vc_search_initial a m = Some (status, m)"
  using vc_search_initial_rejects [OF assms(1)] assms(2) by (auto simp: initial_accepted_def)

lemma sorted_scan_offsets:
  assumes "stride q \<noteq> 0"
  shows "sorted_wrt (<) (scan_offsets q n)"
proof -
  have "0 < unat (stride q)"
    using assms by (simp add: unat_gt_0)
  then show ?thesis
    by (auto simp: scan_offsets_def scan_from_def Let_def sorted_wrt_iff_nth_less nth_append
        simp del: upt_Suc)
qed

lemma set_scan_offsets:
  assumes "well_formed_query q"
  shows "i \<in> set (scan_offsets q n) \<longleftrightarrow>
    i + vc_scalar_width (scalar_type q) \<le> n \<and> unat (stride q) dvd i"
proof -
  have "0 < unat (stride q)"
    using assms by (simp add: well_formed_query_def unat_gt_0)
  then show ?thesis
    by (auto simp: scan_offsets_def Let_def set_scan_from)
qed

lemma set_initial_hits:
  assumes "well_formed_query q"
  shows "i \<in> set (initial_hits q (snapshot m p n)) \<longleftrightarrow>
    i + vc_scalar_width (scalar_type q) \<le> n \<and> unat (stride q) dvd i \<and>
    vc_matches (scalar_type q) (relation q) 0
      (vc_read_little_endian m (p + of_nat i) (vc_scalar_width (scalar_type q))) (value_bits q)
      (vc_scalar_width (scalar_type q))"
  using assms by (auto simp: initial_hits_def set_scan_offsets matches_snapshot well_formed_query_def)

lemma sorted_initial_hits: "well_formed_query q \<Longrightarrow> sorted_wrt (<) (initial_hits q bytes)"
  by (simp add: initial_hits_def sorted_wrt_filter sorted_scan_offsets well_formed_query_def)

text \<open>Offsets fit in 32 bits, because validation refuses snapshots over 4 GiB.\<close>

lemma initial_hits_unat:
  fixes a :: "('s::len, 'x) search_args_scheme" and m :: "'s memory"
  assumes "well_placed a" and "well_formed_query (query_value a)"
  defines "hits \<equiv> initial_hits (query_value a) (snapshot m (current a) (unat (snapshot_size a)))"
  shows "map unat (map of_nat hits :: uint32_t list) = hits"
proof -
  have "unat (of_nat i :: uint32_t) = i" if "i \<in> set hits" for i
  proof -
    have "i + width_of a \<le> unat (snapshot_size a)" and "width_of a \<noteq> 0"
      using that assms by (auto simp: set_initial_hits well_formed_query_def)
    moreover have "unat (snapshot_size a) \<le> 2 ^ 32"
      using assms(1) by (simp add: well_placed_def Let_def)
    ultimately show ?thesis
      by (intro unat_of_nat_small) simp
  qed
  then show ?thesis
    by (simp add: map_idI)
qed

lemma vc_search_initial_found:
  fixes a :: "('s::len, 'x) search_args_scheme" and m :: "'s memory"
  assumes target: "supported_target TYPE('s)" and accepted: "initial_accepted a"
    and run: "vc_search_initial a m = Some (status, m')"
  defines "hits \<equiv> initial_hits (query_value a) (snapshot m (current a) (unat (snapshot_size a)))"
  shows "search_outcome a m (map of_nat hits) status m'"
    and "map unat (stored_offsets a m') = take (unat (capacity a)) hits"
    and "counted_matches a m' = length hits"
proof -
  have parts: "well_placed a" "well_formed_query (query_value a)"
    "relation (query_value a) \<in> {VC_RELATION_EQUAL, VC_RELATION_NOT_EQUAL}"
    using accepted by (simp_all add: initial_accepted_def)
  show outcome: "search_outcome a m (map of_nat hits) status m'"
    using vc_search_initial_run [OF target parts, of m] run by (simp add: hits_def)
  show "map unat (stored_offsets a m') = take (unat (capacity a)) hits"
    using search_outcome_stored(1) [OF outcome] initial_hits_unat [OF parts(1,2), of m]
    by (simp add: take_map [symmetric] hits_def)
  show "counted_matches a m' = length hits"
    using search_outcome_stored(2) [OF outcome] by simp
qed

lemma sorted_wrt_map_unat: "sorted_wrt (<) (map unat ws) \<longleftrightarrow> sorted_wrt (<) ws"
  by (simp add: sorted_wrt_map sorted_wrt_iff_nth_less word_less_nat_alt)

lemma initial_stored_valid:
  fixes a :: "('s::len, 'x) search_args_scheme"
  assumes target: "supported_target TYPE('s)" and accepted: "initial_accepted a"
    and run: "vc_search_initial a m = Some (status, m')"
  shows "valid_candidates (stored_offsets a m') (unat (snapshot_size a)) (width_of a)"
proof -
  let ?hits = "initial_hits (query_value a) (snapshot m (current a) (unat (snapshot_size a)))"
  have query: "well_formed_query (query_value a)"
    using accepted by (simp add: initial_accepted_def)
  have stored: "map unat (stored_offsets a m') = take (unat (capacity a)) ?hits"
    using vc_search_initial_found(2) [OF assms] .
  have "sorted_wrt (<) (map unat (stored_offsets a m'))"
    unfolding stored using sorted_initial_hits [OF query] by (rule sorted_wrt_take)
  moreover have "\<forall>i \<in> set (map unat (stored_offsets a m')). i + width_of a \<le> unat (snapshot_size a)"
    unfolding stored using query by (auto simp: set_initial_hits dest: in_set_takeD)
  ultimately show ?thesis
    by (simp add: valid_candidates_def sorted_wrt_map_unat)
qed

lemma valid_candidates_filter:
  "valid_candidates cs n w \<Longrightarrow> valid_candidates (take k (filter P cs)) n w"
  by (auto simp: valid_candidates_def sorted_wrt_filter sorted_wrt_take dest: in_set_takeD)

section \<open>Properties\<close>

text \<open>C12. An initial search always returns, and its answer is decided by its arguments alone: an accepted call
  leaves in memory what \<open>search_outcome\<close> says (the first matches that fit, both counters, the truncation
  status, every other byte unchanged); any other call returns an argument or query error and writes
  nothing.\<close>

theorem search_initial_total:
  fixes a :: "('s::len, 'x) search_args_scheme"
  assumes "supported_target TYPE('s)"
  shows "\<exists>status m'. vc_search_initial a m = Some (status, m') \<and>
    (if initial_accepted a
     then search_outcome a m (map of_nat (initial_hits (query_value a)
            (snapshot m (current a) (unat (snapshot_size a))))) status m'
     else status \<in> {VC_STATUS_INVALID_ARGUMENT, VC_STATUS_INVALID_QUERY} \<and> m' = m)"
proof (cases "initial_accepted a")
  case True
  then show ?thesis
    using vc_search_initial_run [OF assms, of a m] by (simp add: initial_accepted_def)
next
  case False
  then show ?thesis
    using vc_search_initial_error [OF assms False, of m] by auto
qed

text \<open>C2. A search that succeeds finds exactly the matches: there is one strictly ascending list of offsets, those
  and only those that are a multiple of the stride, whose scalar lies inside the snapshot and for which
  \<^verbatim>\<open>vc_matches\<close> accepts the scalar read there; the output array holds its first \<^verbatim>\<open>capacity\<close> entries,
  \<^verbatim>\<open>*total_matches\<close> its length, and the status tells whether all of it was stored.\<close>

theorem search_initial_finds_exactly:
  fixes a :: "('s::len, 'x) search_args_scheme"
  assumes target: "supported_target TYPE('s)"
    and run: "vc_search_initial a m = Some (status, m')"
    and success: "status = VC_STATUS_OK \<or> status = VC_STATUS_TRUNCATED"
  shows "\<exists>offsets. sorted_wrt (<) offsets \<and>
    set offsets = {i. i + width_of a \<le> unat (snapshot_size a) \<and> unat (stride (query_value a)) dvd i \<and>
      vc_matches (scalar_type (query_value a)) (relation (query_value a)) 0
        (vc_read_little_endian m (current a + of_nat i) (width_of a)) (value_bits (query_value a))
        (width_of a)} \<and>
    map unat (stored_offsets a m') = take (unat (capacity a)) offsets \<and>
    counted_matches a m' = length offsets \<and>
    (status = VC_STATUS_TRUNCATED \<longleftrightarrow> unat (capacity a) < length offsets)"
proof -
  let ?hits = "initial_hits (query_value a) (snapshot m (current a) (unat (snapshot_size a)))"
  have accepted: "initial_accepted a"
    using vc_search_initial_error [OF target, of a m] run success by auto
  then have query: "well_formed_query (query_value a)"
    by (simp add: initial_accepted_def)
  note found = vc_search_initial_found [OF target accepted run]
  have "status = VC_STATUS_TRUNCATED \<longleftrightarrow> unat (capacity a) < length ?hits"
    using search_outcome_stored(3) [OF found(1)] by simp
  then show ?thesis
    using sorted_initial_hits [OF query] set_initial_hits [OF query, of _ m] found(2,3)
    by (intro exI [of _ ?hits]) auto
qed

text \<open>C4. A refinement never touches memory unless its arguments and its whole candidate list are valid: an accepted
  call keeps, in order, exactly the candidates whose old and new scalars satisfy the relation, also when
  the output array is the candidate array; any other call fails and writes nothing.\<close>

theorem search_refine_total:
  fixes a :: "('s::len, 'x) refine_args_scheme"
  assumes "supported_target TYPE('s)"
  shows "\<exists>status m'. vc_search_refine a m = (status, m') \<and>
    (if refine_accepted a m
     then search_outcome a m (refine_hits (query_value a)
            (snapshot m (previous a) (unat (snapshot_size a)))
            (snapshot m (current a) (unat (snapshot_size a))) (refine_candidates a m)) status m'
     else status \<notin> {VC_STATUS_OK, VC_STATUS_TRUNCATED} \<and> m' = m)"
proof (cases "refine_accepted a m")
  case True
  then show ?thesis
    using vc_search_refine_run [OF assms True] by simp
next
  case False
  then show ?thesis
    using vc_search_refine_guards(2) [OF assms False] by auto
qed

text \<open>Searches compose: the offsets a successful initial search stored, and those a successful refinement
  stored, are strictly increasing and in bounds, so they pass the candidate check of a further
  refinement of snapshots of that size with that scalar type.\<close>

theorem search_initial_feeds_refine:
  fixes a :: "('s::len, 'x) search_args_scheme" and cands :: "'s word"
  assumes target: "supported_target TYPE('s)"
    and run: "vc_search_initial a m = Some (status, m')"
    and success: "status = VC_STATUS_OK \<or> status = VC_STATUS_TRUNCATED"
    and copy: "cands \<noteq> 0" "load_array m2 cands (unat count) = stored_offsets a m'"
  shows "vc_validate_candidates m2 cands count (snapshot_size a) (width_of a) = VC_STATUS_OK"
proof -
  have "initial_accepted a"
    using vc_search_initial_error [OF target, of a m] run success by auto
  from initial_stored_valid [OF target this run] copy show ?thesis
    by (simp add: vc_validate_candidates_status [OF target vc_scalar_width_le_4])
qed

text \<open>C37. The candidate list of a refinement may be refined again: what a successful refinement stored passes the
  candidate check, and it is a sublist of the candidates it was given.\<close>

theorem search_refine_feeds_refine:
  fixes a :: "('s::len, 'x) refine_args_scheme" and cands :: "'s word"
  assumes target: "supported_target TYPE('s)"
    and run: "vc_search_refine a m = (status, m')"
    and success: "status = VC_STATUS_OK \<or> status = VC_STATUS_TRUNCATED"
    and copy: "cands \<noteq> 0" "load_array m2 cands (unat count) = stored_offsets a m'"
  shows "vc_validate_candidates m2 cands count (snapshot_size a) (width_of a) = VC_STATUS_OK \<and>
    set (stored_offsets a m') \<subseteq> set (refine_candidates a m) \<and>
    length (stored_offsets a m') \<le> unat (candidate_count a)"
proof -
  have accepted: "refine_accepted a m"
    using vc_search_refine_guards(2) [OF target, of a m] run success by auto
  obtain P where stored: "stored_offsets a m' = take (unat (capacity a)) (filter P (refine_candidates a m))"
    using vc_search_refine_run [OF target accepted] run search_outcome_stored(1)
    by (fastforce simp: refine_hits_def)
  have "valid_candidates (stored_offsets a m') (unat (snapshot_size a)) (width_of a)"
    unfolding stored using accepted by (intro valid_candidates_filter) (simp add: refine_accepted_def)
  moreover have "length (stored_offsets a m') \<le> unat (candidate_count a)"
    using length_filter_le [of P "refine_candidates a m"] stored by (simp add: refine_candidates_def)
  ultimately show ?thesis
    using copy stored
    by (auto simp: vc_validate_candidates_status [OF target vc_scalar_width_le_4] dest: in_set_takeD)
qed

text \<open>C36. Refining in place is the same as refining into a separate array: the status, the stored offsets and
  both counters are equal.\<close>

theorem search_refine_in_place:
  fixes a :: "('s::len, 'x) refine_args_scheme"
  assumes target: "supported_target TYPE('s)"
    and "refine_accepted a m" and "refine_accepted (a\<lparr>out_offsets := candidates a\<rparr>) m"
    and apart: "vc_search_refine a m = (status, m')"
    and in_place: "vc_search_refine (a\<lparr>out_offsets := candidates a\<rparr>) m = (status2, m2)"
  shows "status2 = status \<and>
    stored_offsets (a\<lparr>out_offsets := candidates a\<rparr>) m2 = stored_offsets a m' \<and>
    counted_matches a m2 = counted_matches a m'"
proof -
  let ?hits = "refine_hits (query_value a) (snapshot m (previous a) (unat (snapshot_size a)))
      (snapshot m (current a) (unat (snapshot_size a))) (refine_candidates a m)"
  have outcome: "search_outcome a m ?hits status m'"
    using vc_search_refine_run [OF target assms(2)] apart by simp
  moreover have "search_outcome (a\<lparr>out_offsets := candidates a\<rparr>) m ?hits status2 m2"
    using vc_search_refine_run [OF target assms(3)] in_place by (simp add: refine_candidates_def)
  ultimately show ?thesis
    using search_outcome_stored [of a m ?hits status m']
      search_outcome_stored [of "a\<lparr>out_offsets := candidates a\<rparr>" m ?hits status2 m2]
    by (simp add: counted_matches_def)
qed

text \<open>C40. \<^verbatim>\<open>vc_ranges_overlap\<close> is exact: for non-null, non-empty ranges it says no only when neither range reaches
  the end of the address space and they share no byte, and says yes in every other case; null and
  empty ranges overlap nothing.\<close>

theorem search_ranges_overlap_exact:
  fixes l r :: "'s::len word"
  shows "vc_ranges_overlap l ls r rs \<longleftrightarrow>
    l \<noteq> 0 \<and> r \<noteq> 0 \<and> ls \<noteq> 0 \<and> rs \<noteq> 0 \<and>
    \<not> (unat l + unat ls < 2 ^ LENGTH('s) \<and> unat r + unat rs < 2 ^ LENGTH('s) \<and>
       span l (unat ls) \<inter> span r (unat rs) = {})"
  using search_guard.overlap_iff [of l ls r rs] by (auto simp: not_less)

section \<open>Concrete searches\<close>

text \<open>
  A 32-bit memory with, from address \<open>0x1000\<close> on, an old snapshot of eight bytes, a new one and a
  candidate list \<open>0, 4\<close>.
\<close>

definition bytes_at :: "32 word \<Rightarrow> uint8_t list \<Rightarrow> 32 memory" where
  "bytes_at base bs = (\<lambda>x. if unat (x - base) < length bs then bs ! unat (x - base) else 0)"

definition sample_bytes :: "uint8_t list" where
  "sample_bytes =
     [1, 0, 2, 0, 1, 0, 9, 9] @ [7, 0, 2, 0, 1, 0, 9, 9] @ [0, 0, 0, 0, 4, 0, 0, 0]"

abbreviation "sample_memory \<equiv> bytes_at 0x1000 sample_bytes"

lemma snapshot_bytes_at:
  assumes "k + n \<le> length bs" and "length bs \<le> 2 ^ 32"
  shows "snapshot (bytes_at base bs) (base + of_nat k) n = take n (drop k bs)"
proof -
  have "bytes_at base bs (base + of_nat k + of_nat i) = bs ! (k + i)" if "i < n" for i
  proof -
    have "unat (of_nat (k + i) :: 32 word) = k + i"
      using assms that by (intro unat_of_nat_small) simp
    moreover have "base + of_nat k + of_nat i - base = (of_nat (k + i) :: 32 word)"
      by simp
    ultimately show ?thesis
      using assms(1) that unfolding bytes_at_def by simp
  qed
  then show ?thesis
    using assms(1) by (intro nth_equalityI) (simp_all add: snapshot_def)
qed

definition sample_query :: "vc_relation \<Rightarrow> vc_query" where
  "sample_query r = \<lparr>scalar_type = VC_SCALAR_U16, relation = r, value_bits = 1, stride = 2\<rparr>"

definition sample_search :: "32 search_args" where
  "sample_search =
     \<lparr>current = 0x1000, snapshot_size = 8, query = 0x2000, query_value = sample_query VC_RELATION_EQUAL,
      query_bytes = 16, out_offsets = 0x3000, capacity = 4, written = 0x4000, total_matches = 0x4010\<rparr>"

definition sample_refine :: "32 word \<Rightarrow> 32 refine_args" where
  "sample_refine out =
     \<lparr>current = 0x1008, snapshot_size = 8, query = 0x2000, query_value = sample_query VC_RELATION_CHANGED,
      query_bytes = 16, out_offsets = out, capacity = 1, written = 0x4000, total_matches = 0x4010,
      previous = 0x1000, candidates = 0x1010, candidate_count = 2\<rparr>"

lemma supported_32: "supported_target TYPE(32)"
  by (simp add: supported_target_def)

lemma sample_search_accepted: "initial_accepted sample_search"
proof -
  have "vc_validate_common sample_search = Inr (sample_query VC_RELATION_EQUAL, 2, 16)"
    by code_simp
  then show ?thesis
    by (simp add: vc_validate_common_accepts [OF supported_32] initial_accepted_def)
      (simp add: sample_search_def sample_query_def)
qed

lemma load_word_snapshot: "load_word m a = (le_word (snapshot m a (LENGTH('v) div 8)) :: 'v::len word)"
  by (simp add: load_word_def snapshot_def)

lemma sample_snapshots:
  "snapshot sample_memory 0x1000 8 = [1, 0, 2, 0, 1, 0, 9, 9]"
  "snapshot sample_memory 0x1008 8 = [7, 0, 2, 0, 1, 0, 9, 9]"
  "load_array sample_memory 0x1010 2 = [0, 4]"
proof -
  note slice = snapshot_bytes_at [of _ _ sample_bytes "0x1000"]
  show "snapshot sample_memory 0x1000 8 = [1, 0, 2, 0, 1, 0, 9, 9]"
    using slice [of 0 8] by (simp add: sample_bytes_def)
  show "snapshot sample_memory 0x1008 8 = [7, 0, 2, 0, 1, 0, 9, 9]"
    using slice [of 8 8] by (simp add: sample_bytes_def)
  have "snapshot sample_memory 0x1010 4 = [0, 0, 0, 0]"
    "snapshot sample_memory 0x1014 4 = [4, 0, 0, 0]"
    using slice [of 16 4] slice [of 20 4] by (simp_all add: sample_bytes_def)
  then have "load_word sample_memory 0x1010 = (le_word [0, 0, 0, 0] :: uint32_t)"
    "load_word sample_memory 0x1014 = (le_word [4, 0, 0, 0] :: uint32_t)"
    by (simp_all only: load_word_snapshot) simp_all
  moreover have "le_word [0, 0, 0, 0] = (0 :: uint32_t)" "le_word [4, 0, 0, 0] = (4 :: uint32_t)"
    by (simp_all add: le_word_def)
  moreover have "load_array sample_memory 0x1010 2 =
      [load_word sample_memory 0x1010, load_word sample_memory 0x1014]"
    by (simp add: load_array_def upt_conv_Cons)
  ultimately show "load_array sample_memory 0x1010 2 = [0, 4]"
    by simp
qed

lemma sample_hits:
  "initial_hits (sample_query VC_RELATION_EQUAL) [1, 0, 2, 0, 1, 0, 9, 9] = [0, 4]"
  "refine_hits (sample_query VC_RELATION_CHANGED) [1, 0, 2, 0, 1, 0, 9, 9] [7, 0, 2, 0, 1, 0, 9, 9] [0, 4] = [0]"
  by code_simp+

lemma sample_refine_accepted:
  assumes "out = 0x1010 \<or> out = 0x5000"
  shows "refine_accepted (sample_refine out) sample_memory"
proof -
  have "vc_validate_common (sample_refine out) = Inr (sample_query VC_RELATION_CHANGED, 2, 4)"
    "\<not> refine_clash (sample_refine out) 4 8"
    using assms by (elim disjE; hypsubst_thin; code_simp)+
  moreover have "vc_validate_candidates sample_memory 0x1010 2 8 2 = VC_STATUS_OK"
    by (simp add: vc_validate_candidates_status [OF supported_32] sample_snapshots valid_candidates_def)
  ultimately show ?thesis
    by (subst refine_accepted_checks [OF supported_32, of _ 4 8])
      (auto simp: vc_validate_common_accepts [OF supported_32] sample_refine_def sample_query_def)
qed

lemma sample_search_simps:
  "query_value sample_search = sample_query VC_RELATION_EQUAL" "current sample_search = 0x1000"
  "snapshot_size sample_search = 8" "capacity sample_search = 4"
  by (simp_all add: sample_search_def)

lemma sample_refine_simps:
  "query_value (sample_refine out) = sample_query VC_RELATION_CHANGED"
  "current (sample_refine out) = 0x1008" "previous (sample_refine out) = 0x1000"
  "snapshot_size (sample_refine out) = 8" "capacity (sample_refine out) = 1"
  "refine_candidates (sample_refine out) m = load_array m 0x1010 2"
  by (simp_all add: sample_refine_def refine_candidates_def)

lemma sample_query_simps:
  "stride (sample_query r) = 2" "scalar_type (sample_query r) = VC_SCALAR_U16"
  "relation (sample_query r) = r" "value_bits (sample_query r) = 1"
  by (simp_all add: sample_query_def)

lemma sample_search_run:
  obtains m' where "vc_search_initial sample_search sample_memory = Some (VC_STATUS_OK, m')"
    and "stored_offsets sample_search m' = [0, 4]"
proof -
  obtain status m' where run: "vc_search_initial sample_search sample_memory = Some (status, m')"
    using vc_search_initial_run [OF supported_32, of sample_search sample_memory] sample_search_accepted
    by (auto simp: initial_accepted_def)
  note found = vc_search_initial_found [OF supported_32 sample_search_accepted run,
      unfolded sample_search_simps, simplified, unfolded sample_snapshots sample_hits]
  from search_outcome_stored [OF found(1)] run that [of m'] show thesis
    by (simp add: sample_search_simps)
qed

lemma sample_refine_run:
  assumes "out = 0x1010 \<or> out = 0x5000"
  obtains m' where "vc_search_refine (sample_refine out) sample_memory = (VC_STATUS_OK, m')"
    and "stored_offsets (sample_refine out) m' = [0]"
proof -
  obtain status m' where run: "vc_search_refine (sample_refine out) sample_memory = (status, m')"
    and outcome: "search_outcome (sample_refine out) sample_memory [0] status m'"
    using vc_search_refine_run [OF supported_32 sample_refine_accepted [OF assms]]
    by (auto simp: sample_refine_simps sample_snapshots sample_hits)
  from search_outcome_stored [OF outcome] run that [of m'] show thesis
    by (simp add: sample_refine_simps)
qed

theorem search_initial_total_witness:
  "\<exists>m'. vc_search_initial sample_search sample_memory = Some (VC_STATUS_OK, m') \<and>
    search_outcome sample_search sample_memory [0, 4] VC_STATUS_OK m'"
proof -
  obtain m1 where run: "vc_search_initial sample_search sample_memory = Some (VC_STATUS_OK, m1)"
    by (rule sample_search_run)
  show ?thesis
    using search_initial_total [OF supported_32, of sample_search sample_memory] run
    by (simp add: sample_search_accepted sample_search_simps sample_snapshots sample_hits)
qed

theorem search_initial_finds_exactly_witness:
  "\<exists>m' offsets. vc_search_initial sample_search sample_memory = Some (VC_STATUS_OK, m') \<and>
    set offsets = {i. i + 2 \<le> 8 \<and> 2 dvd i \<and>
      vc_matches VC_SCALAR_U16 VC_RELATION_EQUAL 0
        (vc_read_little_endian sample_memory (0x1000 + of_nat i) 2) 1 2} \<and>
    map unat (stored_offsets sample_search m') = take 4 offsets"
proof -
  obtain m1 where run: "vc_search_initial sample_search sample_memory = Some (VC_STATUS_OK, m1)"
    by (rule sample_search_run)
  then show ?thesis
    using search_initial_finds_exactly [OF supported_32 run]
    by (auto simp: sample_search_simps sample_query_simps)
qed

theorem search_refine_total_witness:
  "\<exists>m'. vc_search_refine (sample_refine 0x1010) sample_memory = (VC_STATUS_OK, m') \<and>
    search_outcome (sample_refine 0x1010) sample_memory [0] VC_STATUS_OK m'"
proof -
  obtain m1 where run: "vc_search_refine (sample_refine 0x1010) sample_memory = (VC_STATUS_OK, m1)"
    by (rule sample_refine_run [of "0x1010"]) simp_all
  show ?thesis
    using search_refine_total [OF supported_32, of "sample_refine 0x1010" sample_memory] run
    by (simp add: sample_refine_accepted sample_refine_simps sample_snapshots sample_hits)
qed

text \<open>A memory whose candidate array at \<open>0x6000\<close> holds a given list.\<close>

lemma copied_list:
  assumes "length xs \<le> 8" and "n = length xs"
  shows "load_array (store_array (\<lambda>_. 0) (0x6000 :: 32 word) xs) 0x6000 n = xs"
  unfolding assms(2) using assms(1) by (intro load_store_array) simp

theorem search_initial_feeds_refine_witness:
  "vc_validate_candidates (store_array (\<lambda>_. 0) 0x6000 [0, 4]) (0x6000 :: 32 word) 2 8 2 = VC_STATUS_OK"
proof -
  obtain m1 where run: "vc_search_initial sample_search sample_memory = Some (VC_STATUS_OK, m1)"
    and stored: "stored_offsets sample_search m1 = [0, 4]"
    by (rule sample_search_run)
  show ?thesis
    using search_initial_feeds_refine [OF supported_32 run, of "0x6000"
        "store_array (\<lambda>_. 0) 0x6000 [0, 4]" 2] copied_list [of "[0, 4]" 2]
    by (simp add: stored sample_search_simps sample_query_simps)
qed

theorem search_refine_feeds_refine_witness:
  "vc_validate_candidates (store_array (\<lambda>_. 0) 0x6000 [0]) (0x6000 :: 32 word) 1 8 2 = VC_STATUS_OK"
proof -
  obtain m1 where run: "vc_search_refine (sample_refine 0x1010) sample_memory = (VC_STATUS_OK, m1)"
    and stored: "stored_offsets (sample_refine 0x1010) m1 = [0]"
    by (rule sample_refine_run [of "0x1010"]) simp_all
  show ?thesis
    using search_refine_feeds_refine [OF supported_32 run, of "0x6000"
        "store_array (\<lambda>_. 0) 0x6000 [0]" 1] copied_list [of "[0]" 1]
    by (simp add: stored sample_refine_simps sample_query_simps)
qed

theorem search_refine_in_place_witness:
  "\<exists>m' m2. vc_search_refine (sample_refine 0x5000) sample_memory = (VC_STATUS_OK, m') \<and>
    vc_search_refine (sample_refine 0x1010) sample_memory = (VC_STATUS_OK, m2) \<and>
    stored_offsets (sample_refine 0x1010) m2 = stored_offsets (sample_refine 0x5000) m'"
proof -
  obtain m1 where apart: "vc_search_refine (sample_refine 0x5000) sample_memory = (VC_STATUS_OK, m1)"
    by (rule sample_refine_run [of "0x5000"]) simp_all
  obtain m2 where in_place: "vc_search_refine (sample_refine 0x1010) sample_memory = (VC_STATUS_OK, m2)"
    by (rule sample_refine_run [of "0x1010"]) simp_all
  have args: "(sample_refine 0x5000)\<lparr>out_offsets := candidates (sample_refine 0x5000)\<rparr> = sample_refine 0x1010"
    by (simp add: sample_refine_def)
  show ?thesis
    using search_refine_in_place [OF supported_32 _ _ apart, unfolded args, of VC_STATUS_OK m2]
      apart in_place
    by (simp add: sample_refine_accepted)
qed

end
