(* ===== verification/VC_Search_Reference.thy ===== *)
theory VC_Search_Reference
  imports VC_Search_Props
begin

unbundle bit_operations_syntax

text \<open>
  The reference implementation in \<^verbatim>\<open>tests/host/test_search.c\<close>, against which the property tests compare the
  search on random inputs: it reads a list of bytes and collects the expected offsets in a list. The theorem
  says that the comparison succeeds on every input, not only on the 2000 that the tests draw.
\<close>

section \<open>The reference\<close>

definition reference_read :: "uint8_t list \<Rightarrow> nat \<Rightarrow> nat \<Rightarrow> uint32_t" where
  "reference_read bytes offset width =
     foldl (\<lambda>val index. val OR push_bit (index * 8) (ucast (bytes ! (offset + index)))) 0 [0..<width]"

definition reference_mask :: "nat \<Rightarrow> uint32_t" where
  "reference_mask width = (if width = 1 then 0xff else if width = 2 then 0xffff else - 1)"

definition reference_signed :: "uint32_t \<Rightarrow> nat \<Rightarrow> int" where
  "reference_signed bits width =
     (let mask = ucast (reference_mask width) :: uint64_t;
          val = ucast bits AND mask;
          sign = push_bit (width * 8 - 1) 1
      in if val AND sign \<noteq> 0 then - sint (mask - val + 1) else sint val)"

definition reference_matches ::
  "vc_scalar_type \<Rightarrow> vc_relation \<Rightarrow> uint32_t \<Rightarrow> uint32_t \<Rightarrow> uint32_t \<Rightarrow> nat \<Rightarrow> bool" where
  "reference_matches type rel previous0 current0 constant0 width =
     (let mask = reference_mask width;
          previous = previous0 AND mask;
          current = current0 AND mask;
          constant = constant0 AND mask;
          signed_type = (type = VC_SCALAR_S8 \<or> type = VC_SCALAR_S16 \<or> type = VC_SCALAR_S32)
      in case rel of
           VC_RELATION_EQUAL \<Rightarrow> current = constant
         | VC_RELATION_NOT_EQUAL \<Rightarrow> current \<noteq> constant
         | VC_RELATION_CHANGED \<Rightarrow> current \<noteq> previous
         | VC_RELATION_UNCHANGED \<Rightarrow> current = previous
         | VC_RELATION_INCREASED \<Rightarrow>
             if signed_type then reference_signed current width > reference_signed previous width
             else current > previous
         | VC_RELATION_DECREASED \<Rightarrow>
             if signed_type then reference_signed current width < reference_signed previous width
             else current < previous
         | VC_RELATION_BEYOND _ \<Rightarrow> False)"

text \<open>One step of the expectation: the list is as long as \<^verbatim>\<open>expected_written\<close>, the number is \<^verbatim>\<open>expected_total\<close>.\<close>

definition expect :: "nat \<Rightarrow> bool \<Rightarrow> uint32_t \<Rightarrow> uint32_t list \<times> nat \<Rightarrow> uint32_t list \<times> nat" where
  "expect limit hit offset = (\<lambda>(expected, total).
     if hit then (if length expected < limit then expected @ [offset] else expected, total + 1)
     else (expected, total))"

partial_function (option) reference_scan ::
  "vc_query \<Rightarrow> uint8_t list \<Rightarrow> nat \<Rightarrow> nat \<Rightarrow> nat \<Rightarrow> uint32_t list \<times> nat \<Rightarrow> (uint32_t list \<times> nat) option" where
  "reference_scan q bytes limit last_offset offset expectation =
     (let width = vc_scalar_width (scalar_type q);
          current = reference_read bytes offset width;
          expectation' = expect limit
            (reference_matches (scalar_type q) (relation q) 0 current (value_bits q) width) (of_nat offset) expectation
      in if unat (stride q) > last_offset - offset then Some expectation'
         else reference_scan q bytes limit last_offset (offset + unat (stride q)) expectation')"

definition reference_initial :: "vc_query \<Rightarrow> uint8_t list \<Rightarrow> nat \<Rightarrow> (uint32_t list \<times> nat) option" where
  "reference_initial q bytes limit =
     (let width = vc_scalar_width (scalar_type q)
      in if length bytes \<ge> width then reference_scan q bytes limit (length bytes - width) 0 ([], 0) else Some ([], 0))"

definition reference_refine ::
  "vc_query \<Rightarrow> uint8_t list \<Rightarrow> uint8_t list \<Rightarrow> uint32_t list \<Rightarrow> nat \<Rightarrow> uint32_t list \<times> nat" where
  "reference_refine q old new cs limit =
     foldl (\<lambda>expectation candidate.
       let width = vc_scalar_width (scalar_type q);
           before = reference_read old (unat candidate) width;
           after = reference_read new (unat candidate) width
       in expect limit (reference_matches (scalar_type q) (relation q) before after (value_bits q) width) candidate expectation)
     ([], 0) cs"

text \<open>The \<^verbatim>\<open>CHECK\<close>s of an iteration: the guards around the output, the snapshots and everything else are unchanged.\<close>

definition property_checks ::
  "('s::len, 'x) search_args_scheme \<Rightarrow> 's memory \<Rightarrow> uint32_t list \<times> nat \<Rightarrow> vc_status \<Rightarrow> 's memory \<Rightarrow> bool" where
  "property_checks a m = (\<lambda>(expected, total) status m'.
     status = (if total > unat (capacity a) then VC_STATUS_TRUNCATED else VC_STATUS_OK) \<and>
     unat (load_word m' (written a) :: 's word) = length expected \<and>
     unat (load_word m' (total_matches a) :: 's word) = total \<and>
     load_array m' (out_offsets a) (length expected) = expected \<and>
     (\<forall>x. x \<notin> span (out_offsets a) (4 * unat (capacity a)) \<union> span (written a) (LENGTH('s) div 8) \<union>
          span (total_matches a) (LENGTH('s) div 8) \<longrightarrow> m' x = m x))"

section \<open>It says what the specification says\<close>

lemma reference_matches_eq: "reference_matches = vc_matches"
proof -
  have mask: "reference_mask = vc_width_mask"
    by (simp add: fun_eq_iff reference_mask_def vc_width_mask_def)
  then have signed: "reference_signed = vc_signed_value"
    by (simp add: fun_eq_iff reference_signed_def vc_signed_value_def)
  have "reference_matches t r old new k w = vc_matches t r old new k w" for t r old new k w
    by (cases r) (simp_all add: reference_matches_def vc_matches_def Let_def vc_type_is_signed_def mask signed)
  then show ?thesis
    by (simp add: fun_eq_iff)
qed

lemma le_word_snoc: "le_word (bs @ [b]) = (le_word bs OR push_bit (8 * length bs) (ucast b) :: uint32_t)"
  by (induction bs) (simp_all add: le_word_def push_bit_or push_bit_push_bit ac_simps)

lemma reference_read_eq:
  assumes "offset + width \<le> length bytes"
  shows "reference_read bytes offset width = le_word (take width (drop offset bytes))"
  using assms
proof (induction width)
  case 0
  then show ?case
    by (simp add: reference_read_def le_word_def)
next
  case (Suc width)
  have "take (Suc width) (drop offset bytes) = take width (drop offset bytes) @ [bytes ! (offset + width)]"
    using Suc.prems by (simp add: take_Suc_conv_app_nth)
  with Suc show ?case
    by (simp add: reference_read_def le_word_snoc mult.commute)
qed

text \<open>Both loops expect the first matches, and count them all.\<close>

definition expectation :: "nat \<Rightarrow> uint32_t list \<Rightarrow> uint32_t list \<times> nat" where
  "expectation limit hits = (take limit hits, length hits)"

lemma expect_step:
  "expect limit hit offset (expectation limit hits) = expectation limit (hits @ (if hit then [offset] else []))"
  by (auto simp: expect_def expectation_def)

lemma reference_hit:
  assumes "vc_scalar_width t \<noteq> 0" and "offset + vc_scalar_width t \<le> length bytes"
  shows "vc_matches t r old (reference_read bytes offset (vc_scalar_width t)) k (vc_scalar_width t) \<longleftrightarrow>
    relation_holds r (scalar_value t old) (scalar_at t bytes offset) (scalar_value t k)"
  using assms by (simp add: vc_matches_relation reference_read_eq scalar_at_def)

lemma reference_scan_finds:
  fixes q bytes
  defines "t \<equiv> scalar_type q"
  defines "last_offset \<equiv> length bytes - vc_scalar_width t"
  defines "P \<equiv> \<lambda>i. relation_holds (relation q) 0 (scalar_at t bytes i) (scalar_value t (value_bits q))"
  assumes "well_formed_query q" and "vc_scalar_width t \<le> length bytes" and "offset \<le> last_offset"
  shows "reference_scan q bytes limit last_offset offset (expectation limit hits) =
    Some (expectation limit (hits @ map of_nat (filter P (scan_from offset last_offset (unat (stride q))))))"
  using assms(6)
proof (induction "last_offset - offset" arbitrary: offset hits rule: less_induct)
  case less
  let ?step = "unat (stride q)"
  have width: "vc_scalar_width t \<noteq> 0" and step: "0 < ?step"
    using assms(4) by (simp_all add: well_formed_query_def t_def unat_gt_0)
  have hit: "reference_matches t (relation q) 0 (reference_read bytes offset (vc_scalar_width t)) (value_bits q) (vc_scalar_width t)
      \<longleftrightarrow> P offset"
    using less.prems assms(5) width
    by (simp add: reference_matches_eq reference_hit P_def scalar_value_0 last_offset_def)
  have unfolded: "reference_scan q bytes limit last_offset offset (expectation limit hits) =
      (let hits' = hits @ (if P offset then [of_nat offset] else [])
       in if ?step > last_offset - offset then Some (expectation limit hits')
          else reference_scan q bytes limit last_offset (offset + ?step) (expectation limit hits'))"
    by (subst reference_scan.simps) (simp add: Let_def hit [unfolded t_def] expect_step)
  have scan: "scan_from offset last_offset ?step =
      offset # (if ?step > last_offset - offset then [] else scan_from (offset + ?step) last_offset ?step)"
    by (rule scan_from_step [OF step])
  show ?case
  proof (cases "?step > last_offset - offset")
    case True
    then show ?thesis
      using unfolded scan by (simp add: Let_def)
  next
    case False
    then have next_offset: "last_offset - (offset + ?step) < last_offset - offset" "offset + ?step \<le> last_offset"
      using step by simp_all
    show ?thesis
      using False unfolded scan less.hyps [OF next_offset, of "hits @ (if P offset then [of_nat offset] else [])"]
      by (simp add: Let_def)
  qed
qed

lemma reference_initial_finds:
  assumes "well_formed_query q"
  shows "reference_initial q bytes limit = Some (expectation limit (map of_nat (initial_hits q bytes)))"
proof -
  have "expectation limit [] = ([], 0)"
    by (simp add: expectation_def)
  then show ?thesis
    using reference_scan_finds [OF assms, of bytes 0 limit "[]"]
    by (simp add: reference_initial_def Let_def initial_hits_def scan_offsets_def)
qed

lemma reference_refine_finds:
  assumes "vc_scalar_width (scalar_type q) \<noteq> 0" and "length old = length new"
    and "valid_candidates cs (length new) (vc_scalar_width (scalar_type q))"
  shows "reference_refine q old new cs limit = expectation limit (refine_hits q old new cs)"
  using assms(3)
proof (induction cs rule: rev_induct)
  case Nil
  then show ?case
    by (simp add: reference_refine_def expectation_def refine_hits_def)
next
  case (snoc c cs)
  have "unat c + vc_scalar_width (scalar_type q) \<le> length new" "valid_candidates cs (length new) (vc_scalar_width (scalar_type q))"
    using snoc.prems by (auto simp: valid_candidates_def sorted_wrt_append)
  then show ?case
    using snoc.IH assms(1,2)
    by (simp add: reference_refine_def Let_def reference_matches_eq reference_hit expect_step refine_hits_def
        reference_read_eq [of _ _ old] scalar_at_def [of _ old])
qed

lemma outcome_checks:
  assumes "search_outcome a m hits status m'"
  shows "property_checks a m (expectation (unat (capacity a)) hits) status m'"
proof -
  have "span (out_offsets a) (4 * length (take (unat (capacity a)) hits)) \<subseteq> span (out_offsets a) (4 * unat (capacity a))"
    by (rule span_mono) simp
  then show ?thesis
    using assms unfolding search_outcome_def property_checks_def expectation_def Let_def prod.case by blast
qed

text \<open>C35. The property tests of the search succeed on every input: whatever the memory, the query, the sizes and the
  candidates of an accepted call, it returns, and its status, its counters and the offsets it stores are those
  that the reference implementation of the tests computes from the bytes alone; no other byte changes.
\<close>

theorem search_passes_property_tests:
  fixes a :: "('s::len, 'x) search_args_scheme" and b :: "('s, 'y) refine_args_scheme"
  assumes target: "supported_target TYPE('s)" and a: "initial_accepted a" and b: "refine_accepted b m"
  shows "(\<exists>expected status m'.
      reference_initial (query_value a) (snapshot m (current a) (unat (snapshot_size a))) (unat (capacity a)) = Some expected \<and>
      vc_search_initial a m = Some (status, m') \<and> property_checks a m expected status m') \<and>
    (\<exists>status m'. vc_search_refine b m = (status, m') \<and>
      property_checks b m
        (reference_refine (query_value b) (snapshot m (previous b) (unat (snapshot_size b)))
          (snapshot m (current b) (unat (snapshot_size b))) (refine_candidates b m) (unat (capacity b)))
        status m')"
proof
  have parts: "well_placed a" "well_formed_query (query_value a)"
    "relation (query_value a) \<in> {VC_RELATION_EQUAL, VC_RELATION_NOT_EQUAL}"
    using a by (simp_all add: initial_accepted_def)
  show "\<exists>expected status m'.
      reference_initial (query_value a) (snapshot m (current a) (unat (snapshot_size a))) (unat (capacity a)) = Some expected \<and>
      vc_search_initial a m = Some (status, m') \<and> property_checks a m expected status m'"
    using vc_search_initial_run [OF target parts, of m] reference_initial_finds [OF parts(2)] outcome_checks by blast
  have query: "vc_scalar_width (scalar_type (query_value b)) \<noteq> 0"
    and valid: "valid_candidates (refine_candidates b m) (unat (snapshot_size b)) (vc_scalar_width (scalar_type (query_value b)))"
    using b by (simp_all add: refine_accepted_def well_formed_query_def)
  have "reference_refine (query_value b) (snapshot m (previous b) (unat (snapshot_size b)))
      (snapshot m (current b) (unat (snapshot_size b))) (refine_candidates b m) (unat (capacity b)) =
    expectation (unat (capacity b)) (refine_hits (query_value b) (snapshot m (previous b) (unat (snapshot_size b)))
      (snapshot m (current b) (unat (snapshot_size b))) (refine_candidates b m))"
    using valid by (intro reference_refine_finds [OF query]) simp_all
  then show "\<exists>status m'. vc_search_refine b m = (status, m') \<and>
      property_checks b m
        (reference_refine (query_value b) (snapshot m (previous b) (unat (snapshot_size b)))
          (snapshot m (current b) (unat (snapshot_size b))) (refine_candidates b m) (unat (capacity b)))
        status m'"
    using vc_search_refine_run [OF target b] outcome_checks by metis
qed

theorem search_passes_property_tests_witness:
  "(\<exists>status m'. vc_search_initial sample_search sample_memory = Some (status, m') \<and>
      property_checks sample_search sample_memory ([0, 4], 2) status m') \<and>
    (\<exists>status m'. vc_search_refine (sample_refine 0x5000) sample_memory = (status, m') \<and>
      property_checks (sample_refine 0x5000) sample_memory ([0], 1) status m')"
proof -
  have "reference_initial (sample_query VC_RELATION_EQUAL) [1, 0, 2, 0, 1, 0, 9, 9] 4 = Some ([0, 4], 2)"
    by (subst reference_initial_finds)
      (simp_all add: sample_hits expectation_def, simp add: well_formed_query_def sample_query_def)
  moreover have "reference_refine (sample_query VC_RELATION_CHANGED) [1, 0, 2, 0, 1, 0, 9, 9] [7, 0, 2, 0, 1, 0, 9, 9] [0, 4] 1 =
      ([0], 1)"
    by code_simp
  ultimately show ?thesis
    using search_passes_property_tests [OF supported_32 sample_search_accepted sample_refine_accepted, of "0x5000"]
    by (simp add: sample_search_simps sample_refine_simps sample_snapshots)
qed

end
