(* ===== verification/VC_Menu.thy ===== *)
theory VC_Menu
  imports VC_Prelude
begin

text \<open>
  The Select-hold state machine of \<^verbatim>\<open>src/menu_activation.c\<close> and
  \<^verbatim>\<open>include/vitacheat/menu_activation.h\<close>. A state pointer is an option (\<open>None\<close> is the null
  pointer); timestamps are 64-bit words and the hold time is computed with the code's unsigned
  subtraction. \<open>menu_events\<close> is the sequence of events a sequence of samples produces.
\<close>

section \<open>State and operations\<close>

datatype vc_menu_activation_event = VC_MENU_ACTIVATION_NONE | VC_MENU_ACTIVATION_TRIGGERED

record vc_menu_activation_state =
  pressed_since_ms :: uint64_t
  last_timestamp_ms :: uint64_t
  pressed :: bool
  latched :: bool

definition VC_MENU_SELECT_HOLD_MS :: uint64_t where
  "VC_MENU_SELECT_HOLD_MS = 5000"

definition menu_zero :: vc_menu_activation_state where
  "menu_zero =
     \<lparr>pressed_since_ms = 0, last_timestamp_ms = 0, pressed = False, latched = False\<rparr>"

definition vc_menu_activation_reset ::
  "vc_menu_activation_state option \<Rightarrow> vc_menu_activation_state option" where
  "vc_menu_activation_reset state = (case state of None \<Rightarrow> None | Some _ \<Rightarrow> Some menu_zero)"

definition menu_update ::
  "vc_menu_activation_state \<Rightarrow> bool \<Rightarrow> uint64_t \<Rightarrow>
   vc_menu_activation_event \<times> vc_menu_activation_state" where
  "menu_update s select_down now_ms =
     (if \<not> select_down
      then (VC_MENU_ACTIVATION_NONE,
            s\<lparr>pressed_since_ms := 0, last_timestamp_ms := now_ms, pressed := False,
              latched := False\<rparr>)
      else
        let s1 = (if \<not> pressed s
                  then s\<lparr>pressed_since_ms := now_ms, pressed := True, latched := False\<rparr>
                  else if now_ms < last_timestamp_ms s \<and> \<not> latched s
                  then s\<lparr>pressed_since_ms := now_ms\<rparr>
                  else s);
            s2 = s1\<lparr>last_timestamp_ms := now_ms\<rparr>
        in if \<not> latched s2 \<and> now_ms - pressed_since_ms s2 \<ge> VC_MENU_SELECT_HOLD_MS
           then (VC_MENU_ACTIVATION_TRIGGERED, s2\<lparr>latched := True\<rparr>)
           else (VC_MENU_ACTIVATION_NONE, s2))"

definition vc_menu_activation_update ::
  "vc_menu_activation_state option \<Rightarrow> bool \<Rightarrow> uint64_t \<Rightarrow>
   vc_menu_activation_event \<times> vc_menu_activation_state option" where
  "vc_menu_activation_update state select_down now_ms =
     (case state of
        None \<Rightarrow> (VC_MENU_ACTIVATION_NONE, None)
      | Some s \<Rightarrow> map_prod id Some (menu_update s select_down now_ms))"

section \<open>Sequences of samples\<close>

text \<open>A sample is the state of the Select button and the time it was read.\<close>

type_synonym menu_sample = "bool \<times> uint64_t"

definition menu_step :: "vc_menu_activation_state \<Rightarrow> menu_sample \<Rightarrow> vc_menu_activation_state" where
  "menu_step s x = snd (menu_update s (fst x) (snd x))"

primrec menu_events ::
  "vc_menu_activation_state \<Rightarrow> menu_sample list \<Rightarrow> vc_menu_activation_event list" where
  "menu_events s [] = []"
| "menu_events s (x # xs) = fst (menu_update s (fst x) (snd x)) # menu_events (menu_step s x) xs"

definition menu_inv :: "vc_menu_activation_state \<Rightarrow> bool" where
  "menu_inv s \<longleftrightarrow>
     (pressed s \<and> \<not> latched s \<longrightarrow>
        pressed_since_ms s \<le> last_timestamp_ms s \<and>
        last_timestamp_ms s - pressed_since_ms s < VC_MENU_SELECT_HOLD_MS) \<and>
     (\<not> pressed s \<longrightarrow> \<not> latched s)"

lemma menu_inv_zero: "menu_inv menu_zero"
  by (simp add: menu_inv_def menu_zero_def)

lemma menu_inv_update: "menu_inv s \<Longrightarrow> menu_inv (menu_step s x)"
  by (cases x) (auto simp: menu_inv_def menu_step_def menu_update_def Let_def VC_MENU_SELECT_HOLD_MS_def)

interpretation menu: invariant_machine menu_step menu_inv
  by unfold_locales (rule menu_inv_update)

lemma length_menu_events [simp]: "length (menu_events s xs) = length xs"
  by (induction xs arbitrary: s) simp_all

lemma menu_events_append:
  "menu_events s (xs @ ys) = menu_events s xs @ menu_events (foldl menu_step s xs) ys"
  by (induction xs arbitrary: s) simp_all

lemma menu_events_nth:
  "k < length xs \<Longrightarrow> menu_events s xs ! k =
    fst (menu_update (foldl menu_step s (take k xs)) (fst (xs ! k)) (snd (xs ! k)))"
proof (induction xs arbitrary: s k)
  case Nil
  then show ?case by simp
next
  case (Cons x xs)
  then show ?case by (cases k) simp_all
qed

section \<open>What the state records of the samples\<close>

text \<open>
  \<open>holding xs i\<close>: the samples from index \<open>i\<close> on are one uninterrupted hold, with Select down in each
  of them and timestamps that never go back. \<open>fired_since xs\<close>: the last event fired during the hold
  that is still going on. \<open>menu_tracks\<close> relates a state reached from the zero state to the samples
  it has seen.
\<close>

definition holding :: "menu_sample list \<Rightarrow> nat \<Rightarrow> bool" where
  "holding xs i \<longleftrightarrow> i < length xs \<and> (\<forall>x \<in> set (drop i xs). fst x) \<and> sorted (map snd (drop i xs))"

definition fired_since :: "menu_sample list \<Rightarrow> bool" where
  "fired_since xs \<longleftrightarrow>
     (\<exists>j < length xs. menu_events menu_zero xs ! j = VC_MENU_ACTIVATION_TRIGGERED \<and>
        (\<forall>x \<in> set (drop j xs). fst x))"

definition menu_tracks :: "menu_sample list \<Rightarrow> vc_menu_activation_state \<Rightarrow> bool" where
  "menu_tracks xs s \<longleftrightarrow>
     (latched s \<longleftrightarrow> fired_since xs) \<and>
     (pressed s \<and> \<not> latched s \<longrightarrow>
        (\<exists>i. holding xs i \<and> snd (xs ! i) = pressed_since_ms s \<and>
             snd (last xs) = last_timestamp_ms s))"

lemma holding_start: "fst x \<Longrightarrow> holding (xs @ [x]) (length xs)"
  by (simp add: holding_def)

lemma sorted_snoc_le: "sorted (xs @ [y]) \<longleftrightarrow> sorted xs \<and> (xs \<noteq> [] \<longrightarrow> last xs \<le> y)"
  by (induction xs) (auto simp: sorted_append intro: order_trans dest: last_in_set)

lemma holding_snoc:
  assumes "holding xs i" and "fst x" and "snd (last xs) \<le> snd x"
  shows "holding (xs @ [x]) i"
proof -
  have "drop i xs \<noteq> []" and "last (drop i xs) = last xs"
    using assms(1) by (simp_all add: holding_def)
  with assms show ?thesis
    by (simp add: holding_def sorted_snoc_le last_map)
qed

lemma fired_since_snoc:
  "fired_since (xs @ [x]) \<longleftrightarrow> fst x \<and>
    (fired_since xs \<or>
     fst (menu_update (foldl menu_step menu_zero xs) True (snd x)) = VC_MENU_ACTIVATION_TRIGGERED)"
proof -
  let ?ev = "fst (menu_update (foldl menu_step menu_zero xs) (fst x) (snd x))"
  have nth: "menu_events menu_zero (xs @ [x]) ! j =
      (if j < length xs then menu_events menu_zero xs ! j else ?ev)" if "j \<le> length xs" for j
    using that by (simp add: menu_events_append nth_append)
  have "fired_since (xs @ [x]) \<longleftrightarrow>
      (\<exists>j \<le> length xs. menu_events menu_zero (xs @ [x]) ! j = VC_MENU_ACTIVATION_TRIGGERED \<and>
        (\<forall>y \<in> set (drop j (xs @ [x])). fst y))"
    by (simp add: fired_since_def less_Suc_eq_le)
  also have "\<dots> \<longleftrightarrow> fst x \<and> (fired_since xs \<or> ?ev = VC_MENU_ACTIVATION_TRIGGERED)"
    by (auto simp: fired_since_def nth le_less split: if_splits)
  also have "\<dots> \<longleftrightarrow> fst x \<and> (fired_since xs \<or>
      fst (menu_update (foldl menu_step menu_zero xs) True (snd x)) = VC_MENU_ACTIVATION_TRIGGERED)"
    by (cases "fst x") auto
  finally show ?thesis .
qed

lemma menu_tracks_run: "menu_tracks xs (foldl menu_step menu_zero xs)"
proof (induction xs rule: rev_induct)
  case Nil
  then show ?case
    by (simp add: menu_tracks_def menu_zero_def fired_since_def)
next
  case (snoc x xs)
  let ?s = "foldl menu_step menu_zero xs"
  obtain down now where x: "x = (down, now)"
    by (cases x)
  have inv: "menu_inv ?s"
    by (rule menu.inv_run [OF menu_inv_zero])
  show ?case
  proof (cases down)
    case False
    then show ?thesis
      by (simp add: x menu_tracks_def fired_since_snoc menu_step_def menu_update_def)
  next
    case True
    have fired: "fired_since (xs @ [x]) \<longleftrightarrow> latched ?s \<or>
        fst (menu_update ?s True now) = VC_MENU_ACTIVATION_TRIGGERED"
      using snoc.IH True by (simp add: fired_since_snoc x menu_tracks_def)
    have start: "holding (xs @ [x]) (length xs)" "(xs @ [x]) ! length xs = x"
      using True by (simp_all add: x holding_start)
    have continue: "\<exists>i. holding (xs @ [x]) i \<and> snd ((xs @ [x]) ! i) = pressed_since_ms ?s"
      if s: "pressed ?s" "\<not> latched ?s" "\<not> now < last_timestamp_ms ?s"
    proof -
      obtain i where i: "holding xs i" "snd (xs ! i) = pressed_since_ms ?s"
        "snd (last xs) = last_timestamp_ms ?s"
        using snoc.IH s(1,2) by (auto simp: menu_tracks_def)
      then have "holding (xs @ [x]) i"
        using s(3) True by (intro holding_snoc) (simp_all add: x)
      with i show ?thesis
        by (intro exI [of _ i]) (simp add: holding_def nth_append)
    qed
    show ?thesis
      using inv start continue True
      unfolding menu_tracks_def fired
      by (auto simp: x menu_step_def menu_update_def Let_def menu_inv_def)
  qed
qed

section \<open>When the event fires\<close>

lemma update_fires_iff:
  assumes "menu_inv s"
  shows "fst (menu_update s down now) = VC_MENU_ACTIVATION_TRIGGERED \<longleftrightarrow>
    down \<and> pressed s \<and> \<not> latched s \<and> last_timestamp_ms s \<le> now \<and>
    5000 \<le> unat now - unat (pressed_since_ms s)"
proof (cases "down \<and> pressed s \<and> \<not> latched s \<and> last_timestamp_ms s \<le> now")
  case True
  then have "pressed_since_ms s \<le> now"
    using assms by (auto simp: menu_inv_def)
  then have "VC_MENU_SELECT_HOLD_MS \<le> now - pressed_since_ms s \<longleftrightarrow>
      5000 \<le> unat now - unat (pressed_since_ms s)"
    by (simp add: word_le_nat_alt unat_sub_no_wrap VC_MENU_SELECT_HOLD_MS_def)
  with True show ?thesis
    by (auto simp: menu_update_def Let_def)
next
  case False
  then show ?thesis
    by (auto simp: menu_update_def Let_def VC_MENU_SELECT_HOLD_MS_def)
qed

lemma event_cases: "e = VC_MENU_ACTIVATION_NONE \<or> e = VC_MENU_ACTIVATION_TRIGGERED"
  by (cases e) simp_all

text \<open>Holding from an unpressed state: nothing until the hold is long enough, one event, nothing more.\<close>

lemma events_latched:
  assumes "pressed s" and "latched s"
  shows "menu_events s (map (Pair True) ts) = replicate (length ts) VC_MENU_ACTIVATION_NONE"
  using assms
  by (induction ts arbitrary: s) (auto simp: menu_update_def menu_step_def Let_def)

definition hold_events :: "uint64_t \<Rightarrow> uint64_t list \<Rightarrow> vc_menu_activation_event list" where
  "hold_events start ts =
     (let early = length (takeWhile (\<lambda>t. unat t - unat start < 5000) ts)
      in replicate early VC_MENU_ACTIVATION_NONE @
         (if early < length ts
          then VC_MENU_ACTIVATION_TRIGGERED #
            replicate (length ts - Suc early) VC_MENU_ACTIVATION_NONE
          else []))"

lemma hold_events_Nil [simp]: "hold_events start [] = []"
  by (simp add: hold_events_def)

lemma hold_events_Cons:
  "hold_events start (t # ts) =
    (if unat t - unat start < 5000 then VC_MENU_ACTIVATION_NONE # hold_events start ts
     else VC_MENU_ACTIVATION_TRIGGERED # replicate (length ts) VC_MENU_ACTIVATION_NONE)"
  by (simp add: hold_events_def Let_def)

lemma menu_events_holding:
  assumes "menu_inv s" and "pressed s" and "\<not> latched s"
    and "sorted ts" and "\<And>t. t \<in> set ts \<Longrightarrow> last_timestamp_ms s \<le> t"
  shows "menu_events s (map (Pair True) ts) = hold_events (pressed_since_ms s) ts"
  using assms
proof (induction ts arbitrary: s)
  case Nil
  then show ?case by simp
next
  case (Cons t ts)
  let ?s = "menu_step s (True, t)"
  have "\<not> t < last_timestamp_ms s"
    using Cons.prems(5) [of t] by (simp add: not_less)
  then have step: "pressed ?s" "pressed_since_ms ?s = pressed_since_ms s" "last_timestamp_ms ?s = t"
    "latched ?s \<longleftrightarrow> fst (menu_update s True t) = VC_MENU_ACTIVATION_TRIGGERED"
    using Cons.prems(2,3) by (auto simp: menu_step_def menu_update_def Let_def)
  have inv: "menu_inv ?s"
    using Cons.prems(1) by (rule menu_inv_update)
  show ?case
  proof (cases "latched ?s")
    case True
    then show ?thesis
      using step Cons.prems update_fires_iff [OF Cons.prems(1), of True t]
      by (simp add: hold_events_Cons events_latched)
  next
    case False
    have "menu_events ?s (map (Pair True) ts) = hold_events (pressed_since_ms s) ts"
      using Cons.IH [OF inv step(1) False] Cons.prems(4) step by auto
    moreover have "fst (menu_update s True t) = VC_MENU_ACTIVATION_NONE"
      using False step(4) event_cases by blast
    moreover have "unat t - unat (pressed_since_ms s) < 5000"
      using False step(4) update_fires_iff [OF Cons.prems(1), of True t] Cons.prems by simp
    ultimately show ?thesis
      by (simp add: hold_events_Cons)
  qed
qed

section \<open>Properties\<close>

text \<open>C20. An event fires only at the end of an uninterrupted hold of at least five seconds: some
  earlier sample began a run of samples with Select down and timestamps that never go back, and the
  time between the two, computed without wrap-around, is at least 5000 ms.\<close>

theorem menu_fires_only_after_hold:
  assumes "k < length xs" and "menu_events menu_zero xs ! k = VC_MENU_ACTIVATION_TRIGGERED"
  shows "\<exists>i<k. holding (take (Suc k) xs) i \<and> 5000 \<le> unat (snd (xs ! k)) - unat (snd (xs ! i))"
proof -
  let ?s = "foldl menu_step menu_zero (take k xs)"
  have "fst (menu_update ?s (fst (xs ! k)) (snd (xs ! k))) = VC_MENU_ACTIVATION_TRIGGERED"
    using assms by (simp add: menu_events_nth)
  then have fires: "fst (xs ! k)" "pressed ?s" "\<not> latched ?s" "last_timestamp_ms ?s \<le> snd (xs ! k)"
    "5000 \<le> unat (snd (xs ! k)) - unat (pressed_since_ms ?s)"
    by (simp_all add: update_fires_iff [OF menu.inv_run [OF menu_inv_zero]])
  then obtain i where i: "holding (take k xs) i" "snd (take k xs ! i) = pressed_since_ms ?s"
    "snd (last (take k xs)) = last_timestamp_ms ?s"
    using menu_tracks_run [of "take k xs"] by (auto simp: menu_tracks_def)
  have "i < k"
    using i(1) by (simp add: holding_def)
  moreover have "holding (take (Suc k) xs) i"
    using assms(1) i fires by (simp add: take_Suc_conv_app_nth holding_snoc)
  ultimately show ?thesis
    using i(2) fires(5) by auto
qed

theorem menu_fires_only_after_hold_witness:
  "\<exists>i<2. holding (take (Suc 2) [(True, 10), (True, 4000), (True, 5010)]) i \<and>
    5000 \<le> unat (5010 :: uint64_t) - unat (snd ([(True, 10), (True, 4000), (True, 5010 :: uint64_t)] ! i))"
  using menu_fires_only_after_hold [of 2 "[(True, 10), (True, 4000), (True, 5010)]"]
  by (simp add: menu_update_def menu_step_def menu_zero_def VC_MENU_SELECT_HOLD_MS_def)

text \<open>C22. The event is one-shot: between two events there is a sample with Select released.\<close>

theorem menu_release_between_events:
  assumes "j < k" and "k < length xs"
    and "menu_events menu_zero xs ! j = VC_MENU_ACTIVATION_TRIGGERED"
    and "menu_events menu_zero xs ! k = VC_MENU_ACTIVATION_TRIGGERED"
  shows "\<exists>r. j < r \<and> r < k \<and> \<not> fst (xs ! r)"
proof -
  let ?s = "foldl menu_step menu_zero (take k xs)"
  have "fst (menu_update ?s (fst (xs ! k)) (snd (xs ! k))) = VC_MENU_ACTIVATION_TRIGGERED"
    using assms by (simp add: menu_events_nth)
  then have "\<not> latched ?s"
    by (simp add: update_fires_iff [OF menu.inv_run [OF menu_inv_zero]])
  then have "\<not> fired_since (take k xs)"
    using menu_tracks_run [of "take k xs"] by (simp add: menu_tracks_def)
  moreover have "menu_events menu_zero (take k xs) ! j = VC_MENU_ACTIVATION_TRIGGERED"
    using assms by (simp add: menu_events_nth min_def)
  ultimately obtain x where "x \<in> set (drop j (take k xs))" and "\<not> fst x"
    using assms(1,2) by (auto simp: fired_since_def)
  then obtain d where d: "d < k - j" "\<not> fst (xs ! (j + d))"
    using assms(1,2) by (auto simp: in_set_conv_nth)
  have "fst (xs ! j)"
    using assms(1-3) update_fires_iff [OF menu.inv_run [OF menu_inv_zero]]
    by (simp add: menu_events_nth)
  with d have "d \<noteq> 0"
    by (intro notI) simp
  with d show ?thesis
    by (intro exI [of _ "j + d"]) simp
qed

theorem menu_release_between_events_witness:
  "\<exists>r. 1 < r \<and> r < 4 \<and>
    \<not> fst ([(True, 0), (True, 5000), (False, 6000), (True, 7000), (True, 12000 :: uint64_t)] ! r)"
proof -
  have "menu_events menu_zero
      [(True, 0), (True, 5000), (False, 6000), (True, 7000), (True, 12000)] =
    [VC_MENU_ACTIVATION_NONE, VC_MENU_ACTIVATION_TRIGGERED, VC_MENU_ACTIVATION_NONE,
     VC_MENU_ACTIVATION_NONE, VC_MENU_ACTIVATION_TRIGGERED]"
    by code_simp
  then show ?thesis
    using menu_release_between_events [of 1 4
        "[(True, 0), (True, 5000), (False, 6000), (True, 7000), (True, 12000)]"]
    by simp
qed

text \<open>C21. A hold is never missed: from any reachable state without Select down, a run of samples with
  Select down and timestamps that never go back yields no event while less than 5000 ms have
  passed since its first sample, one event at the first sample at least 5000 ms later, and
  none after it.\<close>

theorem menu_hold_fires_once:
  assumes "\<not> pressed (foldl menu_step menu_zero before)" and "sorted (t # ts)"
  shows "menu_events (foldl menu_step menu_zero before) (map (Pair True) (t # ts)) =
    VC_MENU_ACTIVATION_NONE # hold_events t ts"
proof -
  let ?s = "foldl menu_step menu_zero before"
  let ?s1 = "menu_step ?s (True, t)"
  have "menu_inv ?s1"
    by (rule menu_inv_update) (rule menu.inv_run [OF menu_inv_zero])
  moreover have "pressed ?s1" and "\<not> latched ?s1" and "pressed_since_ms ?s1 = t"
    and "last_timestamp_ms ?s1 = t" and "fst (menu_update ?s True t) = VC_MENU_ACTIVATION_NONE"
    using assms(1) by (simp_all add: menu_step_def menu_update_def Let_def VC_MENU_SELECT_HOLD_MS_def)
  ultimately show ?thesis
    using assms(2) by (simp add: menu_events_holding)
qed

theorem menu_hold_fires_once_witness:
  "menu_events menu_zero (map (Pair True) [100, 2000, 5099, 5100, 9000]) =
    [VC_MENU_ACTIVATION_NONE, VC_MENU_ACTIVATION_NONE, VC_MENU_ACTIVATION_NONE,
     VC_MENU_ACTIVATION_TRIGGERED, VC_MENU_ACTIVATION_NONE]"
  using menu_hold_fires_once [of "[]" 100 "[2000, 5099, 5100, 9000]"]
  by (simp add: hold_events_Cons menu_zero_def)

end
