(* ===== verification/VC_Self_Test.thy ===== *)
theory VC_Self_Test
  imports VC_Search_Props VC_Menu
begin

unbundle bit_operations_syntax

text \<open>
  The scanner self-test of \<^verbatim>\<open>vita-self-test/main.c\<close>: the static arrays, the helpers and
  \<^verbatim>\<open>run_scanner_self_test\<close>, over the byte memory of the search routines. Where the objects lie is a
  record of addresses; \<open>objects_apart\<close> says what C guarantees of it, that distinct objects are not null and
  share no byte. The static tables of expected offsets are lists. A search may not return, as far as the
  model knows, so the result is an option; the theorem that the self-test passes includes that it returns.
\<close>

section \<open>Objects\<close>

definition SNAPSHOT_BYTES :: "'s::len word" where
  "SNAPSHOT_BYTES = 64"

definition RESULT_CAPACITY :: "'s::len word" where
  "RESULT_CAPACITY = 16"

record (overloaded) 's self_test_result =
  checks :: uint32_t
  failures :: uint32_t
  initial_matches :: "'s word"
  changed_matches :: "'s word"
  increased_matches :: "'s word"
  decreased_matches :: "'s word"
  unchanged_matches :: "'s word"

record (overloaded) 's self_test_objects =
  previous_snapshot :: "'s word"
  current_snapshot :: "'s word"
  candidate_array :: "'s word" \<comment> \<open>\<^verbatim>\<open>candidates\<close>\<close>
  refined :: "'s word"
  in_place :: "'s word"
  written_object :: "'s word" \<comment> \<open>the local variable \<^verbatim>\<open>written\<close>\<close>
  total_object :: "'s word" \<comment> \<open>the local variable \<^verbatim>\<open>total\<close>\<close>
  query_object :: "'s word" \<comment> \<open>\<^verbatim>\<open>query\<close> of \<^verbatim>\<open>run_scanner_self_test\<close>\<close>
  refine_query_object :: "'s word" \<comment> \<open>\<^verbatim>\<open>query\<close> of \<^verbatim>\<open>refine\<close>\<close>
  literal_query_object :: "'s word" \<comment> \<open>the compound literal\<close>
  sizeof_query :: "'s word"

section \<open>Helpers\<close>

text \<open>\<^verbatim>\<open>memset(bytes, 0, n)\<close> and \<^verbatim>\<open>memcpy(dst, src, n)\<close> for objects that do not overlap\<close>

definition zero_bytes :: "'s::len word \<Rightarrow> nat \<Rightarrow> 's memory \<Rightarrow> 's memory" where
  "zero_bytes bytes n m = (\<lambda>x. if unat (x - bytes) < n then 0 else m x)"

definition copy_bytes :: "'s::len word \<Rightarrow> 's word \<Rightarrow> nat \<Rightarrow> 's memory \<Rightarrow> 's memory" where
  "copy_bytes dst src n m = (\<lambda>x. if unat (x - dst) < n then m (src + (x - dst)) else m x)"

definition write_u32_le :: "'s::len word \<Rightarrow> 's word \<Rightarrow> uint32_t \<Rightarrow> 's memory \<Rightarrow> 's memory" where
  "write_u32_le bytes offset val m =
     m(bytes + offset := ucast val,
       bytes + (offset + 1) := ucast (drop_bit 8 val),
       bytes + (offset + 2) := ucast (drop_bit 16 val),
       bytes + (offset + 3) := ucast (drop_bit 24 val))"

definition check :: "bool \<Rightarrow> ('s::len, 'x) self_test_result_scheme \<Rightarrow> ('s, 'x) self_test_result_scheme" where
  "check passed report =
     (let report1 = report\<lparr>checks := checks report + 1\<rparr>
      in if \<not> passed then report1\<lparr>failures := failures report1 + 1\<rparr> else report1)"

definition offsets_equal :: "'s::len memory \<Rightarrow> 's word \<Rightarrow> 's word \<Rightarrow> uint32_t list \<Rightarrow> bool" where
  "offsets_equal m actual count expected \<longleftrightarrow>
     count = of_nat (length expected) \<and> load_array m actual (unat count) = expected"

definition u32_query :: "vc_relation \<Rightarrow> uint32_t \<Rightarrow> vc_query" where
  "u32_query r bits = \<lparr>scalar_type = VC_SCALAR_U32, relation = r, value_bits = bits, stride = 4\<rparr>"

text \<open>\<^verbatim>\<open>written = 0u; total = 0u;\<close>\<close>

definition reset_counters :: "('s::len, 'x) self_test_objects_scheme \<Rightarrow> 's memory \<Rightarrow> 's memory" where
  "reset_counters ob m =
     store_word (store_word m (written_object ob) (0 :: 's word)) (total_object ob) (0 :: 's word)"

definition initial_args ::
  "('s::len, 'x) self_test_objects_scheme \<Rightarrow> 's word \<Rightarrow> 's word \<Rightarrow> 's search_args" where
  "initial_args ob out cap =
     \<lparr>current = previous_snapshot ob, snapshot_size = SNAPSHOT_BYTES, query = query_object ob,
      query_value = u32_query VC_RELATION_EQUAL 100, query_bytes = sizeof_query ob,
      out_offsets = out, capacity = cap, written = written_object ob, total_matches = total_object ob\<rparr>"

definition self_refine_args ::
  "('s::len, 'x) self_test_objects_scheme \<Rightarrow> vc_relation \<Rightarrow> 's word \<Rightarrow> 's word \<Rightarrow> 's word \<Rightarrow> 's word \<Rightarrow>
   's refine_args" where
  "self_refine_args ob r query_at cands out cap =
     \<lparr>current = current_snapshot ob, snapshot_size = SNAPSHOT_BYTES, query = query_at,
      query_value = u32_query r 0, query_bytes = sizeof_query ob, out_offsets = out, capacity = cap,
      written = written_object ob, total_matches = total_object ob,
      previous = previous_snapshot ob, candidates = cands, candidate_count = 3\<rparr>"

definition refine ::
  "('s::len, 'x) self_test_objects_scheme \<Rightarrow> vc_relation \<Rightarrow> 's word \<Rightarrow> 's word \<Rightarrow> 's memory \<Rightarrow>
   vc_status \<times> 's memory" where
  "refine ob r output cap m =
     vc_search_refine (self_refine_args ob r (refine_query_object ob) (candidate_array ob) output cap) m"

section \<open>The self-test\<close>

definition zero_result :: "'s::len self_test_result" where
  "zero_result = \<lparr>checks = 0, failures = 0, initial_matches = 0, changed_matches = 0,
     increased_matches = 0, decreased_matches = 0, unchanged_matches = 0\<rparr>"

definition total_of :: "('s::len, 'x) self_test_objects_scheme \<Rightarrow> 's memory \<Rightarrow> 's word" where
  "total_of ob m = load_word m (total_object ob)"

definition written_of :: "('s::len, 'x) self_test_objects_scheme \<Rightarrow> 's memory \<Rightarrow> 's word" where
  "written_of ob m = load_word m (written_object ob)"

definition prepare_previous :: "('s::len, 'x) self_test_objects_scheme \<Rightarrow> 's memory \<Rightarrow> 's memory" where
  "prepare_previous ob m =
     write_u32_le (previous_snapshot ob) 36 100
       (write_u32_le (previous_snapshot ob) 20 100
         (write_u32_le (previous_snapshot ob) 4 100
           (zero_bytes (previous_snapshot ob) 64 m)))"

definition prepare_current :: "('s::len, 'x) self_test_objects_scheme \<Rightarrow> 's memory \<Rightarrow> 's memory" where
  "prepare_current ob m =
     write_u32_le (current_snapshot ob) 36 80
       (write_u32_le (current_snapshot ob) 4 120
         (copy_bytes (current_snapshot ob) (previous_snapshot ob) 64 m))"

text \<open>The four refinements, each with its check.\<close>

definition refine_check ::
  "('s::len, 'x) self_test_objects_scheme \<Rightarrow> vc_relation \<Rightarrow> uint32_t list \<Rightarrow>
   (('s word \<Rightarrow> 's word) \<Rightarrow> 's self_test_result \<Rightarrow> 's self_test_result) \<Rightarrow>
   's self_test_result \<times> 's memory \<Rightarrow> 's self_test_result \<times> 's memory" where
  "refine_check ob r expected field = (\<lambda>(report, m).
     let (status, m') = refine ob r (refined ob) RESULT_CAPACITY (reset_counters ob m)
     in (check (status = VC_STATUS_OK \<and> total_of ob m' = of_nat (length expected) \<and>
                offsets_equal m' (refined ob) (written_of ob m') expected)
          (field (\<lambda>_. total_of ob m') report), m'))"

definition decreased_check ::
  "('s::len, 'x) self_test_objects_scheme \<Rightarrow> 's self_test_result \<times> 's memory \<Rightarrow>
   's self_test_result \<times> 's memory" where
  "decreased_check ob = (\<lambda>(report, m).
     let m1 = reset_counters ob (copy_bytes (in_place ob) (candidate_array ob) 12 m);
         (status, m') = vc_search_refine
           (self_refine_args ob VC_RELATION_DECREASED (literal_query_object ob) (in_place ob) (in_place ob) 3) m1
     in (check (status = VC_STATUS_OK \<and> total_of ob m' = 1 \<and>
                offsets_equal m' (in_place ob) (written_of ob m') [36])
          (report\<lparr>decreased_matches := total_of ob m'\<rparr>), m'))"

definition run_scanner_self_test ::
  "('s::len, 'x) self_test_objects_scheme \<Rightarrow> 's memory \<Rightarrow> ('s self_test_result \<times> 's memory) option" where
  "run_scanner_self_test ob m =
     (case vc_search_initial (initial_args ob (candidate_array ob) RESULT_CAPACITY)
             (reset_counters ob (prepare_previous ob m)) of
        None \<Rightarrow> None
      | Some (status, m1) \<Rightarrow>
          let report1 = check (status = VC_STATUS_OK \<and> total_of ob m1 = 3 \<and> written_of ob m1 = 3 \<and>
                offsets_equal m1 (candidate_array ob) (written_of ob m1) [4, 20, 36])
                (zero_result\<lparr>initial_matches := total_of ob m1\<rparr>);
              changed = refine_check ob VC_RELATION_CHANGED [4, 36] changed_matches_update
                (report1, prepare_current ob m1);
              increased = refine_check ob VC_RELATION_INCREASED [4] increased_matches_update changed;
              decreased = decreased_check ob increased;
              (report5, m5) = refine_check ob VC_RELATION_UNCHANGED [20] unchanged_matches_update decreased
          in case vc_search_initial (initial_args ob (refined ob) 2) (reset_counters ob m5) of
               None \<Rightarrow> None
             | Some (status, m6) \<Rightarrow>
                 Some (check (status = VC_STATUS_TRUNCATED \<and> written_of ob m6 = 2 \<and>
                         total_of ob m6 = 3 \<and> load_array m6 (refined ob) 2 = [4, 20]) report5, m6))"

section \<open>What C guarantees of the objects\<close>

definition snapshot_ranges :: "('s::len, 'x) self_test_objects_scheme \<Rightarrow> ('s word \<times> nat) list" where
  "snapshot_ranges ob = [(previous_snapshot ob, 64), (current_snapshot ob, 64)]"

definition array_ranges :: "('s::len, 'x) self_test_objects_scheme \<Rightarrow> ('s word \<times> nat) list" where
  "array_ranges ob = [(candidate_array ob, 64), (refined ob, 64), (in_place ob, 12)]"

definition counter_ranges :: "('s::len, 'x) self_test_objects_scheme \<Rightarrow> ('s word \<times> nat) list" where
  "counter_ranges ob = [(written_object ob, LENGTH('s) div 8), (total_object ob, LENGTH('s) div 8)]"

definition query_ranges :: "('s::len, 'x) self_test_objects_scheme \<Rightarrow> ('s word \<times> nat) list" where
  "query_ranges ob = map (\<lambda>q. (q, unat (sizeof_query ob)))
     [query_object ob, refine_query_object ob, literal_query_object ob]"

definition object_ranges :: "('s::len, 'x) self_test_objects_scheme \<Rightarrow> ('s word \<times> nat) list" where
  "object_ranges ob = snapshot_ranges ob @ array_ranges ob @ counter_ranges ob @ query_ranges ob"

definition ranges_apart :: "'s::len word \<times> nat \<Rightarrow> 's word \<times> nat \<Rightarrow> bool" where
  "ranges_apart x y \<longleftrightarrow> apart (fst x) (snd x) (fst y) (snd y)"

definition objects_apart :: "('s::len, 'x) self_test_objects_scheme \<Rightarrow> bool" where
  "objects_apart ob \<longleftrightarrow>
     (\<forall>x \<in> set (object_ranges ob). fst x \<noteq> 0) \<and> sorted_wrt ranges_apart (object_ranges ob)"

lemma apart_commute: "apart l n r k \<longleftrightarrow> apart r k l n"
  by (auto simp: apart_def)

lemma apart_fewer: "apart l n r k \<Longrightarrow> n' \<le> n \<Longrightarrow> k' \<le> k \<Longrightarrow> apart l n' r k'"
  using span_mono [of n' n l] span_mono [of k' k r] by (auto simp: apart_def)

text \<open>Objects of different groups are apart.\<close>

lemma objects_groups:
  assumes "objects_apart ob" and "x \<in> set (snapshot_ranges ob)" and "y \<in> set (array_ranges ob)"
    and "z \<in> set (counter_ranges ob)" and "q \<in> set (query_ranges ob)"
  shows "ranges_apart x y" "ranges_apart x z" "ranges_apart y z" "ranges_apart y q" "ranges_apart z q"
    "fst x \<noteq> 0" "fst y \<noteq> 0" "fst z \<noteq> 0" "fst q \<noteq> 0"
  using assms by (auto simp: objects_apart_def object_ranges_def sorted_wrt_append)

text \<open>The arguments of a search: objects of the groups they belong to, used no further than they reach.\<close>

lemma self_test_placed:
  fixes ob :: "('s::len, 'x) self_test_objects_scheme" and a :: "('s, 'y) search_args_scheme"
  assumes target: "supported_target TYPE('s)" and ob: "objects_apart ob"
    and cur: "(current a, 64) \<in> set (snapshot_ranges ob)"
    and out: "(out_offsets a, n) \<in> set (array_ranges ob)"
    and qry: "(query a, unat (sizeof_query ob)) \<in> set (query_ranges ob)"
    and fields: "snapshot_size a = SNAPSHOT_BYTES" "query_bytes a = sizeof_query ob"
      "written a = written_object ob" "total_matches a = total_object ob" "4 * unat (capacity a) \<le> n"
  shows "well_placed a"
proof -
  have "LENGTH('s) = 32 \<or> LENGTH('s) = 64"
    using target by (simp add: supported_target_def)
  moreover have "n \<le> 64"
    using out by (auto simp: array_ranges_def)
  ultimately have sizes: "unat (snapshot_size a) = 64" "4 * unat (capacity a) < 2 ^ LENGTH('s)"
    using fields by (auto simp: SNAPSHOT_BYTES_def)
  have counters: "(written_object ob, LENGTH('s) div 8) \<in> set (counter_ranges ob)"
    "(total_object ob, LENGTH('s) div 8) \<in> set (counter_ranges ob)"
    by (simp_all add: counter_ranges_def)
  have "ranges_apart (written_object ob, LENGTH('s) div 8) (total_object ob, LENGTH('s) div 8)"
    using ob by (simp add: objects_apart_def object_ranges_def sorted_wrt_append counter_ranges_def)
  note groups = objects_groups [OF ob cur out counters(1) qry] objects_groups [OF ob cur out counters(2) qry]
    this
  note apart = groups [unfolded ranges_apart_def fst_conv snd_conv]
  have "apart (out_offsets a) (4 * unat (capacity a)) r k" if "apart (out_offsets a) n r k" for r k
    using that fields(5) by (rule apart_fewer) simp
  then show ?thesis
    using apart sizes fields(1-4) apart_commute [of "current a" 64]
    by (simp add: well_placed_def Let_def)
qed

lemma self_test_refine_placed:
  fixes ob :: "('s::len, 'x) self_test_objects_scheme" and a :: "('s, 'y) refine_args_scheme"
  assumes target: "supported_target TYPE('s)" and ob: "objects_apart ob" and placed: "well_placed a"
    and prev: "(previous a, 64) \<in> set (snapshot_ranges ob)"
    and out: "(out_offsets a, n) \<in> set (array_ranges ob)" and cand: "(candidates a, k) \<in> set (array_ranges ob)"
    and fields: "snapshot_size a = SNAPSHOT_BYTES" "written a = written_object ob"
      "total_matches a = total_object ob" "4 * unat (capacity a) \<le> n" "4 * unat (candidate_count a) \<le> k"
    and different: "out_offsets a = candidates a \<or> apart (candidates a) k (out_offsets a) n"
  shows "refine_placed a"
proof -
  have "LENGTH('s) = 32 \<or> LENGTH('s) = 64"
    using target by (simp add: supported_target_def)
  moreover have "k \<le> 64"
    using cand by (auto simp: array_ranges_def)
  ultimately have sizes: "unat (snapshot_size a) = 64" "4 * unat (candidate_count a) < 2 ^ LENGTH('s)"
    using fields by (auto simp: SNAPSHOT_BYTES_def)
  have counters: "(written_object ob, LENGTH('s) div 8) \<in> set (counter_ranges ob)"
    "(total_object ob, LENGTH('s) div 8) \<in> set (counter_ranges ob)"
    and qry: "(query_object ob, unat (sizeof_query ob)) \<in> set (query_ranges ob)"
    by (simp_all add: counter_ranges_def query_ranges_def)
  note groups = objects_groups [OF ob prev out counters(1) qry] objects_groups [OF ob prev out counters(2) qry]
    objects_groups [OF ob prev cand counters(1) qry] objects_groups [OF ob prev cand counters(2) qry]
  note apart = groups [unfolded ranges_apart_def fst_conv snd_conv]
  have fewer: "apart l i r j" if "apart l i' r j'" "i \<le> i'" "j \<le> j'" for l r :: "'s word" and i i' j j'
    using that by (rule apart_fewer)
  have "out_offsets a = candidates a \<or>
      apart (candidates a) (4 * unat (candidate_count a)) (out_offsets a) (4 * unat (capacity a))"
    using different fields(4,5) fewer by blast
  moreover have "apart (previous a) 64 (out_offsets a) (4 * unat (capacity a))"
    using apart(1) fields(4) by (rule fewer [OF _ order_refl])
  moreover have "apart (written_object ob) (LENGTH('s) div 8) (candidates a) (4 * unat (candidate_count a))"
    "apart (total_object ob) (LENGTH('s) div 8) (candidates a) (4 * unat (candidate_count a))"
    using apart(21,30) fields(5) by (auto simp: apart_commute [of _ _ "candidates a"] intro: fewer)
  ultimately show ?thesis
    using placed sizes fields(1-3) apart apart_commute [of _ _ "previous a" 64]
    by (simp add: refine_placed_def Let_def)
qed

section \<open>Writing the snapshots\<close>

lemma snapshot_update:
  fixes a :: "'s::len word"
  assumes "i < n" and "n \<le> 2 ^ LENGTH('s)"
  shows "snapshot (m(a + of_nat i := v)) a n = (snapshot m a n)[i := v]"
proof (rule nth_equalityI)
  fix j
  assume "j < length (snapshot (m(a + of_nat i := v)) a n)"
  then have j: "j < n"
    by simp
  have "a + of_nat j = a + (of_nat i :: 's word) \<longleftrightarrow> j = i"
    using assms j by (metis add_left_cancel order.strict_trans2 unat_of_nat_small)
  with j show "snapshot (m(a + of_nat i := v)) a n ! j = (snapshot m a n)[i := v] ! j"
    by (simp add: snapshot_def nth_list_update)
qed simp

lemma snapshot_write_u32:
  fixes a :: "'s::len word"
  assumes "k + 4 \<le> n" and "n \<le> 2 ^ LENGTH('s)"
  shows "snapshot (write_u32_le a (of_nat k) v m) a n =
    (snapshot m a n)[k := ucast v, k + 1 := ucast (drop_bit 8 v), k + 2 := ucast (drop_bit 16 v),
      k + 3 := ucast (drop_bit 24 v)]"
proof -
  have "of_nat k + 1 = (of_nat (k + 1) :: 's word)" "of_nat k + 2 = (of_nat (k + 2) :: 's word)"
    "of_nat k + 3 = (of_nat (k + 3) :: 's word)"
    by simp_all
  then show ?thesis
    using assms unfolding write_u32_le_def by (simp only: snapshot_update)
qed

text \<open>\<open>frame S m m'\<close>: nothing outside \<open>S\<close> has changed.\<close>

definition frame :: "'s word set \<Rightarrow> 's::len memory \<Rightarrow> 's memory \<Rightarrow> bool" where
  "frame S m m' \<longleftrightarrow> (\<forall>x. x \<notin> S \<longrightarrow> m' x = m x)"

lemma frame_trans: "frame S m m' \<Longrightarrow> frame T m' m'' \<Longrightarrow> S \<subseteq> U \<Longrightarrow> T \<subseteq> U \<Longrightarrow> frame U m m''"
  unfolding frame_def by (metis subsetD)

lemma frame_again: "frame S m m' \<Longrightarrow> frame S m' m'' \<Longrightarrow> frame S m m''"
  by (simp add: frame_def)

lemma frame_mono: "frame S m m' \<Longrightarrow> S \<subseteq> U \<Longrightarrow> frame U m m'"
  unfolding frame_def by blast

lemma frame_snapshot: "frame S m m' \<Longrightarrow> span a n \<inter> S = {} \<Longrightarrow> snapshot m' a n = snapshot m a n"
  by (intro snapshot_cong) (auto simp: frame_def)

lemma frame_array: "frame S m m' \<Longrightarrow> span a (4 * n) \<inter> S = {} \<Longrightarrow> load_array m' a n = load_array m a n"
  by (intro load_array_cong) (auto simp: frame_def)

lemma frame_write_u32:
  fixes a :: "'s::len word"
  assumes "k + 4 \<le> n"
  shows "frame (span a n) m (write_u32_le a (of_nat k) v m)"
proof -
  have "a + of_nat (k + i) \<in> span a n" if "i < 4" for i
    using assms that by (intro add_of_nat_in_span) simp
  from this [of 0] this [of 1] this [of 2] this [of 3] show ?thesis
    by (auto simp: frame_def write_u32_le_def algebra_simps)
qed

lemma frame_zero: "frame (span a n) m (zero_bytes a n m)"
  by (simp add: frame_def zero_bytes_def span_def)

lemma frame_copy: "frame (span dst n) m (copy_bytes dst src n m)"
  by (simp add: frame_def copy_bytes_def span_def)

lemma snapshot_zero:
  fixes a :: "'s::len word"
  shows "snapshot (zero_bytes a n m) a n = replicate n 0"
  using add_of_nat_in_span [of _ n a]
  by (intro nth_equalityI) (simp_all add: snapshot_def zero_bytes_def span_def)

lemma copied_byte:
  fixes dst :: "'s::len word"
  assumes "i < n" and "n \<le> 2 ^ LENGTH('s)"
  shows "copy_bytes dst src n m (dst + of_nat i) = m (src + of_nat i)"
  using assms by (simp add: copy_bytes_def unat_of_nat_small)

lemma snapshot_copy:
  fixes dst :: "'s::len word"
  assumes "n \<le> 2 ^ LENGTH('s)"
  shows "snapshot (copy_bytes dst src n m) dst n = snapshot m src n"
  using copied_byte [OF _ assms] by (intro nth_equalityI) (simp_all add: snapshot_def)

lemma load_array_copy:
  fixes dst :: "'s::len word"
  assumes "4 * n \<le> 2 ^ LENGTH('s)"
  shows "load_array (copy_bytes dst src (4 * n) m) dst n = load_array m src n"
proof (rule nth_equalityI)
  fix i
  assume "i < length (load_array (copy_bytes dst src (4 * n) m) dst n)"
  then have i: "i < n"
    by simp
  have "copy_bytes dst src (4 * n) m (dst + 4 * of_nat i + of_nat j) = m (src + 4 * of_nat i + of_nat j)"
    if "j < 4" for j
    using copied_byte [of "4 * i + j" "4 * n" dst src m] assms i that by (simp add: add.assoc)
  then show "load_array (copy_bytes dst src (4 * n) m) dst n ! i = load_array m src n ! i"
    using i by (auto simp: load_word_def intro!: arg_cong [where f = le_word])
qed simp

definition previous_bytes :: "uint8_t list" where
  "previous_bytes = (replicate 64 0)[4 := 100, 20 := 100, 36 := 100]"

definition current_bytes :: "uint8_t list" where
  "current_bytes = previous_bytes[4 := 120, 36 := 80]"

lemma written_bytes:
  "(replicate 64 0)[4 := 100, 5 := 0, 6 := 0, 7 := 0, 20 := 100, 21 := 0, 22 := 0, 23 := 0,
     36 := 100, 37 := 0, 38 := 0, 39 := 0] = previous_bytes"
  "previous_bytes[4 := 120, 5 := 0, 6 := 0, 7 := 0, 36 := 80, 37 := 0, 38 := 0, 39 := 0] = current_bytes"
  by code_simp+

lemma target_sizes:
  assumes "supported_target TYPE('s::len)"
  shows "64 \<le> (2::nat) ^ LENGTH('s)" "unat (3 :: 's word) = 3" "unat (2 :: 's word) = 2"
    "unat (RESULT_CAPACITY :: 's word) = 16" "unat (SNAPSHOT_BYTES :: 's word) = 64"
proof -
  have "LENGTH('s) = 32 \<or> LENGTH('s) = 64"
    using assms by (simp add: supported_target_def)
  then show "64 \<le> (2::nat) ^ LENGTH('s)" "unat (3 :: 's word) = 3" "unat (2 :: 's word) = 2"
    "unat (RESULT_CAPACITY :: 's word) = 16" "unat (SNAPSHOT_BYTES :: 's word) = 64"
    by (auto simp: RESULT_CAPACITY_def SNAPSHOT_BYTES_def)
qed

lemma prepared_previous:
  fixes ob :: "('s::len, 'x) self_test_objects_scheme"
  assumes "supported_target TYPE('s)"
  shows "snapshot (prepare_previous ob m) (previous_snapshot ob) 64 = previous_bytes"
    and "frame (span (previous_snapshot ob) 64) m (prepare_previous ob m)"
proof -
  note bytes = snapshot_write_u32 [OF _ target_sizes(1) [OF assms], of 4]
    snapshot_write_u32 [OF _ target_sizes(1) [OF assms], of 20]
    snapshot_write_u32 [OF _ target_sizes(1) [OF assms], of 36]
  show "snapshot (prepare_previous ob m) (previous_snapshot ob) 64 = previous_bytes"
    using bytes by (simp add: prepare_previous_def snapshot_zero written_bytes)
  have steps: "frame (span (previous_snapshot ob) 64) m' (write_u32_le (previous_snapshot ob) 4 v m')"
    "frame (span (previous_snapshot ob) 64) m' (write_u32_le (previous_snapshot ob) 20 v m')"
    "frame (span (previous_snapshot ob) 64) m' (write_u32_le (previous_snapshot ob) 36 v m')" for m' v
    using frame_write_u32 [of 4 64 "previous_snapshot ob" m' v]
      frame_write_u32 [of 20 64 "previous_snapshot ob" m' v]
      frame_write_u32 [of 36 64 "previous_snapshot ob" m' v] by simp_all
  show "frame (span (previous_snapshot ob) 64) m (prepare_previous ob m)"
    unfolding prepare_previous_def
    by (rule frame_again [OF frame_again [OF frame_again [OF frame_zero steps(1)] steps(2)] steps(3)])
qed

lemma prepared_current:
  fixes ob :: "('s::len, 'x) self_test_objects_scheme"
  assumes "supported_target TYPE('s)" and "snapshot m (previous_snapshot ob) 64 = previous_bytes"
  shows "snapshot (prepare_current ob m) (current_snapshot ob) 64 = current_bytes"
    and "frame (span (current_snapshot ob) 64) m (prepare_current ob m)"
proof -
  note bytes = snapshot_write_u32 [OF _ target_sizes(1) [OF assms(1)], of 4]
    snapshot_write_u32 [OF _ target_sizes(1) [OF assms(1)], of 36]
  show "snapshot (prepare_current ob m) (current_snapshot ob) 64 = current_bytes"
    using bytes by (simp add: prepare_current_def snapshot_copy target_sizes(1) [OF assms(1)] assms(2)
        written_bytes)
  have steps: "frame (span (current_snapshot ob) 64) m' (write_u32_le (current_snapshot ob) 4 v m')"
    "frame (span (current_snapshot ob) 64) m' (write_u32_le (current_snapshot ob) 36 v m')" for m' v
    using frame_write_u32 [of 4 64 "current_snapshot ob" m' v]
      frame_write_u32 [of 36 64 "current_snapshot ob" m' v] by simp_all
  show "frame (span (current_snapshot ob) 64) m (prepare_current ob m)"
    unfolding prepare_current_def
    by (rule frame_again [OF frame_again [OF frame_copy steps(1)] steps(2)])
qed

lemma self_test_hits:
  "initial_hits (u32_query VC_RELATION_EQUAL 100) previous_bytes = [4, 20, 36]"
  "refine_hits (u32_query VC_RELATION_CHANGED 0) previous_bytes current_bytes [4, 20, 36] = [4, 36]"
  "refine_hits (u32_query VC_RELATION_INCREASED 0) previous_bytes current_bytes [4, 20, 36] = [4]"
  "refine_hits (u32_query VC_RELATION_DECREASED 0) previous_bytes current_bytes [4, 20, 36] = [36]"
  "refine_hits (u32_query VC_RELATION_UNCHANGED 0) previous_bytes current_bytes [4, 20, 36] = [20]"
  by code_simp+

section \<open>The steps of the self-test\<close>

text \<open>What the refinements write: the result arrays and the counters.\<close>

definition scratch_bytes :: "('s::len, 'x) self_test_objects_scheme \<Rightarrow> 's word set" where
  "scratch_bytes ob =
     span (refined ob) 64 \<union> span (in_place ob) 12 \<union> span (written_object ob) (LENGTH('s) div 8) \<union>
     span (total_object ob) (LENGTH('s) div 8)"

definition self_test_ready :: "('s::len, 'x) self_test_objects_scheme \<Rightarrow> 's memory \<Rightarrow> bool" where
  "self_test_ready ob m \<longleftrightarrow>
     snapshot m (previous_snapshot ob) 64 = previous_bytes \<and>
     snapshot m (current_snapshot ob) 64 = current_bytes \<and>
     load_array m (candidate_array ob) 3 = [4, 20, 36]"

lemma objects_disjoint:
  fixes ob :: "('s::len, 'x) self_test_objects_scheme"
  assumes ob: "objects_apart ob"
  shows "span (previous_snapshot ob) 64 \<inter> scratch_bytes ob = {}"
    and "span (current_snapshot ob) 64 \<inter> scratch_bytes ob = {}"
    and "span (candidate_array ob) 64 \<inter> scratch_bytes ob = {}"
    and "span (previous_snapshot ob) 64 \<inter> span (current_snapshot ob) 64 = {}"
    and "span (previous_snapshot ob) 64 \<inter> span (candidate_array ob) 64 = {}"
    and "span (candidate_array ob) 64 \<inter> span (current_snapshot ob) 64 = {}"
    and "span (in_place ob) 12 \<inter> (span (written_object ob) (LENGTH('s) div 8) \<union>
      span (total_object ob) (LENGTH('s) div 8)) = {}"
proof -
  have disjoint: "ranges_apart x y \<Longrightarrow> fst x \<noteq> 0 \<Longrightarrow> fst y \<noteq> 0 \<Longrightarrow>
      span (fst x) (snd x) \<inter> span (fst y) (snd y) = {}" for x y :: "'s word \<times> nat"
    unfolding ranges_apart_def by (rule apart_disjoint) simp_all
  have qry: "(query_object ob, unat (sizeof_query ob)) \<in> set (query_ranges ob)"
    by (simp add: query_ranges_def)
  have meet: "span (fst x) (snd x) \<inter> span (fst y) (snd y) = {}" "span (fst x) (snd x) \<inter> span (fst z) (snd z) = {}"
    "span (fst y) (snd y) \<inter> span (fst z) (snd z) = {}"
    if "x \<in> set (snapshot_ranges ob)" "y \<in> set (array_ranges ob)" "z \<in> set (counter_ranges ob)" for x y z
    using objects_groups [OF ob that qry] by (simp_all add: disjoint)
  note members = snapshot_ranges_def array_ranges_def counter_ranges_def
  have arrays: "span (candidate_array ob) 64 \<inter> span (refined ob) 64 = {}"
    "span (candidate_array ob) 64 \<inter> span (in_place ob) 12 = {}"
    "span (previous_snapshot ob) 64 \<inter> span (current_snapshot ob) 64 = {}"
    using ob disjoint [of "(candidate_array ob, 64)" "(refined ob, 64)"]
      disjoint [of "(candidate_array ob, 64)" "(in_place ob, 12)"]
      disjoint [of "(previous_snapshot ob, 64)" "(current_snapshot ob, 64)"]
    by (simp_all add: objects_apart_def object_ranges_def sorted_wrt_append members)
  have pairs: "span x 64 \<inter> span (refined ob) 64 = {}" "span x 64 \<inter> span (in_place ob) 12 = {}"
    "span x 64 \<inter> span (written_object ob) (LENGTH('s) div 8) = {}"
    "span x 64 \<inter> span (total_object ob) (LENGTH('s) div 8) = {}"
    "span x 64 \<inter> span (candidate_array ob) 64 = {}"
    if "x \<in> {previous_snapshot ob, current_snapshot ob}" for x
    using that meet [of "(x, 64)" "(refined ob, 64)" "(written_object ob, LENGTH('s) div 8)"]
      meet [of "(x, 64)" "(in_place ob, 12)" "(total_object ob, LENGTH('s) div 8)"]
      meet [of "(x, 64)" "(candidate_array ob, 64)" "(total_object ob, LENGTH('s) div 8)"]
    by (simp_all add: members)
  have counters: "span y n \<inter> span (written_object ob) (LENGTH('s) div 8) = {}"
    "span y n \<inter> span (total_object ob) (LENGTH('s) div 8) = {}" if "(y, n) \<in> set (array_ranges ob)" for y n
    using that meet(3) [of "(previous_snapshot ob, 64)" "(y, n)" "(written_object ob, LENGTH('s) div 8)"]
      meet(3) [of "(previous_snapshot ob, 64)" "(y, n)" "(total_object ob, LENGTH('s) div 8)"]
    by (simp_all add: snapshot_ranges_def counter_ranges_def)
  show "span (previous_snapshot ob) 64 \<inter> scratch_bytes ob = {}" "span (current_snapshot ob) 64 \<inter> scratch_bytes ob = {}"
    using pairs by (simp_all add: scratch_bytes_def Int_Un_distrib)
  show "span (candidate_array ob) 64 \<inter> scratch_bytes ob = {}"
    using arrays counters [of "candidate_array ob" 64]
    by (simp add: scratch_bytes_def Int_Un_distrib array_ranges_def)
  show "span (previous_snapshot ob) 64 \<inter> span (current_snapshot ob) 64 = {}"
    "span (previous_snapshot ob) 64 \<inter> span (candidate_array ob) 64 = {}"
    using arrays pairs by simp_all
  show "span (candidate_array ob) 64 \<inter> span (current_snapshot ob) 64 = {}"
    using pairs(5) [of "current_snapshot ob"] by (simp add: Int_commute)
  show "span (in_place ob) 12 \<inter> (span (written_object ob) (LENGTH('s) div 8) \<union>
      span (total_object ob) (LENGTH('s) div 8)) = {}"
    using counters [of "in_place ob" 12] by (simp add: Int_Un_distrib array_ranges_def)
qed

lemma ready_frame:
  assumes "objects_apart ob" and "self_test_ready ob m" and "frame (scratch_bytes ob) m m'"
  shows "self_test_ready ob m'"
proof -
  have "span (candidate_array ob) 12 \<inter> scratch_bytes ob = {}"
    using objects_disjoint(3) [OF assms(1)] span_mono [of 12 64 "candidate_array ob"] by auto
  then have "load_array m' (candidate_array ob) 3 = load_array m (candidate_array ob) 3"
    by (intro frame_array [OF assms(3)]) simp
  with assms(2) show ?thesis
    using frame_snapshot [OF assms(3) objects_disjoint(1) [OF assms(1)]]
      frame_snapshot [OF assms(3) objects_disjoint(2) [OF assms(1)]]
    by (simp add: self_test_ready_def)
qed

lemma reset_frame:
  fixes ob :: "('s::len, 'x) self_test_objects_scheme"
  shows "frame (span (written_object ob) (LENGTH('s) div 8) \<union> span (total_object ob) (LENGTH('s) div 8))
    m (reset_counters ob m)"
  unfolding frame_def reset_counters_def by (auto simp: store_word_outside)

text \<open>What an outcome of a search over these objects means.\<close>

lemma self_test_outcome:
  fixes ob :: "('s::len, 'x) self_test_objects_scheme" and a :: "('s, 'y) search_args_scheme"
  assumes outcome: "search_outcome a m hits status m'"
    and fields: "written a = written_object ob" "total_matches a = total_object ob"
    and room: "length hits \<le> unat (capacity a)"
  shows "status = VC_STATUS_OK" "load_array m' (out_offsets a) (length hits) = hits"
    "written_of ob m' = of_nat (length hits)" "total_of ob m' = of_nat (length hits)"
    "frame (span (out_offsets a) (4 * length hits) \<union> span (written_object ob) (LENGTH('s) div 8) \<union>
      span (total_object ob) (LENGTH('s) div 8)) m m'"
proof -
  have count: "w = of_nat n" if "unat w = n" for w :: "'s word" and n
    using that by auto
  show "status = VC_STATUS_OK" "load_array m' (out_offsets a) (length hits) = hits"
    "frame (span (out_offsets a) (4 * length hits) \<union> span (written_object ob) (LENGTH('s) div 8) \<union>
      span (total_object ob) (LENGTH('s) div 8)) m m'"
    using outcome room by (simp_all add: search_outcome_def Let_def fields frame_def)
  show "written_of ob m' = of_nat (length hits)" "total_of ob m' = of_nat (length hits)"
    using outcome room
    by (auto simp: search_outcome_def Let_def fields written_of_def total_of_def intro!: count)
qed

lemma u32_query_ok: "well_formed_query (u32_query r bits) \<longleftrightarrow> (\<forall>n. r \<noteq> VC_RELATION_BEYOND n)"
  by (simp add: well_formed_query_def u32_query_def)

text \<open>A refinement of the prepared snapshots.\<close>

lemma self_test_refine:
  fixes ob :: "('s::len, 'x) self_test_objects_scheme"
  assumes target: "supported_target TYPE('s)" and ob: "objects_apart ob"
    and snaps: "snapshot m (previous_snapshot ob) 64 = previous_bytes"
      "snapshot m (current_snapshot ob) 64 = current_bytes" "load_array m cands 3 = [4, 20, 36]"
    and rel: "\<forall>n. r \<noteq> VC_RELATION_BEYOND n"
    and q: "(q, unat (sizeof_query ob)) \<in> set (query_ranges ob)"
    and arrays: "cands = candidate_array ob \<and> out = refined ob \<and> cap = RESULT_CAPACITY \<or>
      cands = in_place ob \<and> out = in_place ob \<and> cap = 3"
    and hits: "refine_hits (u32_query r 0) previous_bytes current_bytes [4, 20, 36] = hits" "length hits \<le> 3"
  shows "\<exists>m'. vc_search_refine (self_refine_args ob r q cands out cap) m = (VC_STATUS_OK, m') \<and>
    load_array m' out (length hits) = hits \<and> written_of ob m' = of_nat (length hits) \<and>
    total_of ob m' = of_nat (length hits) \<and> frame (scratch_bytes ob) m m'"
proof -
  let ?a = "self_refine_args ob r q cands out cap"
  note sizes = target_sizes [OF target]
  obtain n where n: "(out, n) \<in> set (array_ranges ob)" "4 * unat cap \<le> n" "3 \<le> unat cap" "n \<in> {12, 64}"
  proof -
    from arrays consider "out = refined ob" "cap = RESULT_CAPACITY" | "out = in_place ob" "cap = 3"
      by blast
    then show thesis
      using that [of 64] that [of 12] sizes by cases (simp_all add: array_ranges_def)
  qed
  obtain k where k: "(cands, k) \<in> set (array_ranges ob)" "12 \<le> k"
    and different: "out = cands \<or> apart cands k out n"
  proof (cases "out = cands")
    case True
    with n that [of n] show ?thesis
      by auto
  next
    case False
    with arrays n(1) have "cands = candidate_array ob" "out = refined ob" "n = 64 \<or> refined ob = in_place ob"
      by (auto simp: array_ranges_def)
    with ob n(1) that [of 64] show ?thesis
      by (auto simp: objects_apart_def object_ranges_def sorted_wrt_append array_ranges_def ranges_apart_def)
  qed
  have snapshots: "(previous_snapshot ob, 64) \<in> set (snapshot_ranges ob)"
    "(current_snapshot ob, 64) \<in> set (snapshot_ranges ob)"
    by (simp_all add: snapshot_ranges_def)
  have placed: "well_placed ?a"
    by (rule self_test_placed [OF target ob _ _ _, where n = n])
      (use n(1,2) q snapshots in \<open>simp_all add: self_refine_args_def\<close>)
  have refine: "refine_placed ?a"
    by (rule self_test_refine_placed [OF target ob placed, where n = n and k = k])
      (use n(1,2) k different snapshots sizes in \<open>simp_all add: self_refine_args_def\<close>)
  have cs: "refine_candidates ?a m = [4, 20, 36]"
    using snaps(3) sizes by (simp add: refine_candidates_def self_refine_args_def)
  have "valid_candidates [4, 20, 36] 64 4"
    by (simp add: valid_candidates_def)
  then have "refine_accepted ?a m"
    unfolding refine_accepted_def cs using refine rel sizes
    by (simp add: self_refine_args_def u32_query_ok) (simp add: u32_query_def)
  from vc_search_refine_run [OF target this] obtain status m'
    where run: "vc_search_refine ?a m = (status, m')"
      and outcome: "search_outcome ?a m hits status m'"
    using snaps sizes hits(1) cs by (auto simp: self_refine_args_def)
  have fields: "written ?a = written_object ob" "total_matches ?a = total_object ob" "out_offsets ?a = out"
    "capacity ?a = cap"
    by (simp_all add: self_refine_args_def)
  note result = self_test_outcome [OF outcome fields(1,2), unfolded fields(3,4)]
  have room: "length hits \<le> unat cap"
    using hits(2) n(3) by simp
  have "span out (4 * length hits) \<subseteq> scratch_bytes ob"
  proof -
    have "span out (4 * length hits) \<subseteq> span out 12"
      using hits(2) by (intro span_mono) simp
    moreover have "span out 12 \<subseteq> span out 64"
      by (rule span_mono) simp
    ultimately show ?thesis
      using arrays by (auto simp: scratch_bytes_def)
  qed
  then have "frame (scratch_bytes ob) m m'"
    by (rule frame_mono [OF result(5) [OF room], OF Un_least [OF Un_least]]) (auto simp: scratch_bytes_def)
  with run result [OF room] show ?thesis
    by blast
qed


section \<open>The self-test passes\<close>

lemma self_test_initial:
  fixes ob :: "('s::len, 'x) self_test_objects_scheme"
  assumes target: "supported_target TYPE('s)" and ob: "objects_apart ob"
    and snap: "snapshot m (previous_snapshot ob) 64 = previous_bytes"
    and out: "out = candidate_array ob \<or> out = refined ob" and cap: "4 * unat cap \<le> 64"
  shows "\<exists>status m'. vc_search_initial (initial_args ob out cap) m = Some (status, m') \<and>
    search_outcome (initial_args ob out cap) m [4, 20, 36] status m'"
proof -
  let ?a = "initial_args ob out cap"
  note sizes = target_sizes [OF target]
  have placed: "well_placed ?a"
    by (rule self_test_placed [OF target ob, where n = 64])
      (use out cap in \<open>auto simp: initial_args_def array_ranges_def snapshot_ranges_def query_ranges_def\<close>)
  have query: "well_formed_query (query_value ?a)" "relation (query_value ?a) = VC_RELATION_EQUAL"
    by (simp_all add: initial_args_def u32_query_ok) (simp add: u32_query_def)
  have "snapshot m (current ?a) (unat (snapshot_size ?a)) = previous_bytes"
    using snap sizes by (simp add: initial_args_def)
  moreover have "query_value ?a = u32_query VC_RELATION_EQUAL 100"
    by (simp add: initial_args_def)
  ultimately show ?thesis
    using vc_search_initial_run [OF target placed query(1), of m] query(2) by (simp add: self_test_hits)
qed

lemma refine_check_passes:
  fixes ob :: "('s::len, 'x) self_test_objects_scheme"
  assumes target: "supported_target TYPE('s)" and ob: "objects_apart ob" and ready: "self_test_ready ob m"
    and rel: "\<forall>n. r \<noteq> VC_RELATION_BEYOND n"
    and hits: "refine_hits (u32_query r 0) previous_bytes current_bytes [4, 20, 36] = expected" "length expected \<le> 3"
  shows "\<exists>m'. refine_check ob r expected field (report, m) =
      (check True (field (\<lambda>_. of_nat (length expected)) report), m') \<and>
    self_test_ready ob m' \<and> frame (scratch_bytes ob) m m'"
proof -
  let ?m = "reset_counters ob m"
  have reset: "frame (scratch_bytes ob) m ?m"
    using reset_frame by (rule frame_mono) (auto simp: scratch_bytes_def)
  then have ready': "self_test_ready ob ?m"
    by (rule ready_frame [OF ob ready])
  have "(refine_query_object ob, unat (sizeof_query ob)) \<in> set (query_ranges ob)"
    by (simp add: query_ranges_def)
  then obtain m' where run: "vc_search_refine (self_refine_args ob r (refine_query_object ob) (candidate_array ob)
      (refined ob) RESULT_CAPACITY) ?m = (VC_STATUS_OK, m')"
    and m': "load_array m' (refined ob) (length expected) = expected"
      "written_of ob m' = of_nat (length expected)" "total_of ob m' = of_nat (length expected)"
      "frame (scratch_bytes ob) ?m m'"
    using self_test_refine [OF target ob _ _ _ rel _ _ hits, of ?m "candidate_array ob"
        "refine_query_object ob" "refined ob" RESULT_CAPACITY] ready'
    by (auto simp: self_test_ready_def)
  have "length expected < 2 ^ LENGTH('s)"
    using hits(2) target_sizes(1) [OF target] by linarith
  then have "offsets_equal m' (refined ob) (written_of ob m') expected"
    using m' by (simp add: offsets_equal_def unat_of_nat_small)
  with run m'(3) have "refine_check ob r expected field (report, m) =
      (check True (field (\<lambda>_. of_nat (length expected)) report), m')"
    by (simp add: refine_check_def refine_def)
  moreover have "self_test_ready ob m'"
    using ready' m'(4) by (rule ready_frame [OF ob])
  moreover have "frame (scratch_bytes ob) m m'"
    using reset m'(4) by (rule frame_again)
  ultimately show ?thesis
    by blast
qed

lemma decreased_check_passes:
  fixes ob :: "('s::len, 'x) self_test_objects_scheme"
  assumes target: "supported_target TYPE('s)" and ob: "objects_apart ob" and ready: "self_test_ready ob m"
  shows "\<exists>m'. decreased_check ob (report, m) = (check True (report\<lparr>decreased_matches := 1\<rparr>), m') \<and>
    self_test_ready ob m' \<and> frame (scratch_bytes ob) m m'"
proof -
  let ?c = "copy_bytes (in_place ob) (candidate_array ob) 12 m"
  let ?m = "reset_counters ob ?c"
  have copied: "load_array ?c (in_place ob) 3 = [4, 20, 36]"
    using load_array_copy [of 3 "in_place ob" "candidate_array ob" m] target_sizes(1) [OF target] ready
    by (simp add: self_test_ready_def)
  have array: "load_array ?m (in_place ob) 3 = [4, 20, 36]"
    unfolding copied [symmetric]
    by (rule frame_array [OF reset_frame]) (simp add: objects_disjoint(7) [OF ob])
  have "frame (scratch_bytes ob) m ?c" "frame (scratch_bytes ob) ?c ?m"
    by (rule frame_mono [OF frame_copy], simp add: scratch_bytes_def subsetI,
      rule frame_mono [OF reset_frame], auto simp: scratch_bytes_def)
  then have reset: "frame (scratch_bytes ob) m ?m"
    by (rule frame_again)
  then have ready': "self_test_ready ob ?m"
    by (rule ready_frame [OF ob ready])
  have "(literal_query_object ob, unat (sizeof_query ob)) \<in> set (query_ranges ob)"
    by (simp add: query_ranges_def)
  then obtain m' where run: "vc_search_refine (self_refine_args ob VC_RELATION_DECREASED (literal_query_object ob)
      (in_place ob) (in_place ob) 3) ?m = (VC_STATUS_OK, m')"
    and m': "load_array m' (in_place ob) 1 = [36]" "written_of ob m' = 1" "total_of ob m' = 1"
      "frame (scratch_bytes ob) ?m m'"
    using self_test_refine [OF target ob _ _ array _ _ _ self_test_hits(4), of "literal_query_object ob"
        "in_place ob" 3] ready'
    by (auto simp: self_test_ready_def)
  have "decreased_check ob (report, m) = (check True (report\<lparr>decreased_matches := 1\<rparr>), m')"
    using run m' by (simp add: decreased_check_def offsets_equal_def)
  moreover have "self_test_ready ob m'"
    using ready' m'(4) by (rule ready_frame [OF ob])
  moreover have "frame (scratch_bytes ob) m m'"
    using reset m'(4) by (rule frame_again)
  ultimately show ?thesis
    by blast
qed

definition self_test_bytes :: "('s::len, 'x) self_test_objects_scheme \<Rightarrow> 's word set" where
  "self_test_bytes ob =
     span (previous_snapshot ob) 64 \<union> span (current_snapshot ob) 64 \<union> span (candidate_array ob) 64 \<union> scratch_bytes ob"

lemma frame_counters:
  fixes ob :: "('s::len, 'x) self_test_objects_scheme"
  assumes "frame (span a k \<union> span (written_object ob) (LENGTH('s) div 8) \<union>
      span (total_object ob) (LENGTH('s) div 8)) m m'" and "span a k \<subseteq> U" and "scratch_bytes ob \<subseteq> U"
  shows "frame U m m'"
  using assms(1) by (rule frame_mono) (use assms(2,3) in \<open>auto simp: scratch_bytes_def\<close>)

text \<open>The first search, up to the second snapshot.\<close>

lemma self_test_first:
  fixes ob :: "('s::len, 'x) self_test_objects_scheme"
  assumes target: "supported_target TYPE('s)" and ob: "objects_apart ob"
  shows "\<exists>m1. vc_search_initial (initial_args ob (candidate_array ob) RESULT_CAPACITY)
      (reset_counters ob (prepare_previous ob m)) = Some (VC_STATUS_OK, m1) \<and>
    total_of ob m1 = 3 \<and> written_of ob m1 = 3 \<and> load_array m1 (candidate_array ob) 3 = [4, 20, 36] \<and>
    self_test_ready ob (prepare_current ob m1) \<and> frame (self_test_bytes ob) m (prepare_current ob m1)"
proof -
  let ?m = "reset_counters ob (prepare_previous ob m)"
  note sizes = target_sizes [OF target]
  note disjoint = objects_disjoint [OF ob]
  have reset: "frame (scratch_bytes ob) (prepare_previous ob m) ?m"
    using reset_frame by (rule frame_mono) (auto simp: scratch_bytes_def)
  have snap: "snapshot ?m (previous_snapshot ob) 64 = previous_bytes"
    using frame_snapshot [OF reset disjoint(1)] prepared_previous(1) [OF target] by simp
  obtain status m1 where run: "vc_search_initial (initial_args ob (candidate_array ob) RESULT_CAPACITY) ?m = Some (status, m1)"
    and outcome: "search_outcome (initial_args ob (candidate_array ob) RESULT_CAPACITY) ?m [4, 20, 36] status m1"
    using self_test_initial [OF target ob snap, of "candidate_array ob" RESULT_CAPACITY] sizes by auto
  have fields: "written (initial_args ob out cap) = written_object ob"
    "total_matches (initial_args ob out cap) = total_object ob" "out_offsets (initial_args ob out cap) = out"
    "capacity (initial_args ob out cap) = cap" for out cap
    by (simp_all add: initial_args_def)
  have room: "length [4, 20, 36 :: uint32_t] \<le> unat (capacity (initial_args ob (candidate_array ob) RESULT_CAPACITY))"
    by (simp add: fields sizes)
  note result = self_test_outcome [OF outcome fields(1,2) room, unfolded fields(3)]
  have cand: "span (candidate_array ob) 12 \<subseteq> span (candidate_array ob) 64"
    by (rule span_mono) simp
  have search: "frame (span (candidate_array ob) 64 \<union> scratch_bytes ob) ?m m1"
    using result(5) by (rule frame_counters) (use cand in auto)
  have "span (previous_snapshot ob) 64 \<inter> (span (candidate_array ob) 64 \<union> scratch_bytes ob) = {}"
    using disjoint(1,5) by blast
  then have snap1: "snapshot m1 (previous_snapshot ob) 64 = previous_bytes"
    using frame_snapshot [OF search] snap by simp
  note current = prepared_current [OF target snap1]
  have array: "load_array m1 (candidate_array ob) 3 = [4, 20, 36]"
    using result(2) by (simp add: numeral_3_eq_3)
  have "span (candidate_array ob) (4 * 3) \<inter> span (current_snapshot ob) 64 = {}"
    using cand disjoint(6) by auto
  from frame_array [OF current(2) this] array
  have "load_array (prepare_current ob m1) (candidate_array ob) 3 = [4, 20, 36]"
    by simp
  then have ready: "self_test_ready ob (prepare_current ob m1)"
    using current(1) frame_snapshot [OF current(2) disjoint(4)] snap1 by (simp add: self_test_ready_def)
  have "frame (self_test_bytes ob) m (prepare_previous ob m)" "frame (self_test_bytes ob) (prepare_previous ob m) ?m"
    "frame (self_test_bytes ob) ?m m1" "frame (self_test_bytes ob) m1 (prepare_current ob m1)"
    by (rule frame_mono [OF prepared_previous(2) [OF target]] frame_mono [OF reset] frame_mono [OF search]
        frame_mono [OF current(2)], simp add: self_test_bytes_def subset_eq)+
  then have "frame (self_test_bytes ob) m (prepare_current ob m1)"
    by (meson frame_again)
  with run result(1,3,4) array ready show ?thesis
    by simp
qed

text \<open>The last search, into an array of two.\<close>

lemma self_test_last:
  fixes ob :: "('s::len, 'x) self_test_objects_scheme"
  assumes target: "supported_target TYPE('s)" and ob: "objects_apart ob" and ready: "self_test_ready ob m"
  shows "\<exists>m'. vc_search_initial (initial_args ob (refined ob) 2) (reset_counters ob m) = Some (VC_STATUS_TRUNCATED, m') \<and>
    written_of ob m' = 2 \<and> total_of ob m' = 3 \<and> load_array m' (refined ob) 2 = [4, 20] \<and>
    frame (scratch_bytes ob) m m'"
proof -
  let ?m = "reset_counters ob m"
  note sizes = target_sizes [OF target]
  have reset: "frame (scratch_bytes ob) m ?m"
    using reset_frame by (rule frame_mono) (auto simp: scratch_bytes_def)
  have snap: "snapshot ?m (previous_snapshot ob) 64 = previous_bytes"
    using ready_frame [OF ob ready reset] by (simp add: self_test_ready_def)
  obtain status m' where run: "vc_search_initial (initial_args ob (refined ob) 2) ?m = Some (status, m')"
    and outcome: "search_outcome (initial_args ob (refined ob) 2) ?m [4, 20, 36] status m'"
    using self_test_initial [OF target ob snap, of "refined ob" 2] sizes by auto
  have count: "w = of_nat n" if "unat w = n" for w :: "'s word" and n
    using that by auto
  have result: "status = VC_STATUS_TRUNCATED" "load_array m' (refined ob) 2 = [4, 20]"
    "unat (written_of ob m') = 2" "unat (total_of ob m') = 3"
    "frame (span (refined ob) 8 \<union> span (written_object ob) (LENGTH('s) div 8) \<union>
      span (total_object ob) (LENGTH('s) div 8)) ?m m'"
    using outcome sizes
    by (simp_all add: search_outcome_def Let_def initial_args_def written_of_def total_of_def frame_def)
  have "span (refined ob) 8 \<subseteq> span (refined ob) 64"
    by (rule span_mono) simp
  then have "frame (scratch_bytes ob) ?m m'"
    by (intro frame_counters [OF result(5)]) (auto simp: scratch_bytes_def)
  with reset have "frame (scratch_bytes ob) m m'"
    by (rule frame_again)
  with run result count [OF result(3)] count [OF result(4)] show ?thesis
    by simp
qed

text \<open>The report of a run in which everything is as expected.\<close>

definition passing_result :: "'s::len self_test_result" where
  "passing_result = \<lparr>checks = 6, failures = 0, initial_matches = 3, changed_matches = 2,
     increased_matches = 1, decreased_matches = 1, unchanged_matches = 1\<rparr>"

lemma run_scanner_self_test_passes:
  fixes ob :: "('s::len, 'x) self_test_objects_scheme"
  assumes "supported_target TYPE('s)" and "objects_apart ob"
  shows "\<exists>m'. run_scanner_self_test ob m = Some (passing_result, m') \<and> frame (self_test_bytes ob) m m'"
proof -
  note check = refine_check_passes [OF assms]
  obtain m1 where m1: "vc_search_initial (initial_args ob (candidate_array ob) RESULT_CAPACITY)
        (reset_counters ob (prepare_previous ob m)) = Some (VC_STATUS_OK, m1)"
      "total_of ob m1 = 3" "written_of ob m1 = 3" "load_array m1 (candidate_array ob) 3 = [4, 20, 36]"
      "self_test_ready ob (prepare_current ob m1)" "frame (self_test_bytes ob) m (prepare_current ob m1)"
    using self_test_first [OF assms] by blast
  let ?r1 = "check True (zero_result\<lparr>initial_matches := 3\<rparr>) :: 's self_test_result"
  let ?r2 = "check True (?r1\<lparr>changed_matches := 2\<rparr>)"
  let ?r3 = "check True (?r2\<lparr>increased_matches := 1\<rparr>)"
  let ?r4 = "check True (?r3\<lparr>decreased_matches := 1\<rparr>)"
  let ?r5 = "check True (?r4\<lparr>unchanged_matches := 1\<rparr>)"
  obtain m2 where m2: "refine_check ob VC_RELATION_CHANGED [4, 36] changed_matches_update
      (?r1, prepare_current ob m1) = (?r2, m2)" "self_test_ready ob m2" "frame (scratch_bytes ob) (prepare_current ob m1) m2"
    using check [OF m1(5) _ self_test_hits(2), of changed_matches_update ?r1] by auto
  obtain m3 where m3: "refine_check ob VC_RELATION_INCREASED [4] increased_matches_update (?r2, m2) = (?r3, m3)"
      "self_test_ready ob m3" "frame (scratch_bytes ob) m2 m3"
    using check [OF m2(2) _ self_test_hits(3), of increased_matches_update ?r2] by auto
  obtain m4 where m4: "decreased_check ob (?r3, m3) = (?r4, m4)" "self_test_ready ob m4" "frame (scratch_bytes ob) m3 m4"
    using decreased_check_passes [OF assms m3(2), of ?r3] by auto
  obtain m5 where m5: "refine_check ob VC_RELATION_UNCHANGED [20] unchanged_matches_update (?r4, m4) = (?r5, m5)"
      "self_test_ready ob m5" "frame (scratch_bytes ob) m4 m5"
    using check [OF m4(2) _ self_test_hits(5), of unchanged_matches_update ?r4] by auto
  obtain m6 where m6: "vc_search_initial (initial_args ob (refined ob) 2) (reset_counters ob m5) = Some (VC_STATUS_TRUNCATED, m6)"
      "written_of ob m6 = 2" "total_of ob m6 = 3" "load_array m6 (refined ob) 2 = [4, 20]" "frame (scratch_bytes ob) m5 m6"
    using self_test_last [OF assms m5(2)] by blast
  have equal: "offsets_equal m1 (candidate_array ob) 3 [4, 20, 36]"
    using m1(4) target_sizes(2) [OF assms(1)] by (simp add: offsets_equal_def)
  have "run_scanner_self_test ob m = Some (check True ?r5, m6)"
    unfolding run_scanner_self_test_def m1(1) Let_def option.case prod.case m1(2,3) using equal
    by (simp only: simp_thms m2(1) m3(1) m4(1) m5(1) m6 prod.case option.case)
  moreover have "check True ?r5 = passing_result"
    by (simp add: check_def zero_result_def passing_result_def)
  moreover have "frame (scratch_bytes ob) (prepare_current ob m1) m6"
    using m2(3) m3(3) m4(3) m5(3) m6(5) by (meson frame_again)
  then have "frame (self_test_bytes ob) m m6"
    by (rule frame_trans [OF m1(6)]) (simp_all add: self_test_bytes_def)
  ultimately show ?thesis
    by simp
qed

text \<open>C14. The scanner self-test always passes. On every supported target, wherever its objects lie and whatever
  memory holds before, the run returns, makes six checks without a failure, reports three initial matches
  and two, one, one and one matches of the refinements, and changes no byte outside its own objects.\<close>

theorem self_test_passes:
  fixes ob :: "('s::len, 'x) self_test_objects_scheme"
  assumes "supported_target TYPE('s)" and "objects_apart ob"
  shows "\<exists>m'. run_scanner_self_test ob m = Some (\<lparr>checks = 6, failures = 0, initial_matches = 3,
      changed_matches = 2, increased_matches = 1, decreased_matches = 1, unchanged_matches = 1\<rparr>, m') \<and>
    frame (self_test_bytes ob) m m'"
  using run_scanner_self_test_passes [OF assms, of m] by (simp add: passing_result_def)

definition sample_objects :: "32 self_test_objects" where
  "sample_objects =
     \<lparr>previous_snapshot = 0x1000, current_snapshot = 0x1040, candidate_array = 0x1080, refined = 0x10c0,
      in_place = 0x8000, written_object = 0x8010, total_object = 0x8014, query_object = 0x8020,
      refine_query_object = 0x7000, literal_query_object = 0x8030, sizeof_query = 16\<rparr>"

lemma sample_objects_apart: "objects_apart sample_objects"
  by (simp add: objects_apart_def object_ranges_def snapshot_ranges_def array_ranges_def counter_ranges_def
      query_ranges_def ranges_apart_def sample_objects_def apart_32)

theorem self_test_passes_witness:
  "\<exists>report m'. run_scanner_self_test sample_objects (\<lambda>_. 7) = Some (report, m') \<and>
    checks report = 6 \<and> failures report = 0 \<and> m' 0 = 7"
proof -
  have "0 \<notin> self_test_bytes sample_objects"
    by (simp add: self_test_bytes_def scratch_bytes_def span_def sample_objects_def)
  then show ?thesis
    using self_test_passes [OF supported_32 sample_objects_apart, of "\<lambda>_. 7"] by (fastforce simp: frame_def)
qed

end
