(* ===== verification/VC_Search_Host_Tests.thy ===== *)
theory VC_Search_Host_Tests
  imports VC_Search_Reference VC_Self_Test
begin

unbundle bit_operations_syntax

text \<open>
  The fixed cases of \<^verbatim>\<open>tests/host/test_search.c\<close>. A case is the conjunction of its \<^verbatim>\<open>CHECK\<close>s, and each case is
  proved to be true. A call of a case begins with the objects as the case declares them; what an earlier call of
  the same case left in \<^verbatim>\<open>offsets\<close> and the counters is not read by a later one.
\<close>

section \<open>Calls\<close>

text \<open>
  The objects of a case lie apart: the snapshots \<^verbatim>\<open>current\<close> (or \<^verbatim>\<open>bytes\<close>) at \<open>0x1000\<close> and \<^verbatim>\<open>previous\<close> at
  \<open>0x2000\<close>, the candidates at \<open>0x3000\<close>, the query at \<open>0x4000\<close>, \<^verbatim>\<open>offsets\<close> at \<open>0x5000\<close> and the two counters at
  \<open>0x6000\<close> and \<open>0x6010\<close>.
\<close>

definition store_bytes :: "'s::len memory \<Rightarrow> 's word \<Rightarrow> uint8_t list \<Rightarrow> 's memory" where
  "store_bytes m a bs = (\<lambda>x. if unat (x - a) < length bs then bs ! unat (x - a) else m x)"

definition host_memory :: "uint8_t list \<Rightarrow> uint8_t list \<Rightarrow> uint32_t list \<Rightarrow> 32 memory" where
  "host_memory old new cs = store_array (store_bytes (store_bytes (\<lambda>_. 0xaa) 0x1000 new) 0x2000 old) 0x3000 cs"

definition host_query :: "vc_scalar_type \<Rightarrow> vc_relation \<Rightarrow> uint32_t \<Rightarrow> uint32_t \<Rightarrow> vc_query" where
  "host_query type rel val step = \<lparr>scalar_type = type, relation = rel, value_bits = val, stride = step\<rparr>"

definition host_search :: "nat \<Rightarrow> vc_query \<Rightarrow> 32 word \<Rightarrow> nat \<Rightarrow> 32 search_args" where
  "host_search n q out limit =
     \<lparr>current = 0x1000, snapshot_size = of_nat n, query = 0x4000, query_value = q, query_bytes = 16,
      out_offsets = out, capacity = of_nat limit, written = 0x6000, total_matches = 0x6010\<rparr>"

definition host_refine :: "nat \<Rightarrow> vc_query \<Rightarrow> nat \<Rightarrow> 32 word \<Rightarrow> nat \<Rightarrow> 32 refine_args" where
  "host_refine n q count out limit =
     search_args.extend (host_search n q out limit) (refine_args.fields 0x2000 0x3000 (of_nat count))"

text \<open>What a case looks at: the status, the offsets that \<^verbatim>\<open>written\<close> counts, and \<^verbatim>\<open>total\<close>.\<close>

definition seen :: "(32, 'x) search_args_scheme \<Rightarrow> vc_status \<times> 32 memory \<Rightarrow> vc_status \<times> uint32_t list \<times> nat" where
  "seen a = (\<lambda>(status, m). (status, stored_offsets a m, counted_matches a m))"

definition host_initial :: "uint8_t list \<Rightarrow> vc_query \<Rightarrow> nat \<Rightarrow> (vc_status \<times> uint32_t list \<times> nat) option" where
  "host_initial bytes q limit =
     (let a = host_search (length bytes) q 0x5000 limit
      in map_option (seen a) (vc_search_initial a (host_memory [] bytes [])))"

definition host_refined ::
  "uint8_t list \<Rightarrow> uint8_t list \<Rightarrow> uint32_t list \<Rightarrow> vc_query \<Rightarrow> 32 word \<Rightarrow> nat \<Rightarrow> vc_status \<times> uint32_t list \<times> nat" where
  "host_refined old new cs q out limit =
     (let a = host_refine (length new) q (length cs) out limit
      in seen a (vc_search_refine a (host_memory old new cs)))"

lemma host_snapshot:
  assumes "length bs \<le> 64"
  shows "snapshot (store_bytes m (a :: 32 word) bs) a (length bs) = bs"
proof (intro nth_equalityI)
  fix i
  assume "i < length (snapshot (store_bytes m a bs) a (length bs))"
  with assms have "i < length bs" "unat (of_nat i :: 32 word) = i"
    by (auto intro: unat_of_nat_small)
  then show "snapshot (store_bytes m a bs) a (length bs) ! i = bs ! i"
    by (simp add: snapshot_def store_bytes_def)
qed simp

lemma host_memory_reads:
  assumes "length new \<le> 64" and "length old \<le> 64" and "length cs \<le> 64"
  shows "snapshot (host_memory old new cs) 0x1000 (length new) = new"
    and "snapshot (host_memory old new cs) 0x2000 (length old) = old"
    and "load_array (host_memory old new cs) 0x3000 (length cs) = cs"
proof -
  have apart: "span (0x1000 :: 32 word) (length new) \<inter> span 0x3000 (4 * length cs) = {}"
    "span (0x2000 :: 32 word) (length old) \<inter> span 0x3000 (4 * length cs) = {}"
    "span (0x1000 :: 32 word) (length new) \<inter> span 0x2000 (length old) = {}"
    using assms by (auto simp: mem_span_no_wrap)
  have "snapshot (host_memory old new cs) 0x1000 (length new) =
      snapshot (store_bytes (\<lambda>_. 0xaa) 0x1000 new :: 32 memory) 0x1000 (length new)"
    unfolding host_memory_def
  proof (rule snapshot_cong)
    fix x :: "32 word"
    assume "x \<in> span 0x1000 (length new)"
    with apart have "x \<notin> span 0x3000 (4 * length cs)" "x \<notin> span 0x2000 (length old)"
      by blast+
    then show "store_array (store_bytes (store_bytes (\<lambda>_. 0xaa) 0x1000 new) 0x2000 old) 0x3000 cs x =
        store_bytes (\<lambda>_. 0xaa) 0x1000 new x"
      by (simp add: store_array_outside store_bytes_def [of _ "0x2000"] span_def)
  qed
  then show "snapshot (host_memory old new cs) 0x1000 (length new) = new"
    using assms by (simp add: host_snapshot)
  have "snapshot (host_memory old new cs) 0x2000 (length old) =
      snapshot (store_bytes (store_bytes (\<lambda>_. 0xaa) 0x1000 new) 0x2000 old :: 32 memory) 0x2000 (length old)"
    unfolding host_memory_def using apart by (intro snapshot_cong store_array_outside) blast
  then show "snapshot (host_memory old new cs) 0x2000 (length old) = old"
    using assms by (simp add: host_snapshot)
  show "load_array (host_memory old new cs) 0x3000 (length cs) = cs"
    unfolding host_memory_def using assms by (intro load_store_array) simp
qed

lemma host_search_fields:
  "current (host_search n q out limit) = 0x1000" "snapshot_size (host_search n q out limit) = of_nat n"
  "query_value (host_search n q out limit) = q" "out_offsets (host_search n q out limit) = out"
  "capacity (host_search n q out limit) = of_nat limit"
  "written (host_search n q out limit) = 0x6000" "total_matches (host_search n q out limit) = 0x6010"
  by (simp_all add: host_search_def)

lemma host_refine_fields:
  "current (host_refine n q count out limit) = 0x1000" "snapshot_size (host_refine n q count out limit) = of_nat n"
  "query_value (host_refine n q count out limit) = q" "out_offsets (host_refine n q count out limit) = out"
  "capacity (host_refine n q count out limit) = of_nat limit"
  "written (host_refine n q count out limit) = 0x6000" "total_matches (host_refine n q count out limit) = 0x6010"
  "previous (host_refine n q count out limit) = 0x2000" "candidates (host_refine n q count out limit) = 0x3000"
  "candidate_count (host_refine n q count out limit) = of_nat count"
  by (simp_all add: host_refine_def host_search_def search_args.defs refine_args.defs)

lemma host_sizes: "n \<le> 64 \<Longrightarrow> unat (of_nat n :: 32 word) = n"
  by (intro unat_of_nat_small) simp

lemma host_placed:
  assumes "n \<le> 64" and "limit \<le> 64" and "out = 0 \<and> limit = 0 \<or> out = 0x3000 \<or> out = 0x5000"
  shows "well_placed (host_search n q out limit)"
    and "count \<le> 64 \<Longrightarrow> refine_placed (host_refine n q count out limit)"
proof -
  have null: "apart 0 k r j" "apart r j 0 k" for r :: "32 word" and k j
    by (simp_all add: apart_def)
  show "well_placed (host_search n q out limit)"
    using assms by (elim disjE) (simp_all add: well_placed_def host_search_def host_sizes null apart_32)
  then have "well_placed (host_refine n q count out limit)"
    by (simp add: well_placed_def host_refine_fields host_search_fields)
      (simp add: host_refine_def host_search_def search_args.defs refine_args.defs)
  then show "refine_placed (host_refine n q count out limit)" if "count \<le> 64"
    using assms that by (elim disjE) (simp_all add: refine_placed_def host_refine_fields host_sizes null apart_32)
qed

lemma seen_outcome:
  "search_outcome a m hits status m' \<Longrightarrow> seen a (status, m') =
    (if length hits > unat (capacity a) then VC_STATUS_TRUNCATED else VC_STATUS_OK, take (unat (capacity a)) hits, length hits)"
  using search_outcome_stored [of a m hits status m'] by (simp add: seen_def)

lemma host_initial_eq:
  assumes "length bytes \<le> 64" and "limit \<le> 64" and "well_formed_query q"
    and "relation q \<in> {VC_RELATION_EQUAL, VC_RELATION_NOT_EQUAL}"
  shows "host_initial bytes q limit =
    (let hits = initial_hits q bytes
     in Some (if length hits > limit then VC_STATUS_TRUNCATED else VC_STATUS_OK, map of_nat (take limit hits), length hits))"
proof -
  let ?a = "host_search (length bytes) q 0x5000 limit" and ?m = "host_memory [] bytes []"
  have "well_placed ?a"
    using assms by (intro host_placed) simp_all
  from vc_search_initial_run [OF supported_32 this, of ?m] obtain status m'
    where "vc_search_initial ?a ?m = Some (status, m')"
      and "search_outcome ?a ?m (map of_nat (initial_hits q bytes)) status m'"
    using assms host_memory_reads(1) [of bytes "[]" "[]"] by (auto simp: host_search_fields host_sizes)
  then show ?thesis
    using assms(2) by (simp add: host_initial_def seen_outcome host_search_fields host_sizes take_map Let_def)
qed

lemma host_refined_eq:
  assumes "length new \<le> 64" and "length old = length new" and "length cs \<le> 64" and "limit \<le> 64"
    and "out = 0 \<and> limit = 0 \<or> out = 0x3000 \<or> out = 0x5000"
    and "well_formed_query q" and "valid_candidates cs (length new) (vc_scalar_width (scalar_type q))"
  shows "host_refined old new cs q out limit =
    (let hits = refine_hits q old new cs
     in (if length hits > limit then VC_STATUS_TRUNCATED else VC_STATUS_OK, take limit hits, length hits))"
proof -
  let ?a = "host_refine (length new) q (length cs) out limit" and ?m = "host_memory old new cs"
  note reads = host_memory_reads [of new old cs]
  have "refine_accepted ?a ?m"
    using assms host_placed(2) [of "length new" limit out "length cs" q] reads
    by (simp add: refine_accepted_def refine_candidates_def host_refine_fields host_sizes)
  from vc_search_refine_run [OF supported_32 this] obtain status m'
    where "vc_search_refine ?a ?m = (status, m')" and "search_outcome ?a ?m (refine_hits q old new cs) status m'"
    using assms reads by (auto simp: refine_candidates_def host_refine_fields host_sizes)
  then show ?thesis
    using assms(4) by (simp add: host_refined_def seen_outcome host_refine_fields host_sizes Let_def)
qed


section \<open>Searches that succeed\<close>

definition found :: "vc_status \<times> uint32_t list \<times> nat \<Rightarrow> uint32_t list \<Rightarrow> bool" where
  "found = (\<lambda>(status, stored, matches) expected. status = VC_STATUS_OK \<and> stored = expected)"

definition test_initial_little_endian_and_stride :: bool where
  "test_initial_little_endian_and_stride \<longleftrightarrow>
     (let bytes = [0x34, 0x12, 0x00, 0x34, 0x12, 0x34, 0x12]
      in host_initial bytes (host_query VC_SCALAR_U16 VC_RELATION_EQUAL 0x1234 1) 8 = Some (VC_STATUS_OK, [0, 3, 5], 3) \<and>
         host_initial bytes (host_query VC_SCALAR_U16 VC_RELATION_EQUAL 0x1234 2) 8 = Some (VC_STATUS_OK, [0], 1) \<and>
         (case host_initial bytes (host_query VC_SCALAR_U8 VC_RELATION_EQUAL 0x12 1) 8 of
            None \<Rightarrow> False
          | Some (status, stored, matches) \<Rightarrow>
              status = VC_STATUS_OK \<and> length stored = 3 \<and> stored ! 2 = of_nat (length bytes - 1)))"

definition test_signed_refinement :: bool where
  "test_signed_refinement \<longleftrightarrow>
     (let refine = (\<lambda>rel. host_refined [0xfe, 0xff, 0x7f] [0xff, 0xfe, 0x80] [0, 1, 2]
            (host_query VC_SCALAR_S8 rel 0 1) 0x5000 3)
      in refine VC_RELATION_INCREASED = (VC_STATUS_OK, [0], 1) \<and>
         refine VC_RELATION_DECREASED = (VC_STATUS_OK, [1, 2], 2))"

text \<open>\<^verbatim>\<open>write_u16_le\<close> and \<^verbatim>\<open>write_u32_le\<close> as the bytes they write.\<close>

definition u16_le_bytes :: "uint16_t \<Rightarrow> uint8_t list" where
  "u16_le_bytes val = [ucast val, ucast (drop_bit 8 val)]"

definition u32_le_bytes :: "uint32_t \<Rightarrow> uint8_t list" where
  "u32_le_bytes val = [ucast val, ucast (drop_bit 8 val), ucast (drop_bit 16 val), ucast (drop_bit 24 val)]"

definition test_signed_wide_edges :: bool where
  "test_signed_wide_edges \<longleftrightarrow>
     (let refine16 = (\<lambda>rel. host_refined (u16_le_bytes 0xffff @ u16_le_bytes 0x7fff) (u16_le_bytes 0 @ u16_le_bytes 0x8000)
            [0, 2] (host_query VC_SCALAR_S16 rel 0 1) 0x5000 2);
          refine32 = (\<lambda>rel. host_refined (u32_le_bytes (- 1) @ u32_le_bytes 0x7fffffff)
            (u32_le_bytes 0 @ u32_le_bytes 0x80000000) [0, 4] (host_query VC_SCALAR_S32 rel 0 1) 0x5000 2)
      in found (refine16 VC_RELATION_INCREASED) [0] \<and> found (refine16 VC_RELATION_DECREASED) [2] \<and>
         found (refine32 VC_RELATION_INCREASED) [0] \<and> found (refine32 VC_RELATION_DECREASED) [4])"

definition test_unsigned_relations_and_not_equal :: bool where
  "test_unsigned_relations_and_not_equal \<longleftrightarrow>
     (let refine = (\<lambda>rel. host_refined [0, 9, 3] [1, 4, 3] [0, 1, 2] (host_query VC_SCALAR_U8 rel 0 1) 0x5000 3)
      in found (refine VC_RELATION_INCREASED) [0] \<and> found (refine VC_RELATION_DECREASED) [1] \<and>
         (case host_initial [1, 4, 3] (host_query VC_SCALAR_U8 VC_RELATION_NOT_EQUAL 3 1) 3 of
            None \<Rightarrow> False | Some result \<Rightarrow> found result [0, 1]))"

definition test_change_exact_and_in_place_refinement :: bool where
  "test_change_exact_and_in_place_refinement \<longleftrightarrow>
     (let refine = (\<lambda>rel val out. host_refined [1, 2, 3, 4] [1, 9, 3, 9] [0, 1, 2, 3]
            (host_query VC_SCALAR_U8 rel val 1) out 4)
      in found (refine VC_RELATION_CHANGED 0 0x5000) [1, 3] \<and> found (refine VC_RELATION_UNCHANGED 0 0x5000) [0, 2] \<and>
         found (refine VC_RELATION_EQUAL 9 0x3000) [1, 3])"

lemmas host_case = host_initial_eq host_refined_eq well_formed_query_def host_query_def valid_candidates_def
  u16_le_bytes_def u32_le_bytes_def

lemma search_tests_pass:
  test_initial_little_endian_and_stride
  test_signed_refinement
  test_signed_wide_edges
  test_unsigned_relations_and_not_equal
  test_change_exact_and_in_place_refinement
proof -
  show test_initial_little_endian_and_stride
    by (simp add: test_initial_little_endian_and_stride_def host_case) code_simp
  show test_signed_refinement
    by (simp add: test_signed_refinement_def host_case) code_simp
  show test_signed_wide_edges
    by (simp add: test_signed_wide_edges_def host_case) code_simp
  show test_unsigned_relations_and_not_equal
    by (simp add: test_unsigned_relations_and_not_equal_def host_case) code_simp
  show test_change_exact_and_in_place_refinement
    by (simp add: test_change_exact_and_in_place_refinement_def host_case) code_simp
qed

section \<open>Bytes around the output\<close>

text \<open>\<^verbatim>\<open>guarded\<close> begins one element before the output.\<close>

definition test_u32_and_truncation :: bool where
  "test_u32_and_truncation \<longleftrightarrow>
     (let bytes = [0x78, 0x56, 0x34, 0x12, 0x00, 0x00, 0x00, 0x00, 0x78, 0x56, 0x34, 0x12];
          a = host_search (length bytes) (host_query VC_SCALAR_U32 VC_RELATION_EQUAL 0x12345678 4) 0x5000 1
      in case vc_search_initial a (store_array (host_memory [] bytes []) 0x4ffc [0xaaaaaaaa, 0xbbbbbbbb, 0xcccccccc]) of
           None \<Rightarrow> False
         | Some (status, m') \<Rightarrow>
             status = VC_STATUS_TRUNCATED \<and> unat (load_word m' (written a) :: 32 word) = 1 \<and>
             unat (load_word m' (total_matches a) :: 32 word) = 2 \<and>
             load_array m' 0x4ffc 3 = [0xaaaaaaaa, 0, 0xcccccccc])"

definition test_snapshots_are_immutable :: bool where
  "test_snapshots_are_immutable \<longleftrightarrow>
     (let old = [1, 2, 3, 4, 5]; new = [1, 3, 3, 8, 5]; cs = [0, 1, 2, 3, 4];
          (status, m') = vc_search_refine (host_refine 5 (host_query VC_SCALAR_U8 VC_RELATION_CHANGED 0 1) 5 0x5000 5)
            (host_memory old new cs)
      in status = VC_STATUS_OK \<and> snapshot m' 0x2000 5 = old \<and> snapshot m' 0x1000 5 = new)"

lemma host_outcome_frame:
  assumes "search_outcome a m hits status m'" and "length hits \<le> n \<or> unat (capacity a) \<le> n"
  shows "frame (span (out_offsets a) (4 * n) \<union> span (written a) 4 \<union> span (total_matches a) 4) m (m' :: 32 memory)"
proof -
  have "span (out_offsets a) (4 * length (take (unat (capacity a)) hits)) \<subseteq> span (out_offsets a) (4 * n)"
    using assms(2) by (intro span_mono) auto
  then show ?thesis
    using assms(1) by (auto simp: search_outcome_def frame_def Let_def)
qed

lemma three_slots: "load_array m a 3 = [load_word m a, load_word m (a + 4), load_word m (a + 8)]"
  by (simp add: load_array_def upt_conv_Cons numeral_3_eq_3)

lemma host_memory_at:
  assumes "length new \<le> 64" and "length old \<le> 64" and "length cs \<le> 64"
  shows "length new = n \<Longrightarrow> snapshot (host_memory old new cs) 0x1000 n = new"
    and "length old = n \<Longrightarrow> snapshot (host_memory old new cs) 0x2000 n = old"
    and "length cs = n \<Longrightarrow> load_array (host_memory old new cs) 0x3000 n = cs"
  using host_memory_reads [OF assms] by auto

lemma guard_case: test_u32_and_truncation
proof -
  define bytes :: "uint8_t list" where "bytes = [0x78, 0x56, 0x34, 0x12, 0x00, 0x00, 0x00, 0x00, 0x78, 0x56, 0x34, 0x12]"
  define q where "q = host_query VC_SCALAR_U32 VC_RELATION_EQUAL 0x12345678 4"
  define guards :: "uint32_t list" where "guards = [0xaaaaaaaa, 0xbbbbbbbb, 0xcccccccc]"
  define m where "m = store_array (host_memory [] bytes []) 0x4ffc guards"
  let ?a = "host_search 12 q 0x5000 1"
  have lengths: "length bytes = 12" "length guards = 3"
    by (simp_all add: bytes_def guards_def)
  have "snapshot m 0x1000 12 = snapshot (host_memory [] bytes []) 0x1000 12"
    unfolding m_def by (intro snapshot_cong store_array_outside) (auto simp: mem_span_no_wrap lengths)
  then have bytes: "snapshot m 0x1000 12 = bytes"
    using host_memory_at(1) [of bytes "[]" "[]" 12] lengths by simp
  have hits: "initial_hits q bytes = [0, 8]"
    unfolding q_def bytes_def host_query_def by code_simp
  have "well_placed ?a" "well_formed_query q" "relation q = VC_RELATION_EQUAL"
    by (auto intro: host_placed simp: well_formed_query_def q_def host_query_def)
  with vc_search_initial_run [OF supported_32, of ?a m] obtain status m'
    where run: "vc_search_initial ?a m = Some (status, m')" and outcome: "search_outcome ?a m [0, 8] status m'"
    by (auto simp: host_search_fields bytes hits)
  have "load_array m 0x4ffc 3 = guards"
    using load_store_array [of guards "host_memory [] bytes []" "0x4ffc"] lengths by (simp add: m_def)
  then have around: "load_word m 0x4ffc = (0xaaaaaaaa :: uint32_t)" "load_word m 0x5004 = (0xcccccccc :: uint32_t)"
    by (simp_all add: three_slots guards_def)
  have frame: "frame (span 0x5000 4 \<union> span 0x6000 4 \<union> span 0x6010 4) m m'"
    using host_outcome_frame [OF outcome, of 1] by (simp add: host_search_fields)
  have "load_word m' 0x4ffc = (load_word m 0x4ffc :: uint32_t)" "load_word m' 0x5004 = (load_word m 0x5004 :: uint32_t)"
    using frame by (intro load_word_cong; auto simp: frame_def mem_span_no_wrap)+
  moreover have "load_word m' 0x5000 = (0 :: uint32_t)" "status = VC_STATUS_TRUNCATED"
    "unat (load_word m' 0x6000 :: 32 word) = 1" "unat (load_word m' 0x6010 :: 32 word) = 2"
    using outcome by (simp_all add: search_outcome_def host_search_fields load_array_def)
  moreover have "test_u32_and_truncation \<longleftrightarrow> (case vc_search_initial ?a m of None \<Rightarrow> False | Some (status, m') \<Rightarrow>
      status = VC_STATUS_TRUNCATED \<and> unat (load_word m' (written ?a) :: 32 word) = 1 \<and>
      unat (load_word m' (total_matches ?a) :: 32 word) = 2 \<and> load_array m' 0x4ffc 3 = [0xaaaaaaaa, 0, 0xcccccccc])"
    using lengths by (simp only: test_u32_and_truncation_def Let_def m_def q_def bytes_def guards_def)
  ultimately show ?thesis
    using run around by (simp add: three_slots host_search_fields)
qed

lemma immutable_case: test_snapshots_are_immutable
proof -
  let ?old = "[1, 2, 3, 4, 5] :: uint8_t list" and ?new = "[1, 3, 3, 8, 5] :: uint8_t list"
    and ?cs = "[0, 1, 2, 3, 4] :: uint32_t list"
  let ?q = "host_query VC_SCALAR_U8 VC_RELATION_CHANGED 0 1"
  let ?a = "host_refine 5 ?q 5 0x5000 5" and ?m = "host_memory ?old ?new ?cs"
  have reads: "snapshot ?m 0x1000 5 = ?new" "snapshot ?m 0x2000 5 = ?old" "load_array ?m 0x3000 5 = ?cs"
    by (intro host_memory_at; simp)+
  have "refine_accepted ?a ?m"
    using host_placed(2) [of 5 5 "0x5000" 5 ?q] reads
    by (simp add: refine_accepted_def refine_candidates_def host_refine_fields well_formed_query_def host_query_def
        valid_candidates_def)
  moreover have "refine_hits ?q ?old ?new ?cs = [1, 3]"
    unfolding host_query_def by code_simp
  ultimately obtain status m' where run: "vc_search_refine ?a ?m = (status, m')"
    and outcome: "search_outcome ?a ?m [1, 3] status m'"
    using vc_search_refine_run [OF supported_32, of ?a ?m] reads by (auto simp: refine_candidates_def host_refine_fields)
  have frame: "frame (span 0x5000 20 \<union> span 0x6000 4 \<union> span 0x6010 4) ?m m'"
    using host_outcome_frame [OF outcome, of 5] by (simp add: host_refine_fields)
  have "snapshot m' 0x2000 5 = ?old" "snapshot m' 0x1000 5 = ?new"
    using reads by (subst frame_snapshot [OF frame]; auto simp: mem_span_no_wrap)+
  moreover have "status = VC_STATUS_OK"
    using outcome by (simp add: search_outcome_def host_refine_fields)
  ultimately show ?thesis
    using run by (simp add: test_snapshots_are_immutable_def)
qed

section \<open>Refused calls\<close>

lemma host_bad_query:
  assumes "n \<le> 64" and "limit \<le> 64"
    and "vc_scalar_width (scalar_type q) = 0 \<or> stride q = 0 \<or> \<not> vc_relation_is_valid (relation q)"
  shows "vc_validate_common (host_search n q 0x5000 limit) = Inl VC_STATUS_INVALID_QUERY"
  using assms by (auto simp: vc_validate_common_def host_search_def vc_size_is_representable_def Let_def)


definition test_empty_and_invalid_inputs :: bool where
  "test_empty_and_invalid_inputs \<longleftrightarrow>
     (let bytes = [1, 2, 3, 4];
          u32_equal = host_query VC_SCALAR_U32 VC_RELATION_EQUAL 0;
          empty = (host_search 0 (u32_equal 1) 0 0)\<lparr>current := 0\<rparr>;
          status = (\<lambda>q. map_option fst (host_initial bytes q 4));
          refine = (\<lambda>type cs. fst (host_refined bytes bytes cs (host_query type VC_RELATION_UNCHANGED 0 1) 0x5000 4))
      in map_option (seen empty) (vc_search_initial empty (host_memory [] [] [])) = Some (VC_STATUS_OK, [], 0) \<and>
         host_initial [1, 2, 3] (u32_equal 1) 4 = Some (VC_STATUS_OK, [], 0) \<and>
         status (u32_equal 0) = Some VC_STATUS_INVALID_QUERY \<and>
         status (host_query (VC_SCALAR_BEYOND 93) VC_RELATION_EQUAL 0 1) = Some VC_STATUS_INVALID_QUERY \<and>
         status (host_query VC_SCALAR_U8 VC_RELATION_CHANGED 0 1) = Some VC_STATUS_INVALID_QUERY \<and>
         status (host_query VC_SCALAR_U8 (VC_RELATION_BEYOND (2 ^ 32 - 1 - 6)) 0 1) = Some VC_STATUS_INVALID_QUERY \<and>
         status (host_query VC_SCALAR_U8 (VC_RELATION_BEYOND 93) 0 1) = Some VC_STATUS_INVALID_QUERY \<and>
         refine VC_SCALAR_U8 [1, 1] = VC_STATUS_INVALID_CANDIDATES \<and>
         refine VC_SCALAR_U8 [2, 1] = VC_STATUS_INVALID_CANDIDATES \<and>
         refine VC_SCALAR_U16 [4] = VC_STATUS_INVALID_CANDIDATES)"

text \<open>
  \<^verbatim>\<open>both\<close> is both counters, the query may lie where the output does, and the output may begin one element into
  the candidates. A refused call leaves the counters as they are.
\<close>

definition test_alias_and_zero_capacity_guards :: bool where
  "test_alias_and_zero_capacity_guards \<longleftrightarrow>
     (let q = host_query VC_SCALAR_U8 VC_RELATION_EQUAL 7 1;
          m = host_memory [7, 7] [7, 7] [0, 1];
          refused = (\<lambda>(status, m'). status = VC_STATUS_INVALID_ARGUMENT \<and>
            (load_word m' 0x6000 :: 32 word) = load_word m 0x6000 \<and>
            (load_word m' 0x6010 :: 32 word) = load_word m 0x6010);
          both = (host_search 2 q 0x5000 2)\<lparr>total_matches := 0x6000\<rparr>;
          query_alias = host_search 2 q 0x4000 2;
          shifted = host_refine 2 (q\<lparr>relation := VC_RELATION_UNCHANGED\<rparr>) 2 0x3004 1
      in map_option (seen (host_search 2 q 0 0)) (vc_search_initial (host_search 2 q 0 0) m) = Some (VC_STATUS_TRUNCATED, [], 2) \<and>
         (case vc_search_initial both m of None \<Rightarrow> False | Some r \<Rightarrow> refused r) \<and>
         (case vc_search_initial query_alias m of None \<Rightarrow> False | Some r \<Rightarrow> refused r) \<and>
         refused (vc_search_refine shifted m))"

lemma host_refuses_query:
  assumes "length bytes \<le> 64" and "limit \<le> 64"
    and "vc_scalar_width (scalar_type q) = 0 \<or> stride q = 0 \<or> \<not> vc_relation_is_valid (relation q)"
  shows "map_option fst (host_initial bytes q limit) = Some VC_STATUS_INVALID_QUERY"
  using host_bad_query [OF assms] by (simp add: host_initial_def vc_search_initial_def seen_def Let_def)

lemma host_refuses_relation:
  assumes "length bytes \<le> 64" and "limit \<le> 64" and "well_formed_query q"
    and "relation q \<notin> {VC_RELATION_EQUAL, VC_RELATION_NOT_EQUAL}"
  shows "map_option fst (host_initial bytes q limit) = Some VC_STATUS_INVALID_QUERY"
proof -
  have "well_placed (host_search (length bytes) q 0x5000 limit)"
    using assms by (intro host_placed) simp_all
  then obtain width output_bytes
    where "vc_validate_common (host_search (length bytes) q 0x5000 limit) = Inr (q, width, output_bytes)"
    using vc_validate_common_ok [OF supported_32] assms(3) by (metis host_search_fields(3))
  then show ?thesis
    using assms(4) by (simp add: host_initial_def vc_search_initial_def seen_def Let_def)
qed

lemma host_refuses_candidates:
  assumes "length new \<le> 64" and "length old = length new" and "length cs \<le> 64" and "limit \<le> 64"
    and "well_formed_query q" and "\<not> valid_candidates cs (length new) (vc_scalar_width (scalar_type q))"
  shows "fst (host_refined old new cs q 0x5000 limit) = VC_STATUS_INVALID_CANDIDATES"
proof -
  let ?a = "host_refine (length new) q (length cs) 0x5000 limit" and ?m = "host_memory old new cs"
  have "well_placed ?a"
    using host_placed(2) [of "length new" limit "0x5000" "length cs" q] assms by (simp add: refine_placed_def Let_def)
  then obtain width output_bytes where "vc_validate_common ?a = Inr (q, vc_scalar_width (scalar_type q), output_bytes)"
    using vc_validate_common_ok [OF supported_32] assms(5) by (metis host_refine_fields(3))
  moreover have "vc_validate_candidates ?m 0x3000 (of_nat (length cs)) (of_nat (length new)) (vc_scalar_width (scalar_type q)) =
      VC_STATUS_INVALID_CANDIDATES"
    using assms host_memory_reads(3) [of new old cs]
    by (simp add: vc_validate_candidates_status [OF supported_32 vc_scalar_width_le_4] host_sizes)
  ultimately show ?thesis
    by (simp add: host_refined_def vc_search_refine_def seen_def host_refine_fields Let_def)
qed

lemma initial_seen:
  assumes "vc_validate_common a = Inr (query_value a, width, output_bytes)"
    and "relation (query_value a) = VC_RELATION_EQUAL"
    and "initial_hits (query_value a) (snapshot m (current a) (unat (snapshot_size a))) = hits"
  shows "map_option (seen a) (vc_search_initial (a :: 32 search_args) m) =
    Some (if length hits > unat (capacity a) then VC_STATUS_TRUNCATED else VC_STATUS_OK,
      map of_nat (take (unat (capacity a)) hits), length hits)"
proof -
  have "well_placed a" "well_formed_query (query_value a)"
    using assms(1) by (simp_all add: vc_validate_common_accepts [OF supported_32])
  from vc_search_initial_run [OF supported_32 this, of m] show ?thesis
    using assms by (auto simp: seen_outcome take_map)
qed

lemma empty_case: test_empty_and_invalid_inputs
proof -
  define empty where "empty = (host_search 0 (host_query VC_SCALAR_U32 VC_RELATION_EQUAL 0 1) 0 0)\<lparr>current := 0\<rparr>"
  have fields: "query_value empty = host_query VC_SCALAR_U32 VC_RELATION_EQUAL 0 1" "snapshot_size empty = 0" "capacity empty = 0"
    by (simp_all add: empty_def host_search_def)
  have "vc_validate_common empty = Inr (host_query VC_SCALAR_U32 VC_RELATION_EQUAL 0 1, 4, 0)"
    unfolding empty_def by code_simp
  moreover have "initial_hits (host_query VC_SCALAR_U32 VC_RELATION_EQUAL 0 1) [] = []"
    unfolding host_query_def by code_simp
  ultimately have "map_option (seen empty) (vc_search_initial empty m) = Some (VC_STATUS_OK, [], 0)" for m
    using initial_seen [of empty 4 0 m "[]"] by (simp add: fields snapshot_def) (simp add: host_query_def)
  moreover have "host_initial [1, 2, 3] (host_query VC_SCALAR_U32 VC_RELATION_EQUAL 0 1) 4 = Some (VC_STATUS_OK, [], 0)"
    by (simp add: host_case) code_simp
  ultimately show ?thesis
    unfolding test_empty_and_invalid_inputs_def Let_def empty_def
    by (intro conjI host_refuses_query host_refuses_relation host_refuses_candidates; assumption?)
      (simp_all add: host_query_def well_formed_query_def vc_relation_is_valid_def valid_candidates_def)
qed

lemma alias_case: test_alias_and_zero_capacity_guards
proof -
  define q where "q = host_query VC_SCALAR_U8 VC_RELATION_EQUAL 7 1"
  define q' where "q' = q\<lparr>relation := VC_RELATION_UNCHANGED\<rparr>"
  define m where "m = host_memory [7, 7] [7, 7] [0, 1]"
  have reads: "snapshot m 0x1000 2 = [7, 7]" "load_array m 0x3000 2 = [0, 1]"
    unfolding m_def by (intro host_memory_at; simp)+
  have "vc_validate_common (host_search 2 q 0 0) = Inr (q, 1, 0)"
    unfolding q_def by code_simp
  moreover have "initial_hits q [7, 7] = [0, 1]"
    unfolding q_def host_query_def by code_simp
  moreover have equal: "relation q = VC_RELATION_EQUAL"
    by (simp add: q_def host_query_def)
  ultimately have zero: "map_option (seen (host_search 2 q 0 0)) (vc_search_initial (host_search 2 q 0 0) m) =
      Some (VC_STATUS_TRUNCATED, [], Suc (Suc 0))"
    using initial_seen [of "host_search 2 q 0 0" 1 0 m "[0, 1]"] reads equal
    by (simp add: host_search_fields)
  have both: "vc_validate_common ((host_search 2 q 0x5000 2)\<lparr>total_matches := 0x6000\<rparr>) = Inl VC_STATUS_INVALID_ARGUMENT"
    and query_alias: "vc_validate_common (host_search 2 q 0x4000 2) = Inl VC_STATUS_INVALID_ARGUMENT"
    and shifted: "vc_validate_common (host_refine 2 q' 2 0x3004 1) = Inr (q', 1, 4)"
    unfolding q_def q'_def by code_simp+
  have "vc_validate_candidates m 0x3000 2 2 1 = VC_STATUS_OK"
    using reads by (simp add: vc_validate_candidates_status [OF supported_32] valid_candidates_def)
  moreover have "vc_multiply_size 2 4 = Some (8 :: 32 word)" "vc_ranges_overlap (0x3000 :: 32 word) 8 0x3004 4"
    by code_simp+
  ultimately have "vc_search_refine (host_refine 2 q' 2 0x3004 1) m = (VC_STATUS_INVALID_ARGUMENT, m)"
    by (simp add: vc_search_refine_def shifted [unfolded One_nat_def] host_refine_fields)
  then show ?thesis
    unfolding test_alias_and_zero_capacity_guards_def Let_def q_def [symmetric] q'_def [symmetric] m_def [symmetric]
    using zero by (simp only: vc_search_initial_def both query_alias) simp
qed

end
