(* ===== verification/VC_Fuzz_Search.thy ===== *)
theory VC_Fuzz_Search
  imports VC_Self_Test "HOL-Library.Monad_Syntax"
begin

unbundle bit_operations_syntax

text \<open>
  The fuzz driver \<^verbatim>\<open>tests/fuzz/fuzz_search.c\<close>, which turns any input into calls of the search routines and
  aborts when one of their promises is broken. A run is an option: \<open>None\<close> is \<^verbatim>\<open>abort\<close>, or a search that does
  not return. The input and the objects whose addresses are taken lie in the byte memory, at the addresses of
  a record; what C guarantees of them is stated in \<open>VC_Fuzz_Objects\<close>.
\<close>

section \<open>Objects\<close>

definition VC_FUZZ_MAX_SNAPSHOT_SIZE :: nat where
  "VC_FUZZ_MAX_SNAPSHOT_SIZE = 256"

definition VC_FUZZ_MAX_CANDIDATES :: nat where
  "VC_FUZZ_MAX_CANDIDATES = 128"

record (overloaded) 's fuzz_objects =
  fz_data :: "'s word" \<comment> \<open>the parameter \<^verbatim>\<open>data\<close>\<close>
  fz_candidates :: "'s word"
  fz_in_place :: "'s word"
  fz_offsets :: "'s word"
  fz_written :: "'s word"
  fz_total :: "'s word"
  fz_refine_written :: "'s word"
  fz_refine_total :: "'s word"
  fz_in_place_written :: "'s word"
  fz_in_place_total :: "'s word"
  fz_invalid_written :: "'s word"
  fz_invalid_total :: "'s word"
  fz_arbitrary_query :: "'s word"
  fz_seed_query :: "'s word"
  fz_refine_query :: "'s word"
  fz_sizeof_query :: "'s word"

section \<open>Helpers\<close>

definition fuzz_check :: "bool \<Rightarrow> unit option" where
  "fuzz_check condition = (if condition then Some () else None)"

definition read_u32 :: "'s::len memory \<Rightarrow> 's word \<Rightarrow> uint32_t" where
  "read_u32 m bytes =
     ucast (m bytes) OR push_bit 8 (ucast (m (bytes + 1))) OR
     push_bit 16 (ucast (m (bytes + 2))) OR push_bit 24 (ucast (m (bytes + 3)))"

text \<open>The casts from an integer to the enumerations of a query.\<close>

definition scalar_type_of_nat :: "nat \<Rightarrow> vc_scalar_type" where
  "scalar_type_of_nat n =
     (if n = 0 then VC_SCALAR_U8 else if n = 1 then VC_SCALAR_S8 else if n = 2 then VC_SCALAR_U16
      else if n = 3 then VC_SCALAR_S16 else if n = 4 then VC_SCALAR_U32 else if n = 5 then VC_SCALAR_S32
      else VC_SCALAR_BEYOND (n - 6))"

definition relation_of_nat :: "nat \<Rightarrow> vc_relation" where
  "relation_of_nat n =
     (if n = 0 then VC_RELATION_EQUAL else if n = 1 then VC_RELATION_NOT_EQUAL
      else if n = 2 then VC_RELATION_CHANGED else if n = 3 then VC_RELATION_UNCHANGED
      else if n = 4 then VC_RELATION_INCREASED else if n = 5 then VC_RELATION_DECREASED
      else VC_RELATION_BEYOND (n - 6))"

function check_offsets_loop ::
  "'s::len memory \<Rightarrow> 's word \<Rightarrow> nat \<Rightarrow> 's word \<Rightarrow> 's word \<Rightarrow> nat \<Rightarrow> unit option" where
  "check_offsets_loop m offsets count bound width index =
     (if index < count
      then do {
        let offset = ucast (load_word m (offsets + 4 * of_nat index) :: uint32_t);
        fuzz_check (index = 0 \<or>
          (load_word m (offsets + 4 * of_nat (index - 1)) :: uint32_t) < load_word m (offsets + 4 * of_nat index));
        fuzz_check (offset \<le> bound);
        fuzz_check (width \<le> bound - offset);
        check_offsets_loop m offsets count bound width (Suc index)
      }
      else Some ())"
  by pat_completeness auto
termination
  by (relation "measure (\<lambda>(m, offsets, count, bound, width, index). count - index)") auto

declare check_offsets_loop.simps [simp del]

definition check_offsets ::
  "'s::len memory \<Rightarrow> 's word \<Rightarrow> 's word \<Rightarrow> 's word \<Rightarrow> 's word \<Rightarrow> unit option" where
  "check_offsets m offsets count bound width = do {
     fuzz_check (unat count \<le> VC_FUZZ_MAX_CANDIDATES);
     check_offsets_loop m offsets (unat count) bound width 0
   }"

section \<open>The input\<close>

definition arbitrary_query :: "'s::len memory \<Rightarrow> 's word \<Rightarrow> vc_query" where
  "arbitrary_query m input =
     \<lparr>scalar_type = scalar_type_of_nat (unat (m input AND 7)),
      relation = relation_of_nat (unat (m (input + 1) AND 7)),
      value_bits = read_u32 m (input + 3), stride = ucast (m (input + 2))\<rparr>"

definition seed_query :: "'s::len memory \<Rightarrow> 's word \<Rightarrow> vc_query" where
  "seed_query m input =
     \<lparr>scalar_type = scalar_type_of_nat (unat (m input mod 6)),
      relation = (if m (input + 1) AND 1 \<noteq> 0 then VC_RELATION_EQUAL else VC_RELATION_NOT_EQUAL),
      value_bits = value_bits (arbitrary_query m input), stride = ucast (m (input + 2) mod 8) + 1\<rparr>"

definition refine_query :: "'s::len memory \<Rightarrow> 's word \<Rightarrow> vc_query" where
  "refine_query m input =
     \<lparr>scalar_type = scalar_type (seed_query m input),
      relation = relation_of_nat (unat (m (input + 1) mod 6)),
      value_bits = value_bits (seed_query m input), stride = stride (seed_query m input)\<rparr>"

definition fuzz_snapshot_size :: "'s::len word \<Rightarrow> 's word" where
  "fuzz_snapshot_size data_size =
     (let half = (data_size - 8) div 2
      in if half > of_nat VC_FUZZ_MAX_SNAPSHOT_SIZE then of_nat VC_FUZZ_MAX_SNAPSHOT_SIZE else half)"

definition fuzz_capacity :: "'s::len memory \<Rightarrow> 's word \<Rightarrow> 's word" where
  "fuzz_capacity m input = ucast (m (input + 7)) mod (of_nat VC_FUZZ_MAX_CANDIDATES + 1)"

section \<open>The calls\<close>

definition fuzz_initial_args ::
  "('s::len, 'x) fuzz_objects_scheme \<Rightarrow> 's word \<Rightarrow> 's word \<Rightarrow> 's word \<Rightarrow> vc_query \<Rightarrow> 's word \<Rightarrow> 's word \<Rightarrow>
   's search_args" where
  "fuzz_initial_args ob cur n qry q out cap =
     \<lparr>current = cur, snapshot_size = n, query = qry, query_value = q, query_bytes = fz_sizeof_query ob,
      out_offsets = out, capacity = cap, written = fz_written ob, total_matches = fz_total ob\<rparr>"

definition fuzz_refine_args ::
  "('s::len, 'x) fuzz_objects_scheme \<Rightarrow> 's word \<Rightarrow> vc_query \<Rightarrow> 's word \<Rightarrow> 's word \<Rightarrow> 's word \<Rightarrow> 's word \<Rightarrow>
   's word \<Rightarrow> 's word \<Rightarrow> 's refine_args" where
  "fuzz_refine_args ob n q cands count out cap w t =
     \<lparr>current = fz_data ob + 8 + n, snapshot_size = n, query = fz_refine_query ob, query_value = q,
      query_bytes = fz_sizeof_query ob, out_offsets = out, capacity = cap, written = w, total_matches = t,
      previous = fz_data ob + 8, candidates = cands, candidate_count = count\<rparr>"

definition fuzz_arbitrary ::
  "('s::len, 'x) fuzz_objects_scheme \<Rightarrow> 's word \<Rightarrow> vc_query \<Rightarrow> 's word \<Rightarrow> 's memory \<Rightarrow> 's memory option" where
  "fuzz_arbitrary ob n q cap m = do {
     (status, m1) \<leftarrow> vc_search_initial
       (fuzz_initial_args ob (fz_data ob + 8 + n) n (fz_arbitrary_query ob) q (fz_offsets ob) cap) m;
     (if status = VC_STATUS_OK \<or> status = VC_STATUS_TRUNCATED
      then do {
        let width = (of_nat (vc_scalar_width (scalar_type q)) :: 's word);
        let written = load_word m1 (fz_written ob);
        let total = load_word m1 (fz_total ob);
        fuzz_check (width \<noteq> 0);
        fuzz_check (written \<le> cap);
        fuzz_check (written \<le> total);
        fuzz_check ((status = VC_STATUS_TRUNCATED) = (total > cap));
        check_offsets m1 (fz_offsets ob) written n width
      }
      else Some ());
     Some m1
   }"

definition fuzz_seed ::
  "('s::len, 'x) fuzz_objects_scheme \<Rightarrow> 's word \<Rightarrow> vc_query \<Rightarrow> 's memory \<Rightarrow> 's memory option" where
  "fuzz_seed ob n q m = do {
     (status, m1) \<leftarrow> vc_search_initial
       (fuzz_initial_args ob (fz_data ob + 8) n (fz_seed_query ob) q (fz_candidates ob)
         (of_nat VC_FUZZ_MAX_CANDIDATES)) m;
     let written = (load_word m1 (fz_written ob) :: 's word);
     fuzz_check (status = VC_STATUS_OK \<or> status = VC_STATUS_TRUNCATED);
     fuzz_check (unat written \<le> VC_FUZZ_MAX_CANDIDATES);
     check_offsets m1 (fz_candidates ob) written n (of_nat (vc_scalar_width (scalar_type q)));
     Some m1
   }"

definition fuzz_refine ::
  "('s::len, 'x) fuzz_objects_scheme \<Rightarrow> 's word \<Rightarrow> vc_query \<Rightarrow> 's word \<Rightarrow> 's memory \<Rightarrow>
   (vc_status \<times> 's memory) option" where
  "fuzz_refine ob n q cap m = do {
     let (status, m1) = vc_search_refine
       (fuzz_refine_args ob n q (fz_candidates ob) (load_word m (fz_written ob)) (fz_offsets ob) cap
         (fz_refine_written ob) (fz_refine_total ob)) m;
     let refine_written = (load_word m1 (fz_refine_written ob) :: 's word);
     let refine_total = load_word m1 (fz_refine_total ob);
     fuzz_check (status = VC_STATUS_OK \<or> status = VC_STATUS_TRUNCATED);
     fuzz_check (refine_written \<le> cap);
     fuzz_check (refine_written \<le> refine_total);
     fuzz_check ((status = VC_STATUS_TRUNCATED) = (refine_total > cap));
     check_offsets m1 (fz_offsets ob) refine_written n (of_nat (vc_scalar_width (scalar_type q)));
     Some (status, m1)
   }"

definition fuzz_in_place_refine ::
  "('s::len, 'x) fuzz_objects_scheme \<Rightarrow> 's word \<Rightarrow> vc_query \<Rightarrow> 's word \<Rightarrow> vc_status \<Rightarrow> 's memory \<Rightarrow>
   's memory option" where
  "fuzz_in_place_refine ob n q cap status m = do {
     let written = (load_word m (fz_written ob) :: 's word);
     let m1 = copy_bytes (fz_in_place ob) (fz_candidates ob) (unat written * 4) m;
     let m2 = store_word (store_word m1 (fz_in_place_written ob) (0 :: 's word)) (fz_in_place_total ob) (0 :: 's word);
     let (in_place_status, m3) = vc_search_refine
       (fuzz_refine_args ob n q (fz_in_place ob) written (fz_in_place ob) cap
         (fz_in_place_written ob) (fz_in_place_total ob)) m2;
     let refine_written = (load_word m3 (fz_refine_written ob) :: 's word);
     fuzz_check (in_place_status = status);
     fuzz_check (load_word m3 (fz_in_place_written ob) = refine_written);
     fuzz_check ((load_word m3 (fz_in_place_total ob) :: 's word) = load_word m3 (fz_refine_total ob));
     fuzz_check (load_array m3 (fz_in_place ob) (unat refine_written) = load_array m3 (fz_offsets ob) (unat refine_written));
     Some m3
   }"

definition fuzz_invalid ::
  "('s::len, 'x) fuzz_objects_scheme \<Rightarrow> 's word \<Rightarrow> vc_query \<Rightarrow> 's word \<Rightarrow> 's memory \<Rightarrow> 's memory option" where
  "fuzz_invalid ob n q cap m = do {
     let written = (load_word m (fz_written ob) :: 's word);
     (if written > 1
      then do {
        let m1 = store_word (store_word m (fz_invalid_written ob) (0 :: 's word)) (fz_invalid_total ob) (0 :: 's word);
        let m2 = copy_bytes (fz_in_place ob) (fz_candidates ob) (unat written * 4) m1;
        let m3 = store_word m2 (fz_in_place ob + 4) (load_word m2 (fz_in_place ob) :: uint32_t);
        let (status, m4) = vc_search_refine
          (fuzz_refine_args ob n q (fz_in_place ob) written (fz_offsets ob) cap
            (fz_invalid_written ob) (fz_invalid_total ob)) m3;
        fuzz_check (status = VC_STATUS_INVALID_CANDIDATES);
        Some m4
      }
      else Some m)
   }"

definition LLVMFuzzerTestOneInput ::
  "('s::len, 'x) fuzz_objects_scheme \<Rightarrow> 's word \<Rightarrow> 's memory \<Rightarrow> (int \<times> 's memory) option" where
  "LLVMFuzzerTestOneInput ob data_size m =
     (let m0 = foldl (\<lambda>m a. store_word m a (0 :: 's word)) m
            [fz_written ob, fz_total ob, fz_refine_written ob, fz_refine_total ob];
          n = fuzz_snapshot_size data_size;
          cap = fuzz_capacity m0 (fz_data ob)
      in if data_size < 8 then Some (0, m0)
         else do {
           m1 \<leftarrow> fuzz_arbitrary ob n (arbitrary_query m0 (fz_data ob)) cap m0;
           m2 \<leftarrow> fuzz_seed ob n (seed_query m0 (fz_data ob)) m1;
           (status, m3) \<leftarrow> fuzz_refine ob n (refine_query m0 (fz_data ob)) cap m2;
           m4 \<leftarrow> fuzz_in_place_refine ob n (refine_query m0 (fz_data ob)) cap status m3;
           m5 \<leftarrow> fuzz_invalid ob n (refine_query m0 (fz_data ob)) cap m4;
           Some (0, m5)
         })"

end
