(* ===== verification/VC_Fuzz_Objects.thy ===== *)
theory VC_Fuzz_Objects
  imports VC_Fuzz_Search
begin

unbundle bit_operations_syntax

text \<open>
  What the checks of the fuzz driver rest on: the objects C gives it are apart, so the arguments of its calls
  are as the search routines want them (\<open>fuzz_placed\<close>, \<open>fuzz_refine_placed\<close>); its sizes, queries and
  capacity are within bounds; a list of valid candidates passes \<open>check_offsets\<close>; and a call writes only the
  objects it is given (\<open>fuzz_touched\<close>).
\<close>

section \<open>What C guarantees of the objects\<close>

text \<open>The input, the arrays of 128 offsets, the counters, the queries, in this order.\<close>

definition fuzz_ranges :: "('s::len, 'x) fuzz_objects_scheme \<Rightarrow> 's word \<Rightarrow> ('s word \<times> nat) list" where
  "fuzz_ranges ob data_size =
     [(fz_data ob, unat data_size),
      (fz_candidates ob, 512), (fz_in_place ob, 512), (fz_offsets ob, 512),
      (fz_written ob, LENGTH('s) div 8), (fz_total ob, LENGTH('s) div 8),
      (fz_refine_written ob, LENGTH('s) div 8), (fz_refine_total ob, LENGTH('s) div 8),
      (fz_in_place_written ob, LENGTH('s) div 8), (fz_in_place_total ob, LENGTH('s) div 8),
      (fz_invalid_written ob, LENGTH('s) div 8), (fz_invalid_total ob, LENGTH('s) div 8),
      (fz_arbitrary_query ob, unat (fz_sizeof_query ob)), (fz_seed_query ob, unat (fz_sizeof_query ob)),
      (fz_refine_query ob, unat (fz_sizeof_query ob))]"

definition fuzz_apart :: "('s::len, 'x) fuzz_objects_scheme \<Rightarrow> 's word \<Rightarrow> bool" where
  "fuzz_apart ob data_size \<longleftrightarrow>
     (\<forall>x \<in> set (fuzz_ranges ob data_size). fst x \<noteq> 0) \<and>
     sorted_wrt ranges_apart (fuzz_ranges ob data_size)"

lemma length_fuzz_ranges [simp]: "length (fuzz_ranges ob data_size) = 15"
  by (simp add: fuzz_ranges_def)

lemma fuzz_range_sizes:
  fixes ob :: "('s::len, 'x) fuzz_objects_scheme"
  shows "fuzz_ranges ob data_size ! 0 = (fz_data ob, unat data_size)"
    and "i \<in> {1, 2, 3} \<Longrightarrow> snd (fuzz_ranges ob data_size ! i) = 512"
    and "i \<in> {4..<12} \<Longrightarrow> snd (fuzz_ranges ob data_size ! i) = LENGTH('s) div 8"
    and "i \<in> {12..<15} \<Longrightarrow> snd (fuzz_ranges ob data_size ! i) = unat (fz_sizeof_query ob)"
proof -
  show "fuzz_ranges ob data_size ! 0 = (fz_data ob, unat data_size)"
    by (simp add: fuzz_ranges_def)
  show "i \<in> {1, 2, 3} \<Longrightarrow> snd (fuzz_ranges ob data_size ! i) = 512"
    by (auto simp: fuzz_ranges_def)
  have "{4..<12} = set [4, 5, 6, 7, 8, 9, 10, 11 :: nat]"
    by auto
  then show "i \<in> {4..<12} \<Longrightarrow> snd (fuzz_ranges ob data_size ! i) = LENGTH('s) div 8"
    by (auto simp: fuzz_ranges_def)
  have "{12..<15} = set [12, 13, 14 :: nat]"
    by auto
  then show "i \<in> {12..<15} \<Longrightarrow> snd (fuzz_ranges ob data_size ! i) = unat (fz_sizeof_query ob)"
    by (auto simp: fuzz_ranges_def)
qed

lemma fuzz_range_nonnull: "fuzz_apart ob data_size \<Longrightarrow> i < 15 \<Longrightarrow> fst (fuzz_ranges ob data_size ! i) \<noteq> 0"
  by (simp add: fuzz_apart_def)

lemma fuzz_ranges_apart:
  assumes "fuzz_apart ob data_size" and "i < 15" and "j < 15" and "i \<noteq> j"
  shows "apart (fst (fuzz_ranges ob data_size ! i)) (snd (fuzz_ranges ob data_size ! i))
    (fst (fuzz_ranges ob data_size ! j)) (snd (fuzz_ranges ob data_size ! j))"
proof -
  have less: "ranges_apart (fuzz_ranges ob data_size ! i) (fuzz_ranges ob data_size ! j)"
    if "i < j" "j < 15" for i j
    using assms(1) that by (simp add: fuzz_apart_def sorted_wrt_nth_less)
  show ?thesis
    using less [of i j] less [of j i] assms(2-4) by (cases "i < j") (auto simp: ranges_apart_def apart_commute)
qed

lemma fuzz_ranges_disjoint:
  assumes "fuzz_apart ob data_size" and "i < 15" and "j < 15" and "i \<noteq> j"
  shows "span (fst (fuzz_ranges ob data_size ! i)) (snd (fuzz_ranges ob data_size ! i)) \<inter>
    span (fst (fuzz_ranges ob data_size ! j)) (snd (fuzz_ranges ob data_size ! j)) = {}"
  using fuzz_ranges_apart [OF assms] fuzz_range_nonnull [OF assms(1)] assms(2,3)
  by (intro apart_disjoint) auto

text \<open>Parts of an object are apart from the other objects.\<close>

lemma apart_part:
  fixes l r :: "'s::len word"
  assumes "apart l n r k" and "i + n' \<le> n" and "l \<noteq> 0"
  shows "apart (l + of_nat i) n' r k"
proof (cases "n' = 0 \<or> r = 0 \<or> k = 0")
  case False
  then have l: "unat l + n < 2 ^ LENGTH('s)" and rest: "unat r + k < 2 ^ LENGTH('s)" "span l n \<inter> span r k = {}"
    using assms by (auto simp: apart_def)
  have "unat (of_nat i :: 's word) = i"
    using l assms(2) by (intro unat_of_nat_small) linarith
  then have "unat (l + of_nat i) = unat l + i"
    using l assms(2) by (subst unat_add_no_wrap) linarith+
  with l rest assms(2) span_offset [of i n' n l] show ?thesis
    by (auto simp: apart_def)
qed (auto simp: apart_def)

lemma part_nonnull:
  fixes l r :: "'s::len word"
  assumes "apart l n r k" and "r \<noteq> 0" and "k \<noteq> 0" and "i + n' \<le> n" and "l \<noteq> 0" and "n' \<noteq> 0"
  shows "l + of_nat i \<noteq> 0"
proof -
  have l: "unat l + n < 2 ^ LENGTH('s)"
    using assms by (auto simp: apart_def)
  then have "unat (of_nat i :: 's word) = i"
    using assms(4) by (intro unat_of_nat_small) linarith
  then have "unat (l + of_nat i) = unat l + i"
    using l assms(4) by (subst unat_add_no_wrap) linarith+
  with assms(5) show ?thesis
    by (auto simp: unat_eq_0 dest: arg_cong [where f = unat])
qed

text \<open>The arguments of the calls: objects of the right kind, used no further than they reach.\<close>

lemma fuzz_placed:
  fixes ob :: "('s::len, 'x) fuzz_objects_scheme" and a :: "('s, 'y) search_args_scheme"
    and data_size :: "'s word"
  defines "object \<equiv> \<lambda>i. fst (fuzz_ranges ob data_size ! i)"
  assumes target: "supported_target TYPE('s)" and ob: "fuzz_apart ob data_size"
    and cur: "current a = fz_data ob + of_nat start" "start + unat (snapshot_size a) \<le> unat data_size"
      "unat (snapshot_size a) \<le> 256"
    and out: "out_offsets a = object k" "k \<in> {1, 2, 3}" "unat (capacity a) \<le> 128"
    and counters: "written a = object i" "total_matches a = object j" "i \<in> {4..<12}" "j \<in> {4..<12}" "i \<noteq> j"
    and qry: "query a = object l" "l \<in> {12..<15}" "query_bytes a = fz_sizeof_query ob"
  shows "well_placed a"
proof -
  let ?r = "fuzz_ranges ob data_size"
  have sizes: "snd (?r ! 0) = unat data_size" "fst (?r ! 0) = fz_data ob" "snd (?r ! k) = 512"
    "snd (?r ! i) = LENGTH('s) div 8" "snd (?r ! j) = LENGTH('s) div 8" "snd (?r ! l) = unat (fz_sizeof_query ob)"
    using out(2) counters(3,4) qry(2) by (simp_all only: fuzz_range_sizes fst_conv snd_conv)
  have distinct: "k \<noteq> i" "k \<noteq> j" "k \<noteq> l" "i \<noteq> l" "j \<noteq> l" "k \<noteq> 0" "i \<noteq> 0" "j \<noteq> 0" and bounds: "k < 15" "i < 15" "j < 15" "l < 15"
    using out(2) counters(3,4) qry(2) by auto
  have apart: "apart (object x) (snd (?r ! x)) (object y) (snd (?r ! y))" if "x < 15" "y < 15" "x \<noteq> y" for x y
    using fuzz_ranges_apart [OF ob that] by (simp add: object_def)
  have nonnull: "object x \<noteq> 0" if "x < 15" for x
    using fuzz_range_nonnull [OF ob that] by (simp add: object_def)
  have data: "apart (current a) (unat (snapshot_size a)) (object x) (snd (?r ! x))" if "x < 15" "x \<noteq> 0" for x
    using apart_part [OF apart [of 0 x], of start "unat (snapshot_size a)"] that cur(1,2) nonnull [of 0]
    by (simp add: sizes object_def)
  have "current a = 0 \<longrightarrow> unat (snapshot_size a) = 0"
    using part_nonnull [OF apart [of 0 k], of start "unat (snapshot_size a)"] cur(1,2) nonnull [of 0] nonnull [of k]
      bounds distinct by (auto simp: sizes object_def)
  moreover have "apart (object k) (4 * unat (capacity a)) x n" if "apart (object k) 512 x n" for x n
    by (rule apart_fewer [OF that]) (use out(3) in simp_all)
  moreover have "4 * unat (capacity a) < 2 ^ LENGTH('s)"
    using out(3) target by (auto simp: supported_target_def)
  ultimately show ?thesis
    using apart [of k i] apart [of k j] apart [of k l] apart [of i j] apart [of i l] apart [of j l] distinct bounds
      counters(5) nonnull data [of k] data [of i] data [of j] cur(3) out(1) counters(1,2) qry(1,3)
    by (simp add: well_placed_def Let_def sizes apart_commute [of "current a"])
qed

lemma fuzz_refine_placed:
  fixes ob :: "('s::len, 'x) fuzz_objects_scheme" and a :: "('s, 'y) refine_args_scheme"
    and data_size :: "'s word"
  defines "object \<equiv> \<lambda>i. fst (fuzz_ranges ob data_size ! i)"
  assumes target: "supported_target TYPE('s)" and ob: "fuzz_apart ob data_size" and placed: "well_placed a"
    and prev: "previous a = fz_data ob + of_nat start" "start + unat (snapshot_size a) \<le> unat data_size"
    and out: "out_offsets a = object k" "k \<in> {1, 2, 3}" "unat (capacity a) \<le> 128"
    and cand: "candidates a = object c" "c \<in> {1, 2, 3}" "unat (candidate_count a) \<le> 128"
    and counters: "written a = object i" "total_matches a = object j" "i \<in> {4..<12}" "j \<in> {4..<12}"
  shows "refine_placed a"
proof -
  let ?r = "fuzz_ranges ob data_size"
  have sizes: "snd (?r ! 0) = unat data_size" "fst (?r ! 0) = fz_data ob" "snd (?r ! k) = 512" "snd (?r ! c) = 512"
    "snd (?r ! i) = LENGTH('s) div 8" "snd (?r ! j) = LENGTH('s) div 8"
    using out(2) cand(2) counters(3,4) by (simp_all only: fuzz_range_sizes fst_conv snd_conv)
  have distinct: "c \<noteq> i" "c \<noteq> j" "k \<noteq> 0" "i \<noteq> 0" "j \<noteq> 0" and bounds: "k < 15" "c < 15" "i < 15" "j < 15"
    using out(2) cand(2) counters(3,4) by auto
  have apart: "apart (object x) (snd (?r ! x)) (object y) (snd (?r ! y))" if "x < 15" "y < 15" "x \<noteq> y" for x y
    using fuzz_ranges_apart [OF ob that] by (simp add: object_def)
  have nonnull: "object x \<noteq> 0" if "x < 15" for x
    using fuzz_range_nonnull [OF ob that] by (simp add: object_def)
  have data: "apart (previous a) (unat (snapshot_size a)) (object x) (snd (?r ! x))" if "x < 15" "x \<noteq> 0" for x
    using apart_part [OF apart [of 0 x], of start "unat (snapshot_size a)"] that prev nonnull [of 0]
    by (simp add: sizes object_def)
  have "previous a = 0 \<longrightarrow> unat (snapshot_size a) = 0"
    using part_nonnull [OF apart [of 0 k], of start "unat (snapshot_size a)"] prev nonnull [of 0] nonnull [of k]
      bounds distinct by (auto simp: sizes object_def)
  moreover have "apart (previous a) (unat (snapshot_size a)) (object k) 512"
    using data [of k] bounds distinct by (simp add: sizes)
  then have "apart (previous a) (unat (snapshot_size a)) (object k) (4 * unat (capacity a))"
    by (rule apart_fewer) (use out(3) in simp_all)
  moreover have "apart x n (object c) (4 * unat (candidate_count a))" if "apart x n (object c) 512" for x n
    by (rule apart_fewer [OF that]) (use cand(3) in simp_all)
  moreover have "object k = object c \<or> apart (object c) (4 * unat (candidate_count a)) (object k) (4 * unat (capacity a))"
    using apart [of c k] bounds by (cases "c = k") (auto intro: apart_fewer [of _ 512 _ 512] simp: sizes out(3) cand(3))
  moreover have "4 * unat (candidate_count a) < 2 ^ LENGTH('s)"
    using cand(3) target by (auto simp: supported_target_def)
  ultimately show ?thesis
    using placed apart [of i c] apart [of j c] distinct bounds nonnull data [of i] data [of j]
    by (simp add: refine_placed_def Let_def sizes out(1) cand(1) counters(1,2) apart_commute [of "previous a"])
qed

section \<open>The parameters of a run\<close>

lemma fuzz_sizes:
  assumes "supported_target TYPE('s::len)"
  shows "unat (of_nat VC_FUZZ_MAX_CANDIDATES :: 's word) = 128"
    and "unat (of_nat VC_FUZZ_MAX_SNAPSHOT_SIZE :: 's word) = 256"
    and "unat (fuzz_capacity m (input :: 's word)) \<le> 128"
    and "8 \<le> (sz :: 's word) \<Longrightarrow> unat (fuzz_snapshot_size sz) = min 256 ((unat sz - 8) div 2)"
proof -
  have cases: "LENGTH('s) = 32 \<or> LENGTH('s) = 64"
    using assms by (simp add: supported_target_def)
  then show candidates: "unat (of_nat VC_FUZZ_MAX_CANDIDATES :: 's word) = 128"
    and size: "unat (of_nat VC_FUZZ_MAX_SNAPSHOT_SIZE :: 's word) = 256"
    by (auto simp: VC_FUZZ_MAX_CANDIDATES_def VC_FUZZ_MAX_SNAPSHOT_SIZE_def)
  have "unat (of_nat VC_FUZZ_MAX_CANDIDATES + 1 :: 's word) = 129"
    using cases by (auto simp: VC_FUZZ_MAX_CANDIDATES_def)
  then show "unat (fuzz_capacity m (input :: 's word)) \<le> 128"
    by (simp add: fuzz_capacity_def unat_mod less_Suc_eq_le [symmetric])
  have "unat (8 :: 's word) = 8" "unat (2 :: 's word) = 2"
    using cases by auto
  then show "8 \<le> (sz :: 's word) \<Longrightarrow> unat (fuzz_snapshot_size sz) = min 256 ((unat sz - 8) div 2)"
    by (auto simp: fuzz_snapshot_size_def Let_def size word_less_nat_alt word_le_nat_alt unat_div unat_sub_no_wrap)
qed

lemma scalar_type_of_nat_width: "n < 6 \<Longrightarrow> vc_scalar_width (scalar_type_of_nat n) \<noteq> 0"
  by (auto simp: scalar_type_of_nat_def)

lemma relation_of_nat_valid: "n < 6 \<Longrightarrow> relation_of_nat n \<noteq> VC_RELATION_BEYOND k"
  by (auto simp: relation_of_nat_def)

lemma unat_mod_below: "(b :: 'w::len word) \<noteq> 0 \<Longrightarrow> unat (a mod b) < unat b"
  by (simp add: unat_mod unat_gt_0)

lemma fuzz_queries_ok:
  shows "well_formed_query (seed_query m input)"
    and "relation (seed_query m input) \<in> {VC_RELATION_EQUAL, VC_RELATION_NOT_EQUAL}"
    and "well_formed_query (refine_query m input)"
proof -
  have types: "unat (m input mod 6) < 6" "unat (m (input + 1) mod 6) < 6"
    using unat_mod_below [of "6 :: uint8_t"] by simp_all
  have "unat (m (input + 2) mod 8) < 8"
    using unat_mod_below [of "8 :: uint8_t" "m (input + 2)"] by simp
  then have "unat (ucast (m (input + 2) mod 8) :: uint32_t) < 8"
    by (simp add: unat_ucast_widen)
  then have "unat (ucast (m (input + 2) mod 8) + 1 :: uint32_t) = unat (ucast (m (input + 2) mod 8) :: uint32_t) + 1"
    by (subst unat_add_no_wrap) simp_all
  then have stride: "ucast (m (input + 2) mod 8) + 1 \<noteq> (0 :: uint32_t)"
    by (auto dest: arg_cong [where f = unat])
  show "well_formed_query (seed_query m input)"
    using stride scalar_type_of_nat_width [OF types(1)]
    by (auto simp: well_formed_query_def seed_query_def)
  show "relation (seed_query m input) \<in> {VC_RELATION_EQUAL, VC_RELATION_NOT_EQUAL}"
    by (simp add: seed_query_def)
  show "well_formed_query (refine_query m input)"
    using stride scalar_type_of_nat_width [OF types(1)] relation_of_nat_valid [OF types(2)]
    by (auto simp: well_formed_query_def refine_query_def seed_query_def)
qed

section \<open>The checks\<close>

lemma fuzz_check_simps [simp]:
  "fuzz_check True = Some ()" "fuzz_check c = Some u \<longleftrightarrow> c" "c \<Longrightarrow> fuzz_check c \<bind> f = f ()"
  by (auto simp: fuzz_check_def)

lemma check_offsets_passes:
  fixes bound count :: "'s::len word"
  assumes target: "supported_target TYPE('s)" and width: "unat width = w" "w \<le> 4"
    and valid: "valid_candidates (load_array m offsets (unat count)) (unat bound) w" and count: "unat count \<le> 128"
  shows "check_offsets m offsets count bound width = Some ()"
proof -
  let ?cs = "load_array m offsets (unat count)"
  have loop: "check_offsets_loop m offsets (unat count) bound width index = Some ()" for index
  proof (induction "unat count - index" arbitrary: index rule: less_induct)
    case less
    show ?case
    proof (cases "index < unat count")
      case False
      then show ?thesis
        by (subst check_offsets_loop.simps) simp
    next
      case True
      let ?c = "load_word m (offsets + 4 * of_nat index) :: uint32_t"
      have "?c \<in> set ?cs"
        using True nth_mem [of index ?cs] by simp
      then have "unat ?c + w \<le> unat bound"
        using valid by (simp add: valid_candidates_def)
      moreover have "unat (ucast ?c :: 's word) = unat ?c"
        using supported_targetD(1) [OF target] by (simp add: unat_ucast_widen)
      ultimately have inside: "(ucast ?c :: 's word) \<le> bound" "width \<le> bound - ucast ?c"
        using width(1) by (simp_all add: word_le_nat_alt unat_sub_no_wrap)
      have "index = 0 \<or> ?cs ! (index - 1) < ?cs ! index"
        using valid True
        by (cases index) (auto simp: valid_candidates_def sorted_wrt_iff_nth_less simp del: nth_load_array)
      then have "index = 0 \<or> (load_word m (offsets + 4 * of_nat (index - 1)) :: uint32_t) < ?c"
        by (simp only: nth_load_array True less_imp_diff_less)
      with inside less.hyps [of "Suc index"] True show ?thesis
        by (subst check_offsets_loop.simps) (simp add: Let_def)
    qed
  qed
  with count show ?thesis
    by (simp add: check_offsets_def VC_FUZZ_MAX_CANDIDATES_def)
qed

section \<open>What the calls touch\<close>

definition fuzz_touched :: "('s::len, 'x) fuzz_objects_scheme \<Rightarrow> 's word \<Rightarrow> nat set \<Rightarrow> 's word set" where
  "fuzz_touched ob data_size I =
     (\<Union>i \<in> I. span (fst (fuzz_ranges ob data_size ! i)) (snd (fuzz_ranges ob data_size ! i)))"

lemma fuzz_untouched:
  assumes "fuzz_apart ob data_size" and "j < 15" and "I \<subseteq> {..<15} - {j}"
  shows "span (fst (fuzz_ranges ob data_size ! j)) (snd (fuzz_ranges ob data_size ! j)) \<inter> fuzz_touched ob data_size I = {}"
  using fuzz_ranges_disjoint [OF assms(1,2)] assms(3) unfolding fuzz_touched_def by blast

lemma outcome_frame:
  fixes a :: "('s::len, 'y) search_args_scheme" and ob :: "('s, 'x) fuzz_objects_scheme" and data_size :: "'s word"
  defines "object \<equiv> \<lambda>i. fst (fuzz_ranges ob data_size ! i)"
  assumes "search_outcome a m hits status m'"
    and "out_offsets a = object k" "k \<in> {1, 2, 3}" "unat (capacity a) \<le> 128"
    and "written a = object i" "total_matches a = object j" "i \<in> {4..<12}" "j \<in> {4..<12}"
  shows "frame (fuzz_touched ob data_size {k, i, j}) m m'"
proof -
  let ?r = "fuzz_ranges ob data_size"
  have sizes: "snd (?r ! k) = 512" "snd (?r ! i) = LENGTH('s) div 8" "snd (?r ! j) = LENGTH('s) div 8"
    using assms(4,8,9) by (simp_all only: fuzz_range_sizes)
  have "span (object k) (4 * length (take (unat (capacity a)) hits)) \<subseteq> span (object k) 512"
    using assms(5) by (intro span_mono) simp
  moreover have "fuzz_touched ob data_size {k, i, j} =
      span (object k) 512 \<union> span (object i) (LENGTH('s) div 8) \<union> span (object j) (LENGTH('s) div 8)"
    by (simp add: fuzz_touched_def sizes object_def Un_assoc)
  ultimately show ?thesis
    using assms(2,3,6,7) by (auto simp: search_outcome_def Let_def frame_def)
qed

section \<open>The calls pass their checks\<close>

text \<open>The counters of an outcome, and what the driver checks of them.\<close>

lemma outcome_counters:
  fixes a :: "('s::len, 'x) search_args_scheme"
  assumes "search_outcome a m hits status m'"
  shows "load_word m' (written a) \<le> capacity a"
    "(load_word m' (written a) :: 's word) \<le> load_word m' (total_matches a)"
    "status = VC_STATUS_OK \<or> status = VC_STATUS_TRUNCATED"
    "(status = VC_STATUS_TRUNCATED) = (load_word m' (total_matches a) > capacity a)"
  using assms by (auto simp: search_outcome_def Let_def word_le_nat_alt word_less_nat_alt)

lemma width_word:
  assumes "supported_target TYPE('s::len)"
  shows "unat (of_nat (vc_scalar_width t) :: 's word) = vc_scalar_width t"
  using supported_width [OF assms vc_scalar_width_le_4] by (rule unat_of_nat_small)

lemma fuzz_initial_run:
  fixes ob :: "('s::len, 'x) fuzz_objects_scheme" and data_size cur n qry out cap :: "'s word" and q m
  defines "object \<equiv> \<lambda>i. fst (fuzz_ranges ob data_size ! i)"
  defines "a \<equiv> fuzz_initial_args ob cur n qry q out cap"
  assumes target: "supported_target TYPE('s)" and ob: "fuzz_apart ob data_size"
    and cur: "cur = fz_data ob + of_nat start" "start + unat n \<le> unat data_size" "unat n \<le> 256"
    and out: "out = object k" "k \<in> {1, 2, 3}" "unat cap \<le> 128" and qry: "qry = object l" "l \<in> {12..<15}"
  shows "well_formed_query q \<Longrightarrow> relation q \<in> {VC_RELATION_EQUAL, VC_RELATION_NOT_EQUAL} \<Longrightarrow> initial_accepted a"
    and "\<exists>status m'. vc_search_initial a m = Some (status, m') \<and> frame (fuzz_touched ob data_size {k, 4, 5}) m m' \<and>
      (if initial_accepted a
       then (\<exists>hits. search_outcome a m hits status m') \<and>
         valid_candidates (load_array m' out (unat (load_word m' (fz_written ob) :: 's word))) (unat n)
           (vc_scalar_width (scalar_type q)) \<and> unat (load_word m' (fz_written ob) :: 's word) \<le> 128
       else status \<noteq> VC_STATUS_OK \<and> status \<noteq> VC_STATUS_TRUNCATED)" (is ?run)
proof -
  have a: "current a = cur" "snapshot_size a = n" "query a = qry" "query_value a = q" "out_offsets a = out"
    "capacity a = cap" "query_bytes a = fz_sizeof_query ob" "written a = object 4" "total_matches a = object 5"
    by (simp_all add: a_def fuzz_initial_args_def object_def fuzz_ranges_def)
  have written: "object 4 = fz_written ob"
    by (simp add: object_def fuzz_ranges_def)
  have placed: "well_placed a"
    by (rule fuzz_placed [OF target ob, of a start k 4 5 l]) (use cur out qry in \<open>simp_all add: a object_def\<close>)
  then show "well_formed_query q \<Longrightarrow> relation q \<in> {VC_RELATION_EQUAL, VC_RELATION_NOT_EQUAL} \<Longrightarrow> initial_accepted a"
    by (simp add: initial_accepted_def a)
  show ?run
  proof (cases "initial_accepted a")
    case True
    then have parts: "well_formed_query (query_value a)" "relation (query_value a) \<in> {VC_RELATION_EQUAL, VC_RELATION_NOT_EQUAL}"
      by (simp_all add: initial_accepted_def)
    obtain status m' where run: "vc_search_initial a m = Some (status, m')"
      and outcome: "\<exists>hits. search_outcome a m hits status m'"
      using vc_search_initial_run [OF target placed parts, of m] by blast
    from outcome obtain hits where hits: "search_outcome a m hits status m'"
      by blast
    have "frame (fuzz_touched ob data_size {k, 4, 5}) m m'"
      by (rule outcome_frame [OF hits]) (use out in \<open>simp_all add: a object_def\<close>)
    moreover have "valid_candidates (load_array m' out (unat (load_word m' (fz_written ob) :: 's word))) (unat n)
        (vc_scalar_width (scalar_type q))"
      using initial_stored_valid [OF target True run] by (simp add: stored_offsets_def a written)
    moreover have "unat (load_word m' (fz_written ob) :: 's word) \<le> 128"
      using outcome_counters(1) [OF hits] out(3) by (simp add: a written word_le_nat_alt)
    ultimately show ?run
      using run outcome True by auto
  next
    case False
    then obtain status where "vc_search_initial a m = Some (status, m)"
      "status \<in> {VC_STATUS_INVALID_ARGUMENT, VC_STATUS_INVALID_QUERY}"
      using vc_search_initial_error [OF target False, of m] by blast
    with False show ?run
      by (auto simp: frame_def)
  qed
qed

end
