(* ===== verification/VC_Search_Random_Tests.thy ===== *)
theory VC_Search_Random_Tests
  imports VC_Search_Host_Tests VC_Fuzz_Objects
begin

unbundle bit_operations_syntax

text \<open>
  The property tests of \<^verbatim>\<open>tests/host/test_search.c\<close> with the random numbers that they draw. An iteration is a
  function of the state of the generator; it is proved to pass in every state, so that the 2000 iterations of
  the two tests pass without being evaluated.
\<close>

section \<open>Random numbers\<close>

definition next_random :: "uint32_t \<Rightarrow> uint32_t" where
  "next_random state =
     (let v1 = state XOR push_bit 13 state; v2 = v1 XOR drop_bit 17 v1 in v2 XOR push_bit 5 v2)"

text \<open>The generator never reaches zero, where it would stay.\<close>

lemma xor_push_bit_0:
  fixes v :: uint32_t
  assumes "v XOR push_bit (Suc n) v = 0"
  shows "v = 0"
proof -
  have "v XOR (v XOR push_bit (Suc n) v) = v XOR 0"
    by (simp only: assms)
  then have step: "v = push_bit (Suc n) v"
    by (simp flip: xor.assoc)
  have "\<not> bit v k" for k
  proof (induction k rule: less_induct)
    case (less k)
    have "bit v k \<longleftrightarrow> k < 32 \<and> Suc n \<le> k \<and> bit v (k - Suc n)"
      by (subst step) (auto simp: bit_push_bit_iff simp del: push_bit_Suc)
    with less.IH [of "k - Suc n"] show ?case
      by auto
  qed
  then show ?thesis
    by (simp add: bit_eq_iff)
qed

lemma xor_drop_bit_0:
  fixes v :: uint32_t
  assumes "v XOR drop_bit (Suc n) v = 0"
  shows "v = 0"
proof -
  have "v XOR (v XOR drop_bit (Suc n) v) = v XOR 0"
    by (simp only: assms)
  then have step: "v = drop_bit (Suc n) v"
    by (simp flip: xor.assoc)
  have "\<not> bit v k" for k
  proof (induction "32 - k" arbitrary: k rule: less_induct)
    case less
    have "bit v k \<longleftrightarrow> bit v (Suc n + k)"
      by (subst step) (simp add: bit_drop_bit_eq)
    with less.hyps [of "Suc n + k"] show ?case
      using bit_imp_le_length [of v k] by (cases "k < 32") auto
  qed
  then show ?thesis
    by (simp add: bit_eq_iff)
qed

lemma next_random_0_iff: "next_random v = 0 \<longleftrightarrow> v = 0"
proof -
  define v1 v2 where "v1 = v XOR push_bit 13 v" and "v2 = v1 XOR drop_bit 17 v1"
  have "next_random v = v2 XOR push_bit 5 v2"
    by (simp add: next_random_def Let_def v1_def v2_def)
  moreover have "v1 = 0 \<longleftrightarrow> v = 0" "v2 = 0 \<longleftrightarrow> v1 = 0" "v2 XOR push_bit 5 v2 = 0 \<longleftrightarrow> v2 = 0"
    using xor_push_bit_0 [of v 12] xor_push_bit_0 [of v2 4] xor_drop_bit_0 [of v1 16]
    unfolding v1_def v2_def by auto
  ultimately show ?thesis
    by simp
qed

primrec random_bytes :: "nat \<Rightarrow> uint32_t \<Rightarrow> uint8_t list \<times> uint32_t" where
  "random_bytes 0 s = ([], s)"
| "random_bytes (Suc n) s =
     (let s1 = next_random s; (bytes, s2) = random_bytes n s1 in (ucast s1 # bytes, s2))"

primrec random_pairs :: "nat \<Rightarrow> uint32_t \<Rightarrow> (uint8_t list \<times> uint8_t list) \<times> uint32_t" where
  "random_pairs 0 s = (([], []), s)"
| "random_pairs (Suc n) s =
     (let s1 = next_random s; s2 = next_random s1; ((old, new), s3) = random_pairs n s2
      in ((ucast s1 # old, ucast s2 # new), s3))"

text \<open>The candidates are drawn from the \<open>count\<close> offsets that begin at \<open>index\<close>.\<close>

primrec random_candidates :: "nat \<Rightarrow> nat \<Rightarrow> uint32_t \<Rightarrow> uint32_t list \<times> uint32_t" where
  "random_candidates 0 index s = ([], s)"
| "random_candidates (Suc count) index s =
     (let s1 = next_random s; (cs, s2) = random_candidates count (Suc index) s1
      in (if s1 AND 1 \<noteq> 0 then of_nat index # cs else cs, s2))"

lemma length_random_bytes: "length (fst (random_bytes n s)) = n"
  by (induction n arbitrary: s) (simp_all add: Let_def split_beta)

lemma length_random_pairs:
  "length (fst (fst (random_pairs n s))) = n" "length (snd (fst (random_pairs n s))) = n"
  by (induction n arbitrary: s) (simp_all add: Let_def split_beta)

lemma random_candidates_ok:
  assumes "index + count \<le> 64"
  shows "sorted_wrt (<) (fst (random_candidates count index s)) \<and>
    (\<forall>c \<in> set (fst (random_candidates count index s)). index \<le> unat c \<and> unat c < index + count) \<and>
    length (fst (random_candidates count index s)) \<le> count"
  using assms
proof (induction count arbitrary: index s)
  case 0
  then show ?case
    by simp
next
  case (Suc count)
  have "unat (of_nat index :: uint32_t) = index"
    using Suc.prems by (intro unat_of_nat_small) simp
  moreover obtain cs s2 where rest: "random_candidates count (Suc index) (next_random s) = (cs, s2)"
    by fastforce
  moreover have "sorted_wrt (<) cs \<and> (\<forall>c \<in> set cs. Suc index \<le> unat c \<and> unat c < Suc index + count) \<and> length cs \<le> count"
    using Suc.IH [of "Suc index" "next_random s"] Suc.prems rest by simp
  moreover from calculation have "of_nat index < c" if "c \<in> set cs" for c :: uint32_t
    using that unfolding word_less_nat_alt by auto
  ultimately show ?case
    by (auto simp: Let_def)
qed

lemma drawn_query:
  "0 < vc_scalar_width (scalar_type_of_nat (unat (s mod 6 :: uint32_t)))"
  "relation_of_nat (unat (s mod 6 :: uint32_t)) \<noteq> VC_RELATION_BEYOND n"
  "(s mod 8 :: uint32_t) + 1 \<noteq> 0"
  "unat (s mod 65 :: uint32_t) \<le> 64"
proof -
  note below = unat_mod_below [of "6 :: uint32_t" s] unat_mod_below [of "65 :: uint32_t" s] unat_mod_below [of "8 :: uint32_t" s]
  show "unat (s mod 65 :: uint32_t) \<le> 64"
    using below by simp
  show "0 < vc_scalar_width (scalar_type_of_nat (unat (s mod 6)))" "relation_of_nat (unat (s mod 6)) \<noteq> VC_RELATION_BEYOND n"
    using below scalar_type_of_nat_width [of "unat (s mod 6)"] relation_of_nat_valid [of "unat (s mod 6)" n] by simp_all
  have "unat ((s mod 8) + 1) = unat (s mod 8) + 1"
    using below by (simp add: unat_word_ariths)
  then show "(s mod 8 :: uint32_t) + 1 \<noteq> 0"
    by (metis add_is_0 one_neq_zero unsigned_0)
qed

section \<open>Iterations\<close>

text \<open>What an iteration draws: the bytes, the query, \<^verbatim>\<open>size\<close>, \<^verbatim>\<open>capacity\<close>, and the state it leaves.\<close>

definition initial_draw :: "uint32_t \<Rightarrow> uint8_t list \<times> vc_query \<times> nat \<times> nat \<times> uint32_t" where
  "initial_draw s0 =
     (let (bytes, s1) = random_bytes 64 s0;
          s2 = next_random s1; s3 = next_random s2; s4 = next_random s3; s5 = next_random s4;
          s6 = next_random s5; s7 = next_random s6
      in (bytes,
          host_query (scalar_type_of_nat (unat (s2 mod 6)))
            (if s3 AND 1 \<noteq> 0 then VC_RELATION_EQUAL else VC_RELATION_NOT_EQUAL) s4 (s5 mod 8 + 1),
          unat (s6 mod 65), unat (s7 mod 65), s7))"

definition refinement_draw ::
  "uint32_t \<Rightarrow> uint8_t list \<times> uint8_t list \<times> uint32_t list \<times> vc_query \<times> nat \<times> nat \<times> uint32_t" where
  "refinement_draw s0 =
     (let ((old, new), s1) = random_pairs 64 s0;
          s2 = next_random s1; s3 = next_random s2; s4 = next_random s3; s5 = next_random s4;
          s6 = next_random s5; s7 = next_random s6;
          q = host_query (scalar_type_of_nat (unat (s2 mod 6))) (relation_of_nat (unat (s3 mod 6))) s4 (s5 mod 8 + 1);
          n = unat (s6 mod 65); width = vc_scalar_width (scalar_type q);
          (cs, s8) = random_candidates (if n \<ge> width then n - width + 1 else 0) 0 s7
      in (old, new, cs, q, n, unat (s7 mod 65), s8))"

text \<open>The objects before the call: the counters are \<^verbatim>\<open>SIZE_MAX\<close>, \<^verbatim>\<open>guarded\<close> is filled with the given value.\<close>

definition random_memory :: "uint8_t list \<Rightarrow> uint8_t list \<Rightarrow> uint32_t list \<Rightarrow> uint32_t \<Rightarrow> 32 memory" where
  "random_memory old new cs guard =
     store_array (store_word (store_word (host_memory old new cs) 0x6000 (- 1 :: 32 word)) 0x6010 (- 1 :: 32 word))
       0x4ffc (replicate 66 guard)"

text \<open>The \<^verbatim>\<open>CHECK\<close>s after a call.\<close>

definition output_checks :: "32 word \<Rightarrow> nat \<Rightarrow> uint32_t list \<times> nat \<Rightarrow> vc_status \<times> 32 memory \<Rightarrow> bool" where
  "output_checks out limit = (\<lambda>(expected, matches) (status, m').
     status = (if matches > limit then VC_STATUS_TRUNCATED else VC_STATUS_OK) \<and>
     unat (load_word m' 0x6000 :: 32 word) = length expected \<and> unat (load_word m' 0x6010 :: 32 word) = matches \<and>
     load_array m' out (length expected) = expected)"

definition guard_checks ::
  "uint8_t list \<Rightarrow> uint8_t list \<Rightarrow> uint32_t list \<Rightarrow> uint32_t \<Rightarrow> nat \<Rightarrow> 32 memory \<Rightarrow> bool" where
  "guard_checks old new cs guard limit m' \<longleftrightarrow>
     load_word m' 0x4ffc = guard \<and> load_word m' (0x5000 + of_nat (4 * limit)) = guard \<and>
     snapshot m' 0x2000 (length old) = old \<and> snapshot m' 0x1000 (length new) = new \<and>
     load_array m' 0x3000 (length cs) = cs"

definition initial_iteration :: "uint32_t \<Rightarrow> bool \<times> uint32_t" where
  "initial_iteration s0 =
     (let (bytes, q, n, limit, s1) = initial_draw s0
      in (case (reference_initial q (take n bytes) limit,
                vc_search_initial (host_search n q 0x5000 limit) (random_memory [] bytes [] 0xa5a5a5a5)) of
            (Some expected, Some (status, m')) \<Rightarrow>
              output_checks 0x5000 limit expected (status, m') \<and> guard_checks [] bytes [] 0xa5a5a5a5 limit m'
          | _ \<Rightarrow> False, s1))"

definition refinement_iteration :: "uint32_t \<Rightarrow> bool \<times> uint32_t" where
  "refinement_iteration s0 =
     (let (old, new, cs, q, n, limit, s1) = refinement_draw s0;
          m = random_memory old new cs 0x5a5a5a5a;
          expected = reference_refine q (take n old) (take n new) cs limit;
          (status, m') = vc_search_refine (host_refine n q (length cs) 0x5000 limit) m;
          in_place = vc_search_refine (host_refine n q (length cs) 0x3000 limit) m
      in (output_checks 0x5000 limit expected (status, m') \<and> guard_checks old new cs 0x5a5a5a5a limit m' \<and>
          output_checks 0x3000 limit expected in_place, s1))"

primrec all_iterations :: "(uint32_t \<Rightarrow> bool \<times> uint32_t) \<Rightarrow> nat \<Rightarrow> uint32_t \<Rightarrow> bool" where
  "all_iterations iteration 0 state = True"
| "all_iterations iteration (Suc n) state =
     (let (passed, state') = iteration state in passed \<and> all_iterations iteration n state')"

definition test_initial_search_properties :: bool where
  "test_initial_search_properties \<longleftrightarrow> all_iterations initial_iteration 2000 0x8b5ad4ce"

definition test_refinement_properties :: bool where
  "test_refinement_properties \<longleftrightarrow> all_iterations refinement_iteration 2000 0x16c3a72d"

lemma all_iterations_pass: "(\<And>state. fst (iteration state)) \<Longrightarrow> all_iterations iteration n s"
proof (induction n arbitrary: s)
  case (Suc n)
  then have "fst (iteration s)"
    by simp
  with Suc show ?case
    by (simp add: split_beta)
qed simp

lemma random_memory_reads:
  fixes guard :: uint32_t
  assumes "length new = 64" and "length old \<le> 64" and "length cs \<le> 64" and "limit \<le> 64"
  defines "m \<equiv> random_memory old new cs guard"
  shows "snapshot m 0x1000 64 = new" and "snapshot m 0x2000 (length old) = old" and "load_array m 0x3000 (length cs) = cs"
    and "load_word m 0x4ffc = guard" and "load_word m (0x5000 + of_nat (4 * limit)) = guard"
proof -
  have same: "m x = host_memory old new cs x" if "x \<notin> span 0x4ffc 264 \<union> span 0x6000 4 \<union> span 0x6010 4" for x
    using that by (simp add: m_def random_memory_def store_array_outside store_word_outside)
  have apart: "span 0x1000 64 \<inter> (span 0x4ffc 264 \<union> span 0x6000 4 \<union> span 0x6010 (4 :: nat)) = ({} :: 32 word set)"
    "span 0x2000 64 \<inter> (span 0x4ffc 264 \<union> span 0x6000 4 \<union> span 0x6010 (4 :: nat)) = ({} :: 32 word set)"
    "span 0x3000 256 \<inter> (span 0x4ffc 264 \<union> span 0x6000 4 \<union> span 0x6010 (4 :: nat)) = ({} :: 32 word set)"
    by (auto simp: mem_span_no_wrap)
  note reads = host_memory_at [of new old cs]
  show "snapshot m 0x1000 64 = new"
    using reads(1) [of 64] assms(1-3) apart(1) by (subst snapshot_cong [OF same]) auto
  show "snapshot m 0x2000 (length old) = old"
    using reads(2) [OF _ _ _ refl] assms(1-3) apart(2) span_mono [of "length old" 64 "0x2000 :: 32 word"]
    by (subst snapshot_cong [OF same]) auto
  show "load_array m 0x3000 (length cs) = cs"
    using reads(3) [OF _ _ _ refl] assms(1-3) apart(3) span_mono [of "4 * length cs" 256 "0x3000 :: 32 word"]
    by (subst load_array_cong [OF same]) auto
  have guards: "load_array m 0x4ffc 66 = replicate 66 guard"
    using load_store_array [of "replicate 66 guard" _ "0x4ffc :: 32 word"] by (simp add: m_def random_memory_def)
  have slot: "load_word m (0x4ffc + 4 * of_nat i) = guard" if "i < 66" for i
    using nth_load_array [OF that, of m "0x4ffc"] that by (simp add: guards)
  show "load_word m 0x4ffc = guard"
    using slot [of 0] by simp
  show "load_word m (0x5000 + of_nat (4 * limit)) = guard"
    using slot [of "Suc limit"] assms(4) by (simp add: algebra_simps)
qed

lemma output_checks_hold:
  assumes "property_checks a m expected status m'" and "out_offsets a = out" and "capacity a = of_nat limit"
    and "written a = 0x6000" and "total_matches a = 0x6010" and "limit \<le> 64"
  shows "output_checks out limit expected (status, m')"
  using assms by (auto simp: property_checks_def output_checks_def host_sizes split: prod.splits)

lemma guard_checks_hold:
  assumes "property_checks a (random_memory old new cs guard) expected status (m' :: 32 memory)"
    and "out_offsets a = 0x5000" and "capacity a = of_nat limit" and "written a = 0x6000" and "total_matches a = 0x6010"
    and "length new = 64" and "length old \<le> 64" and "length cs \<le> 64" and "limit \<le> 64"
  shows "guard_checks old new cs guard limit m'"
proof -
  let ?m = "random_memory old new cs guard" and ?written = "span 0x5000 (4 * limit) \<union> span 0x6000 4 \<union> span 0x6010 4"
  have same: "m' x = ?m x" if "x \<notin> ?written" for x
    using assms that by (auto simp: property_checks_def host_sizes split: prod.splits)
  have at: "unat (0x5000 + of_nat (4 * limit) :: 32 word) = 0x5000 + 4 * limit"
    using assms(9) by (simp add: unat_word_ariths unsigned_of_nat take_bit_nat_eq_self)
  have apart: "x \<notin> ?written" if "x \<in> span 0x4ffc 4 \<or> x \<in> span (0x5000 + of_nat (4 * limit)) 4 \<or>
      x \<in> span 0x2000 (length old) \<or> x \<in> span 0x1000 64 \<or> x \<in> span 0x3000 (4 * length cs)" for x :: "32 word"
    using that assms(7-9) at by (auto simp: mem_span_no_wrap)
  note reads = random_memory_reads [OF assms(6-9)]
  have "load_word m' 0x4ffc = guard" "load_word m' (0x5000 + of_nat (4 * limit)) = guard"
    using reads(4,5) by (subst load_word_cong [OF same]; use apart in simp)+
  moreover have "snapshot m' 0x2000 (length old) = old" "snapshot m' 0x1000 64 = new"
    using reads(1,2) by (subst snapshot_cong [OF same]; use apart in simp)+
  moreover have "load_array m' 0x3000 (length cs) = cs"
    using reads(3) by (subst load_array_cong [OF same]; use apart in simp)
  ultimately show ?thesis
    using assms(6) by (simp add: guard_checks_def)
qed

lemma take_snapshot: "k \<le> n \<Longrightarrow> snapshot m a k = take k (snapshot m a n)"
  by (simp add: snapshot_def take_map)

lemma initial_iteration_passes: "fst (initial_iteration state)"
proof -
  obtain bytes q n limit s1 where draw: "initial_draw state = (bytes, q, n, limit, s1)"
    by (metis prod.exhaust)
  have drawn: "length bytes = 64" "n \<le> 64" "limit \<le> 64" "well_formed_query q"
    "relation q \<in> {VC_RELATION_EQUAL, VC_RELATION_NOT_EQUAL}"
    using draw length_random_bytes [of 64 state]
    by (auto simp: initial_draw_def Let_def host_query_def well_formed_query_def drawn_query split: prod.splits if_splits)
  let ?a = "host_search n q 0x5000 limit" and ?m = "random_memory [] bytes [] 0xa5a5a5a5"
  have placed: "well_placed ?a"
    using drawn by (intro host_placed) simp_all
  have bytes: "snapshot ?m 0x1000 n = take n bytes"
    using random_memory_reads(1) [of bytes "[]" "[]" 0 "0xa5a5a5a5"] drawn by (simp add: take_snapshot [of n 64])
  from vc_search_initial_run [OF supported_32 placed, of ?m] obtain status m'
    where run: "vc_search_initial ?a ?m = Some (status, m')"
      and outcome: "search_outcome ?a ?m (map of_nat (initial_hits q (take n bytes))) status m'"
    using drawn bytes by (auto simp: host_search_fields host_sizes)
  have expected: "reference_initial q (take n bytes) limit = Some (expectation limit (map of_nat (initial_hits q (take n bytes))))"
    using drawn by (intro reference_initial_finds) 
  note checks = outcome_checks [OF outcome, unfolded host_search_fields host_sizes [OF drawn(3)]]
  show ?thesis
    using output_checks_hold [OF checks] guard_checks_hold [OF checks] drawn
    by (simp add: initial_iteration_def draw expected run host_search_fields)
qed

lemma refinement_iteration_passes: "fst (refinement_iteration state)"
proof -
  obtain old new cs q n limit s1 where draw: "refinement_draw state = (old, new, cs, q, n, limit, s1)"
    by (metis prod.exhaust)
  have drawn: "length old = 64" "length new = 64" "n \<le> 64" "limit \<le> 64" "well_formed_query q"
    and candidates: "\<exists>s. random_candidates
      (if vc_scalar_width (scalar_type q) \<le> n then n - vc_scalar_width (scalar_type q) + 1 else 0) 0 s = (cs, s1)"
    using draw length_random_pairs [of 64 state]
    by (auto simp: refinement_draw_def Let_def host_query_def well_formed_query_def drawn_query
        simp del: random_candidates.simps split: prod.splits split del: if_split)
  have cs: "valid_candidates cs n (vc_scalar_width (scalar_type q))" "length cs \<le> 64"
  proof -
    define width count where "width = vc_scalar_width (scalar_type q)" and "count = (if width \<le> n then n - width + 1 else 0)"
    have "width \<noteq> 0"
      using drawn(5) by (simp add: well_formed_query_def width_def)
    with drawn(3) have count: "count \<le> n" "i < count \<Longrightarrow> i + width \<le> n" for i
      by (auto simp: count_def split: if_splits)
    obtain s where "random_candidates count 0 s = (cs, s1)"
      using candidates unfolding count_def width_def by blast
    with count drawn(3) have "sorted_wrt (<) cs \<and> (\<forall>c \<in> set cs. unat c < count) \<and> length cs \<le> count"
      using random_candidates_ok [of 0 count s] by simp
    with count drawn(3) show "valid_candidates cs n (vc_scalar_width (scalar_type q))" "length cs \<le> 64"
      by (auto simp: valid_candidates_def simp flip: width_def)
  qed
  let ?a = "\<lambda>out. host_refine n q (length cs) out limit" and ?m = "random_memory old new cs 0x5a5a5a5a"
  let ?expected = "reference_refine q (take n old) (take n new) cs limit"
  note reads = random_memory_reads [OF drawn(2) _ cs(2) drawn(4), of old "0x5a5a5a5a", unfolded drawn(1), simplified]
  have run: "\<exists>status m'. vc_search_refine (?a out) ?m = (status, m') \<and> property_checks (?a out) ?m ?expected status m'"
    if "out = 0x3000 \<or> out = 0x5000" for out
  proof -
    have "refine_accepted (?a out) ?m"
      using drawn cs reads host_placed(2) [of n limit out "length cs" q] that
      by (simp add: refine_accepted_def refine_candidates_def host_refine_fields host_sizes)
    from vc_search_refine_run [OF supported_32 this] obtain status m'
      where "vc_search_refine (?a out) ?m = (status, m')"
        and "search_outcome (?a out) ?m (refine_hits q (take n old) (take n new) cs) status m'"
      using drawn cs reads by (auto simp: refine_candidates_def host_refine_fields host_sizes take_snapshot [of n 64])
    moreover have "?expected = expectation limit (refine_hits q (take n old) (take n new) cs)"
      using drawn cs by (intro reference_refine_finds) (simp_all add: well_formed_query_def)
    ultimately show ?thesis
      using outcome_checks drawn by (fastforce simp: host_refine_fields host_sizes)
  qed
  obtain status m' where first: "vc_search_refine (?a 0x5000) ?m = (status, m')"
    "property_checks (?a 0x5000) ?m ?expected status m'"
    using run by blast
  obtain status2 m2 where second: "vc_search_refine (?a 0x3000) ?m = (status2, m2)"
    "property_checks (?a 0x3000) ?m ?expected status2 m2"
    using run by blast
  show ?thesis
    using output_checks_hold [OF first(2)] guard_checks_hold [OF first(2)] output_checks_hold [OF second(2)] drawn cs
    by (simp add: refinement_iteration_def draw first(1) second(1) host_refine_fields)
qed

lemma search_property_tests_pass: test_initial_search_properties test_refinement_properties
  by (simp_all add: test_initial_search_properties_def test_refinement_properties_def all_iterations_pass
      initial_iteration_passes refinement_iteration_passes)

end
