(* ===== verification/VC_Psv_Lex.thy ===== *)
theory VC_Psv_Lex
  imports VC_Prelude
begin

unbundle bit_operations_syntax

text \<open>
  The lexical routines of \<^verbatim>\<open>src/legacy_psv.c\<close>: white space, hexadecimal numbers and the code line
  \<^verbatim>\<open>$cccc aaaaaaaa vvvvvvvv\<close>. The source text is a list of bytes and positions in it are natural
  numbers; the code's \<^verbatim>\<open>size_t\<close> positions are at most one mebibyte, and its differences \<^verbatim>\<open>end - begin\<close>
  are taken only where \<^verbatim>\<open>begin <= end\<close>. A byte is compared as the code compares a \<^verbatim>\<open>char\<close>: every character
  it looks for is ASCII, and a byte from 128 on, negative where \<^verbatim>\<open>char\<close> is signed, is none of them.
\<close>

section \<open>Characters and numbers\<close>

definition ascii :: "char \<Rightarrow> uint8_t" where
  "ascii c = of_char c"

definition ascii_space :: "uint8_t \<Rightarrow> bool" where
  "ascii_space v \<longleftrightarrow> v = ascii CHR '' '' \<or> v = ascii CHR 0x09"

definition hex_value :: "uint8_t \<Rightarrow> int" where
  "hex_value v =
     (if v \<ge> ascii CHR ''0'' \<and> v \<le> ascii CHR ''9'' then uint v - uint (ascii CHR ''0'')
      else if v \<ge> ascii CHR ''a'' \<and> v \<le> ascii CHR ''f'' then uint v - uint (ascii CHR ''a'') + 10
      else if v \<ge> ascii CHR ''A'' \<and> v \<le> ascii CHR ''F'' then uint v - uint (ascii CHR ''A'') + 10
      else - 1)"

function parse_hex_loop :: "uint8_t list \<Rightarrow> nat \<Rightarrow> nat \<Rightarrow> nat \<Rightarrow> uint32_t \<Rightarrow> uint32_t option" where
  "parse_hex_loop source offset digits index parsed =
     (if index < digits
      then
        let digit = hex_value (source ! (offset + index))
        in if digit < 0 then None
           else parse_hex_loop source offset digits (Suc index) (push_bit 4 parsed OR of_int digit)
      else Some parsed)"
  by pat_completeness auto
termination
  by (relation "measure (\<lambda>(source, offset, digits, index, parsed). digits - index)") auto

declare parse_hex_loop.simps [simp del]

definition parse_hex_exact :: "uint8_t list \<Rightarrow> nat \<Rightarrow> nat \<Rightarrow> uint32_t option" where
  "parse_hex_exact source offset digits = parse_hex_loop source offset digits 0 0"

text \<open>\<^verbatim>\<open>while (*begin < *end && ascii_space(source[*begin])) ++*begin;\<close>, which the code has five times\<close>

function skip_spaces :: "uint8_t list \<Rightarrow> nat \<Rightarrow> nat \<Rightarrow> nat" where
  "skip_spaces source start stop =
     (if start < stop \<and> ascii_space (source ! start) then skip_spaces source (Suc start) stop
      else start)"
  by pat_completeness auto
termination
  by (relation "measure (\<lambda>(source, start, stop). stop - start)") auto

declare skip_spaces.simps [simp del]

function drop_spaces :: "uint8_t list \<Rightarrow> nat \<Rightarrow> nat \<Rightarrow> nat" where
  "drop_spaces source start stop =
     (if stop > start \<and> ascii_space (source ! (stop - 1)) then drop_spaces source start (stop - 1)
      else stop)"
  by pat_completeness auto
termination
  by (relation "measure (\<lambda>(source, start, stop). stop)") auto

declare drop_spaces.simps [simp del]

definition trim_span :: "uint8_t list \<Rightarrow> nat \<Rightarrow> nat \<Rightarrow> nat \<times> nat" where
  "trim_span source start stop =
     (let start' = skip_spaces source start stop in (start', drop_spaces source start' stop))"

definition parse_code ::
  "uint8_t list \<Rightarrow> nat \<Rightarrow> nat \<Rightarrow> (uint16_t \<times> uint32_t \<times> uint32_t) option" where
  "parse_code source start0 stop =
     (if stop - start0 < 1 + 4 + 1 + 8 + 1 + 8 \<or> source ! start0 \<noteq> ascii CHR ''$'' then None
      else
        let start1 = start0 + 1
        in if stop - start1 < 4 then None
           else
             case parse_hex_exact source start1 4 of
               None \<Rightarrow> None
             | Some parsed_code \<Rightarrow>
                 let start2 = start1 + 4
                 in if start2 = stop \<or> \<not> ascii_space (source ! start2) then None
                    else
                      let start3 = skip_spaces source start2 stop
                      in if stop - start3 < 8 then None
                         else
                           case parse_hex_exact source start3 8 of
                             None \<Rightarrow> None
                           | Some address \<Rightarrow>
                               let start4 = start3 + 8
                               in if start4 = stop \<or> \<not> ascii_space (source ! start4) then None
                                  else
                                    let start5 = skip_spaces source start4 stop
                                    in if stop - start5 < 8 then None
                                       else
                                         case parse_hex_exact source start5 8 of
                                           None \<Rightarrow> None
                                         | Some val \<Rightarrow>
                                             if skip_spaces source (start5 + 8) stop \<noteq> stop then None
                                             else Some (ucast parsed_code, address, val))"

section \<open>Slices of the source\<close>

definition segment :: "uint8_t list \<Rightarrow> nat \<Rightarrow> nat \<Rightarrow> uint8_t list" where
  "segment source start stop = take (stop - start) (drop start source)"

lemma length_segment: "stop \<le> length source \<Longrightarrow> length (segment source start stop) = stop - start"
  by (simp add: segment_def)

lemma segment_empty: "stop \<le> start \<Longrightarrow> segment source start stop = []"
  by (simp add: segment_def)

lemma segment_Cons:
  "start < stop \<Longrightarrow> stop \<le> length source \<Longrightarrow>
    segment source start stop = source ! start # segment source (Suc start) stop"
  by (simp add: segment_def Cons_nth_drop_Suc [symmetric] take_Cons')

lemma segment_drop: "segment source (start + k) stop = drop k (segment source start stop)"
  by (simp add: segment_def drop_take add.commute)

lemma segment_append:
  assumes "start \<le> mid" and "mid \<le> stop"
  shows "segment source start stop = segment source start mid @ segment source mid stop"
proof -
  have "stop - start = (mid - start) + (stop - mid)" and "drop (mid - start) (drop start source) = drop mid source"
    using assms by (simp_all add: add.commute)
  then show ?thesis
    by (simp only: segment_def take_add)
qed

lemma segment_all: "segment source 0 (length source) = source"
  by (simp add: segment_def)

lemma skip_spaces_segment:
  assumes "start \<le> stop" and "stop \<le> length source"
  shows "skip_spaces source start stop =
    start + length (takeWhile ascii_space (segment source start stop))"
  using assms
proof (induction source start stop rule: skip_spaces.induct)
  case (1 source start stop)
  show ?case
  proof (cases "start < stop \<and> ascii_space (source ! start)")
    case True
    then show ?thesis
      using 1 by (subst skip_spaces.simps) (simp add: segment_Cons)
  next
    case False
    then show ?thesis
      using "1.prems" by (subst skip_spaces.simps) (cases "start < stop"; auto simp: segment_Cons segment_empty)
  qed
qed

lemma skip_spaces_bounds:
  assumes "start \<le> stop"
  shows "start \<le> skip_spaces source start stop" "skip_spaces source start stop \<le> stop"
proof -
  have "start \<le> skip_spaces source start stop \<and> skip_spaces source start stop \<le> stop"
    using assms
    by (induction source start stop rule: skip_spaces.induct) (subst (1 2) skip_spaces.simps, auto)
  then show "start \<le> skip_spaces source start stop" "skip_spaces source start stop \<le> stop"
    by simp_all
qed

lemma drop_spaces_bounds:
  assumes "start \<le> stop"
  shows "start \<le> drop_spaces source start stop" "drop_spaces source start stop \<le> stop"
proof -
  have "start \<le> drop_spaces source start stop \<and> drop_spaces source start stop \<le> stop"
    using assms
  proof (induction source start stop rule: drop_spaces.induct)
    case (1 source start stop)
    show ?case
    proof (cases "stop > start \<and> ascii_space (source ! (stop - 1))")
      case True
      with 1 show ?thesis
        by (subst (1 2) drop_spaces.simps) fastforce
    next
      case False
      with 1 show ?thesis
        by (subst (1 2) drop_spaces.simps) auto
    qed
  qed
  then show "start \<le> drop_spaces source start stop" "drop_spaces source start stop \<le> stop"
    by simp_all
qed

lemma trim_span_bounds:
  assumes "start \<le> stop" and "trim_span source start stop = (b, e)"
  shows "start \<le> b" "b \<le> e" "e \<le> stop"
  using assms skip_spaces_bounds [OF assms(1), of source]
    drop_spaces_bounds [of "skip_spaces source start stop" stop source]
  by (auto simp: trim_span_def Let_def)

section \<open>Hexadecimal numbers\<close>

text \<open>
  The blanks and the digits as the format has them, independently of the code's tests: a blank is the byte 32
  or 9, and the weight of a digit is its place in the written sequence of digits.
\<close>

definition blank :: "uint8_t \<Rightarrow> bool" where
  "blank v \<longleftrightarrow> v \<in> {32, 9}"

definition digit_weight :: "uint8_t \<Rightarrow> nat option" where
  "digit_weight v =
     map_of (zip (map ascii ''0123456789abcdef'') [0..<16] @ zip (map ascii ''ABCDEF'') [10..<16]) v"

definition hex_digit :: "uint8_t \<Rightarrow> bool" where
  "hex_digit v \<longleftrightarrow> digit_weight v \<noteq> None"

definition hex_number :: "uint8_t list \<Rightarrow> nat" where
  "hex_number ds = foldl (\<lambda>n d. 16 * n + (case digit_weight d of None \<Rightarrow> 0 | Some w \<Rightarrow> w)) 0 ds"

text \<open>The code's tests agree with them.\<close>

lemma ascii_space_blank: "ascii_space = blank"
  by (simp add: fun_eq_iff ascii_space_def blank_def ascii_def)

lemma byte_range: "a \<le> v \<and> v \<le> b \<longleftrightarrow> v \<in> of_nat ` set [unat a..<Suc (unat b)]" for v :: uint8_t
proof
  assume "a \<le> v \<and> v \<le> b"
  then show "v \<in> of_nat ` set [unat a..<Suc (unat b)]"
    by (intro image_eqI [of _ _ "unat v"]) (auto simp: word_le_nat_alt)
next
  assume "v \<in> of_nat ` set [unat a..<Suc (unat b)]"
  then obtain n where n: "v = of_nat n" "unat a \<le> n" "n \<le> unat b"
    by auto
  moreover have "n < 2 ^ 8"
    using n(3) unsigned_less [of b, where ?'a = nat] by simp
  ultimately show "a \<le> v \<and> v \<le> b"
    by (simp add: word_le_nat_alt unat_of_nat_small)
qed

lemma hex_value_weight: "hex_value v = (case digit_weight v of None \<Rightarrow> - 1 | Some w \<Rightarrow> int w)"
  unfolding hex_value_def byte_range by (auto simp: digit_weight_def ascii_def upt_rec)

lemma hex_digit_value: "hex_digit v \<longleftrightarrow> 0 \<le> hex_value v"
  by (simp add: hex_digit_def hex_value_weight split: option.split)

lemma hex_value_bounds: "- 1 \<le> hex_value v" "hex_value v < 16"
  by (auto simp: hex_value_def ascii_def word_le_def)

lemma hex_number_snoc: "hex_number (ds @ [d]) = 16 * hex_number ds + nat (hex_value d)"
  by (simp add: hex_number_def hex_value_weight split: option.split)

lemma hex_number_bound: "hex_number ds < 16 ^ length ds"
proof (induction ds rule: rev_induct)
  case Nil
  then show ?case by (simp add: hex_number_def)
next
  case (snoc d ds)
  then show ?case
    using hex_value_bounds [of d] by (simp add: hex_number_snoc)
qed

lemma push_hex_digit:
  assumes "0 \<le> d" and "d < 16" and "n < 2 ^ 28"
  shows "push_bit 4 (of_nat n) OR of_int d = (of_nat (16 * n + nat d) :: uint32_t)"
proof -
  have "push_bit 4 (of_nat n :: uint32_t) AND of_int d = 0"
  proof (rule bit_word_eqI)
    fix k
    have "\<not> bit d k" if "4 \<le> k"
    proof -
      have "(16 :: int) \<le> 2 ^ k"
        using that power_increasing [of 4 k "2 :: int"] by simp
      then have "d div 2 ^ k = 0"
        using assms by simp
      then show ?thesis
        by (simp add: bit_iff_odd)
    qed
    then show "bit (push_bit 4 (of_nat n :: uint32_t) AND of_int d) k \<longleftrightarrow> bit (0 :: uint32_t) k"
      by (auto simp: bit_and_iff bit_push_bit_iff bit_word_of_int_iff not_le)
  qed
  then have "push_bit 4 (of_nat n) OR of_int d = push_bit 4 (of_nat n) + (of_int d :: uint32_t)"
    by (simp add: disjunctive_add_eq_or)
  also have "\<dots> = of_nat (16 * n + nat d)"
    using assms(1) by (simp add: push_bit_eq_mult)
  finally show ?thesis .
qed

lemma parse_hex_loop_number:
  assumes "offset + digits \<le> length source" and "index \<le> digits" and "digits \<le> 8"
    and "parsed = of_nat (hex_number (segment source offset (offset + index)))"
  shows "parse_hex_loop source offset digits index parsed =
    (if \<forall>d \<in> set (segment source (offset + index) (offset + digits)). hex_digit d
     then Some (of_nat (hex_number (segment source offset (offset + digits)))) else None)"
  using assms
proof (induction source offset digits index parsed rule: parse_hex_loop.induct)
  case (1 source offset digits index parsed)
  show ?case
  proof (cases "index < digits")
    case False
    with 1 show ?thesis
      by (simp add: parse_hex_loop.simps segment_empty)
  next
    case True
    let ?d = "source ! (offset + index)"
    let ?ds = "segment source offset (offset + index)"
    have step: "segment source (offset + index) (offset + digits) =
        ?d # segment source (offset + Suc index) (offset + digits)"
      using True 1 by (simp add: segment_Cons)
    have snoc: "segment source offset (offset + Suc index) = ?ds @ [?d]"
      using True 1 by (simp add: segment_def take_Suc_conv_app_nth)
    have "hex_number ?ds < 16 ^ index"
      using hex_number_bound [of ?ds] True 1 by (simp add: length_segment)
    also have "(16 :: nat) ^ index \<le> 16 ^ 7"
      using True 1 by (intro power_increasing) auto
    finally have "hex_number ?ds < 2 ^ 28"
      by simp
    then have next_value: "push_bit 4 parsed OR of_int (hex_value ?d) =
        of_nat (hex_number (segment source offset (offset + Suc index)))" if "hex_digit ?d"
      unfolding snoc hex_number_snoc "1.prems"(4) using that hex_value_bounds [of ?d]
      by (intro push_hex_digit) (simp_all add: hex_digit_value)
    show ?thesis
    proof (cases "hex_digit ?d")
      case True
      then have "parse_hex_loop source offset digits index parsed =
          parse_hex_loop source offset digits (Suc index)
            (of_nat (hex_number (segment source offset (offset + Suc index))))"
        using \<open>index < digits\<close> next_value
        by (subst parse_hex_loop.simps) (simp only: Let_def hex_digit_value not_less if_True if_False not_le [symmetric] simp_thms)
      then show ?thesis
        using True \<open>index < digits\<close> 1(1) [OF \<open>index < digits\<close> refl] next_value 1(2-5)
        by (simp only: step) (simp add: hex_digit_value)
    next
      case False
      then show ?thesis
        using \<open>index < digits\<close> by (subst parse_hex_loop.simps) (simp add: step hex_digit_value)
    qed
  qed
qed

lemma parse_hex_exact_number:
  assumes "offset + digits \<le> length source" and "digits \<le> 8"
  shows "parse_hex_exact source offset digits =
    (if \<forall>d \<in> set (segment source offset (offset + digits)). hex_digit d
     then Some (of_nat (hex_number (segment source offset (offset + digits)))) else None)"
  using assms by (simp add: parse_hex_exact_def parse_hex_loop_number segment_empty hex_number_def)

section \<open>The code line\<close>

text \<open>The text of a code line: \<^verbatim>\<open>$\<close>, four digits, blanks, eight digits, blanks, eight digits, blanks at will.\<close>

definition code_text :: "uint8_t list \<Rightarrow> uint16_t \<Rightarrow> uint32_t \<Rightarrow> uint32_t \<Rightarrow> bool" where
  "code_text text code address val \<longleftrightarrow>
     (\<exists>h1 s1 h2 s2 h3 s3. text = ascii CHR ''$'' # h1 @ s1 @ h2 @ s2 @ h3 @ s3 \<and>
        length h1 = 4 \<and> length h2 = 8 \<and> length h3 = 8 \<and> s1 \<noteq> [] \<and> s2 \<noteq> [] \<and>
        (\<forall>d \<in> set (h1 @ h2 @ h3). hex_digit d) \<and> (\<forall>x \<in> set (s1 @ s2 @ s3). blank x) \<and>
        code = of_nat (hex_number h1) \<and> address = of_nat (hex_number h2) \<and>
        val = of_nat (hex_number h3))"

lemma code_text_spaces:
  "code_text text code address val \<longleftrightarrow>
     (\<exists>h1 s1 h2 s2 h3 s3. text = ascii CHR ''$'' # h1 @ s1 @ h2 @ s2 @ h3 @ s3 \<and>
        length h1 = 4 \<and> length h2 = 8 \<and> length h3 = 8 \<and> s1 \<noteq> [] \<and> s2 \<noteq> [] \<and>
        (\<forall>d \<in> set (h1 @ h2 @ h3). hex_digit d) \<and> (\<forall>x \<in> set (s1 @ s2 @ s3). ascii_space x) \<and>
        code = of_nat (hex_number h1) \<and> address = of_nat (hex_number h2) \<and>
        val = of_nat (hex_number h3))"
  by (simp add: code_text_def ascii_space_blank)

lemma hex_digit_not_space: "hex_digit d \<Longrightarrow> \<not> ascii_space d"
  by (auto simp: hex_digit_value ascii_space_def hex_value_def ascii_def)

lemma skip_spaces_take:
  assumes "segment source start stop = s @ rest" and "start \<le> stop" and "stop \<le> length source"
    and "\<forall>x \<in> set s. ascii_space x" and "rest = [] \<or> \<not> ascii_space (hd rest)"
  shows "skip_spaces source start stop = start + length s"
proof -
  have "takeWhile ascii_space rest = []"
    using assms(5) by (cases rest) auto
  then have "takeWhile ascii_space (s @ rest) = s"
    using assms(4) by simp
  then show ?thesis
    using skip_spaces_segment [OF assms(2,3)] assms(1) by simp
qed

lemma skip_spaces_all:
  assumes "start \<le> stop" and "stop \<le> length source"
  shows "\<forall>x \<in> set (segment source start (skip_spaces source start stop)). ascii_space x"
proof -
  let ?w = "takeWhile ascii_space (segment source start stop)"
  have "segment source start (start + length ?w) = take (length ?w) (segment source start stop)"
    using skip_spaces_bounds(2) [OF assms(1), of source] skip_spaces_segment [OF assms]
    by (simp add: segment_def min_def)
  also have "\<dots> = ?w"
    by (rule takeWhile_eq_take [symmetric])
  finally show ?thesis
    unfolding skip_spaces_segment [OF assms] by (auto dest: set_takeWhileD)
qed

lemma parse_code_sound:
  assumes "start0 \<le> stop" and "stop \<le> length source"
    and parsed: "parse_code source start0 stop = Some (code, address, val)"
  shows "code_text (segment source start0 stop) code address val"
proof -
  define start3 where "start3 = skip_spaces source (start0 + 5) stop"
  define start5 where "start5 = skip_spaces source (start3 + 8) stop"
  note skips = start3_def start5_def
  obtain c where fields: "23 \<le> stop - start0" "source ! start0 = ascii CHR ''$''"
    "parse_hex_exact source (start0 + 1) 4 = Some c" "code = ucast c"
    "ascii_space (source ! (start0 + 5))" "start0 + 5 \<noteq> stop"
    "8 \<le> stop - start3" "parse_hex_exact source start3 8 = Some address"
    "ascii_space (source ! (start3 + 8))" "start3 + 8 \<noteq> stop"
    "8 \<le> stop - start5" "parse_hex_exact source start5 8 = Some val"
    "skip_spaces source (start5 + 8) stop = stop"
    using parsed
    by (auto simp: parse_code_def Let_def not_less skips add.commute [of 5] split: if_splits option.splits)
  have order: "start0 + 5 \<le> start3" "start3 + 8 \<le> start5" "start5 + 8 \<le> stop"
    "start3 + 8 \<le> stop" "start0 + 5 \<le> stop"
    using fields(1,6,7,10,11) skip_spaces_bounds [of "start0 + 5" stop source]
      skip_spaces_bounds [of "start3 + 8" stop source]
    by (simp_all add: skips)
  let ?h1 = "segment source (start0 + 1) (start0 + 5)" and ?s1 = "segment source (start0 + 5) start3"
  let ?h2 = "segment source start3 (start3 + 8)" and ?s2 = "segment source (start3 + 8) start5"
  let ?h3 = "segment source start5 (start5 + 8)" and ?s3 = "segment source (start5 + 8) stop"
  have "segment source start0 stop = ascii CHR ''$'' # segment source (start0 + 1) stop"
    using fields(1,2) assms(2) by (simp add: segment_Cons)
  also have "segment source (start0 + 1) stop = ?h1 @ ?s1 @ ?h2 @ ?s2 @ ?h3 @ ?s3"
    using order segment_append [of "start0 + 1" "start0 + 5" stop source]
      segment_append [of "start0 + 5" start3 stop source] segment_append [of start3 "start3 + 8" stop source]
      segment_append [of "start3 + 8" start5 stop source] segment_append [of start5 "start5 + 8" stop source]
    by simp
  finally have text_eq: "segment source start0 stop = ascii CHR ''$'' # ?h1 @ ?s1 @ ?h2 @ ?s2 @ ?h3 @ ?s3" .
  have all_spaces: "\<forall>x \<in> set (?s1 @ ?s2 @ ?s3). ascii_space x"
    using skip_spaces_all [of "start0 + 5" stop source] skip_spaces_all [of "start3 + 8" stop source]
      skip_spaces_all [of "start5 + 8" stop source] order assms(2) fields(13)
    by (auto simp flip: skips)
  have blank: "?s1 \<noteq> []" "?s2 \<noteq> []"
  proof -
    have "start3 = Suc (start0 + 5) + length (takeWhile ascii_space (segment source (Suc (start0 + 5)) stop))"
      using fields(5,6) order assms(2) unfolding start3_def
      by (subst skip_spaces.simps) (simp add: skip_spaces_segment)
    then show "?s1 \<noteq> []"
      using order assms(2) by (simp add: segment_Cons)
    have "start5 = Suc (start3 + 8) + length (takeWhile ascii_space (segment source (Suc (start3 + 8)) stop))"
      using fields(9,10) order assms(2) unfolding start5_def
      by (subst skip_spaces.simps) (simp add: skip_spaces_segment)
    then show "?s2 \<noteq> []"
      using order assms(2) by (simp add: segment_Cons)
  qed
  have digits: "\<forall>d \<in> set (?h1 @ ?h2 @ ?h3). hex_digit d"
    "c = of_nat (hex_number ?h1)" "address = of_nat (hex_number ?h2)" "val = of_nat (hex_number ?h3)"
    using fields(3,8,12) order assms(2)
    by (auto simp: parse_hex_exact_number add.commute [of 5] split: if_splits)
  have code: "code = of_nat (hex_number ?h1)"
    unfolding fields(4) digits(2) by (rule bit_word_eqI) (simp add: bit_ucast_iff bit_of_nat_iff)
  have lengths: "length ?h1 = 4" "length ?h2 = 8" "length ?h3 = 8"
    using order assms(2) by (simp_all add: length_segment)
  show ?thesis
    unfolding code_text_spaces
    by (intro exI [of _ ?h1] exI [of _ ?s1] exI [of _ ?h2] exI [of _ ?s2] exI [of _ ?h3]
        exI [of _ ?s3] conjI; fact)
qed

lemma segment_prefix:
  assumes "segment source start stop = xs @ rest" and "start \<le> stop" and "stop \<le> length source"
  shows "segment source start (start + length xs) = xs" "segment source (start + length xs) stop = rest"
    "start + length xs \<le> stop"
proof -
  have "length (xs @ rest) = stop - start"
    using assms length_segment [of stop source start] by simp
  then show le: "start + length xs \<le> stop"
    using assms(2) by simp
  have "segment source start (start + length xs) = take (length xs) (segment source start stop)"
    using le by (simp add: segment_def min_def)
  then show "segment source start (start + length xs) = xs"
    by (simp add: assms(1))
  show "segment source (start + length xs) stop = rest"
    by (simp add: segment_drop assms(1))
qed

lemma parse_code_complete:
  assumes "start0 \<le> stop" and "stop \<le> length source"
    and "code_text (segment source start0 stop) code address val"
  shows "parse_code source start0 stop = Some (code, address, val)"
proof -
  obtain h1 s1 h2 s2 h3 s3
    where line: "segment source start0 stop = ascii CHR ''$'' # h1 @ s1 @ h2 @ s2 @ h3 @ s3"
      and len: "length h1 = 4" "length h2 = 8" "length h3 = 8" and blank: "s1 \<noteq> []" "s2 \<noteq> []"
      and digits: "\<forall>d \<in> set (h1 @ h2 @ h3). hex_digit d"
      and spaces: "\<forall>x \<in> set (s1 @ s2 @ s3). ascii_space x"
      and vals: "code = of_nat (hex_number h1)" "address = of_nat (hex_number h2)"
        "val = of_nat (hex_number h3)"
    using assms(3) unfolding code_text_spaces by blast
  define start1 where "start1 = start0 + 1"
  define start2 where "start2 = start1 + length h1"
  define start3 where "start3 = start2 + length s1"
  define start4 where "start4 = start3 + length h2"
  define start5 where "start5 = start4 + length s2"
  define start6 where "start6 = start5 + length h3"
  have total: "start0 < stop"
    using arg_cong [OF line, of length] assms(1,2) by (simp add: length_segment)
  have first: "source ! start0 = ascii CHR ''$''"
    using line total assms by (simp add: segment_Cons)
  have "segment source start1 stop = h1 @ s1 @ h2 @ s2 @ h3 @ s3" and in1: "start1 \<le> stop"
    using line total segment_drop [of source start0 1 stop] by (simp_all add: start1_def)
  note seg1 = this
  note seg2 = segment_prefix [OF seg1 assms(2), folded start2_def]
  note seg3 = segment_prefix [OF seg2(2,3) assms(2), folded start3_def]
  note seg4 = segment_prefix [OF seg3(2,3) assms(2), folded start4_def]
  note seg5 = segment_prefix [OF seg4(2,3) assms(2), folded start5_def]
  note seg6 = segment_prefix [OF seg5(2,3) assms(2), folded start6_def]
  have not_space: "\<not> ascii_space (hd (h2 @ xs))" "\<not> ascii_space (hd (h3 @ xs))" for xs
    using digits len hex_digit_not_space by (cases h2; cases h3; auto)+
  have skips: "skip_spaces source start2 stop = start3" "skip_spaces source start4 stop = start5"
    "skip_spaces source start6 stop = stop"
    using skip_spaces_take [OF seg2(2,3) assms(2)] skip_spaces_take [OF seg4(2,3) assms(2)]
      skip_spaces_take [of source start6 stop s3 "[]"] seg6(2,3) assms(2) spaces not_space
      length_segment [OF assms(2), of start6]
    by (simp_all add: start3_def start5_def)
  have hex: "parse_hex_exact source start1 4 = Some (of_nat (hex_number h1))"
    "parse_hex_exact source start3 8 = Some (of_nat (hex_number h2))"
    "parse_hex_exact source start5 8 = Some (of_nat (hex_number h3))"
    using seg2(1,3) seg4(1,3) seg6(1,3) digits assms(2)
    by (simp_all add: parse_hex_exact_number start2_def start4_def start6_def len)
  have at_blank: "start2 < stop" "ascii_space (source ! start2)" "start4 < stop"
    "ascii_space (source ! start4)"
  proof -
    have "start2 \<noteq> stop" "start4 \<noteq> stop"
      using seg2(2) seg4(2) blank by (auto simp: segment_empty)
    with seg2(3) seg4(3) show less: "start2 < stop" "start4 < stop"
      by simp_all
    show "ascii_space (source ! start2)" "ascii_space (source ! start4)"
      using seg2(2) seg4(2) less assms(2) blank spaces
      by (cases s1; auto simp: segment_Cons; fail) (use seg2(2) seg4(2) less assms(2) blank spaces in
        \<open>cases s2; auto simp: segment_Cons; fail\<close>)
  qed
  have "s1 \<noteq> [] \<longrightarrow> 0 < length s1" "s2 \<noteq> [] \<longrightarrow> 0 < length s2"
    by simp_all
  then have room: "23 \<le> stop - start0" "4 \<le> stop - start1" "8 \<le> stop - start3" "8 \<le> stop - start5"
    using seg2(3) seg4(3) seg6(3) blank len
    unfolding start6_def start5_def start4_def start3_def start2_def start1_def by linarith+
  have code: "ucast (of_nat (hex_number h1) :: uint32_t) = code"
    unfolding vals(1) by (rule bit_word_eqI) (simp add: bit_ucast_iff bit_of_nat_iff)
  have steps: "Suc start0 = start1" "start1 + 4 = start2" "start3 + 8 = start4" "start5 + 8 = start6"
    by (simp_all add: start1_def start2_def start4_def start6_def len)
  show ?thesis
    using room first hex skips at_blank code vals
    by (simp add: parse_code_def Let_def steps not_less)
qed

lemma parse_code_iff:
  assumes "start0 \<le> stop" and "stop \<le> length source"
  shows "parse_code source start0 stop = Some (code, address, val) \<longleftrightarrow>
    code_text (segment source start0 stop) code address val"
  using parse_code_sound [OF assms] parse_code_complete [OF assms] by blast

end
