(* ===== verification/VC_Psv.thy ===== *)
theory VC_Psv
  imports VC_Psv_Lex VC_Search
begin

unbundle bit_operations_syntax

text \<open>
  The parser \<^verbatim>\<open>vc_psv_parse\<close> of \<^verbatim>\<open>src/legacy_psv.c\<close> with the types of
  \<^verbatim>\<open>include/vitacheat/legacy_psv.h\<close>. The arguments are checked on addresses of type \<open>'s word\<close>; the checks
  reject overlapping arrays, so past them the arrays are separate lists, as long as their capacities.
  \<open>psv_state\<close> holds the local variables of the function and those lists. Counters and indices are natural
  numbers: that they never reach the range of \<^verbatim>\<open>size_t\<close>, nor \<^verbatim>\<open>VC_PSV_NO_INDEX\<close> (\<open>None\<close> here), is
  a theorem. A span's offset and length are 32-bit words. One iteration of the loop over lines is
  \<open>psv_step\<close>, and its branches have a definition each.
\<close>

section \<open>Types\<close>

datatype vc_psv_status =
    VC_PSV_STATUS_OK
  | VC_PSV_STATUS_TRUNCATED
  | VC_PSV_STATUS_INVALID_ARGUMENT
  | VC_PSV_STATUS_SOURCE_TOO_LARGE

datatype vc_psv_line_kind =
    VC_PSV_LINE_BLANK
  | VC_PSV_LINE_COMMENT
  | VC_PSV_LINE_CHEAT_HEADER
  | VC_PSV_LINE_CODE
  | VC_PSV_LINE_OPAQUE
  | VC_PSV_LINE_MALFORMED

datatype vc_psv_activation = VC_PSV_ACTIVATION_MANUAL | VC_PSV_ACTIVATION_AUTOSTART

datatype vc_psv_operation_kind =
    VC_PSV_OPERATION_OPAQUE
  | VC_PSV_OPERATION_WRITE_U8
  | VC_PSV_OPERATION_WRITE_U16
  | VC_PSV_OPERATION_WRITE_U32
  | VC_PSV_OPERATION_SELECT_MODULE_BASE

datatype vc_psv_translation_state =
    VC_PSV_TRANSLATION_DIRECT_ONLY
  | VC_PSV_TRANSLATION_MODULE_RELATIVE
  | VC_PSV_TRANSLATION_REQUIRES_UNSUPPORTED
  | VC_PSV_TRANSLATION_MALFORMED

datatype vc_psv_address_mode =
    VC_PSV_ADDRESS_NOT_APPLICABLE
  | VC_PSV_ADDRESS_ABSOLUTE
  | VC_PSV_ADDRESS_SELECTED_MODULE_RELATIVE

text \<open>The order of the translation states is that of the enumerators, which the code compares as integers.\<close>

fun translation_rank :: "vc_psv_translation_state \<Rightarrow> nat" where
  "translation_rank VC_PSV_TRANSLATION_DIRECT_ONLY = 0"
| "translation_rank VC_PSV_TRANSLATION_MODULE_RELATIVE = 1"
| "translation_rank VC_PSV_TRANSLATION_REQUIRES_UNSUPPORTED = 2"
| "translation_rank VC_PSV_TRANSLATION_MALFORMED = 3"

lemma translation_rank_inject: "translation_rank a = translation_rank b \<longleftrightarrow> a = b"
  by (cases a; cases b) simp_all

instantiation vc_psv_translation_state :: linorder
begin

definition less_eq_vc_psv_translation_state ::
  "vc_psv_translation_state \<Rightarrow> vc_psv_translation_state \<Rightarrow> bool" where
  "less_eq_vc_psv_translation_state a b \<longleftrightarrow> translation_rank a \<le> translation_rank b"

definition less_vc_psv_translation_state ::
  "vc_psv_translation_state \<Rightarrow> vc_psv_translation_state \<Rightarrow> bool" where
  "less_vc_psv_translation_state a b \<longleftrightarrow> translation_rank a < translation_rank b"

instance
  by intro_classes
    (auto simp: less_eq_vc_psv_translation_state_def less_vc_psv_translation_state_def
      translation_rank_inject)

end

record vc_psv_span =
  span_offset :: uint32_t
  span_length :: uint32_t

record vc_psv_line =
  raw :: vc_psv_span
  content :: vc_psv_span
  line_kind :: vc_psv_line_kind
  line_cheat :: "nat option" \<comment> \<open>\<^verbatim>\<open>cheat_index\<close>\<close>
  line_operation :: "nat option" \<comment> \<open>\<^verbatim>\<open>operation_index\<close>\<close>

record vc_psv_cheat =
  activation :: vc_psv_activation
  translation_state :: vc_psv_translation_state
  description :: vc_psv_span
  header_line_index :: nat
  first_operation_index :: nat
  operation_count :: nat

record vc_psv_operation =
  operation_kind_of :: vc_psv_operation_kind \<comment> \<open>\<^verbatim>\<open>kind\<close>\<close>
  address_mode :: vc_psv_address_mode
  legacy_code :: uint16_t
  operation_address :: uint32_t \<comment> \<open>\<^verbatim>\<open>address\<close>\<close>
  operation_value :: uint32_t \<comment> \<open>\<^verbatim>\<open>value\<close>\<close>
  operation_cheat :: "nat option" \<comment> \<open>\<^verbatim>\<open>cheat_index\<close>\<close>
  operation_line :: nat \<comment> \<open>\<^verbatim>\<open>line_index\<close>\<close>

record vc_psv_report =
  schema_version :: uint32_t
  source_size :: nat
  total_lines :: nat
  stored_lines :: nat
  total_cheats :: nat
  stored_cheats :: nat
  total_operations :: nat
  stored_operations :: nat
  unsupported_operations :: nat
  non_direct_cheats :: nat
  invalid_operation_sequences :: nat
  malformed_lines :: nat
  legacy_limit_violations :: nat

definition VC_PSV_IMPORT_SCHEMA_VERSION :: uint32_t where
  "VC_PSV_IMPORT_SCHEMA_VERSION = 2"

definition VC_PSV_MAX_SOURCE_BYTES :: nat where
  "VC_PSV_MAX_SOURCE_BYTES = 1024 * 1024"

definition VC_PSV_LEGACY_MAX_CHEATS :: nat where
  "VC_PSV_LEGACY_MAX_CHEATS = 50"

definition VC_PSV_LEGACY_MAX_CODES_PER_CHEAT :: nat where
  "VC_PSV_LEGACY_MAX_CODES_PER_CHEAT = 200"

definition VC_PSV_LEGACY_MAX_DESCRIPTION_BYTES :: nat where
  "VC_PSV_LEGACY_MAX_DESCRIPTION_BYTES = 65"

section \<open>The state of a parse\<close>

record psv_state =
  position :: nat
  active_cheat :: "nat option"
  active_cheat_operation_count :: nat
  active_cheat_tainted :: bool
  relative_base_active :: bool
  relative_write_seen :: bool
  lines :: "vc_psv_line list"
  cheats :: "vc_psv_cheat list"
  operations :: "vc_psv_operation list"
  result :: vc_psv_report

text \<open>\<open>count_up total_lines_update\<close> is \<^verbatim>\<open>++result.total_lines\<close>.\<close>

definition count_up ::
  "((nat \<Rightarrow> nat) \<Rightarrow> vc_psv_report \<Rightarrow> vc_psv_report) \<Rightarrow> psv_state \<Rightarrow> psv_state" where
  "count_up field s = s\<lparr>result := field Suc (result s)\<rparr>"

text \<open>Writing through \<^verbatim>\<open>stored_line\<close>, which is null when the line array is full.\<close>

definition update_line :: "nat \<Rightarrow> (vc_psv_line \<Rightarrow> vc_psv_line) \<Rightarrow> psv_state \<Rightarrow> psv_state" where
  "update_line index f s =
     (if index < length (lines s) then s\<lparr>lines := (lines s)[index := f (lines s ! index)]\<rparr> else s)"

definition operation_kind :: "uint16_t \<Rightarrow> vc_psv_operation_kind" where
  "operation_kind code =
     (if code = 0x0000 then VC_PSV_OPERATION_WRITE_U8
      else if code = 0x0100 then VC_PSV_OPERATION_WRITE_U16
      else if code = 0x0200 then VC_PSV_OPERATION_WRITE_U32
      else if code = 0xb200 then VC_PSV_OPERATION_SELECT_MODULE_BASE
      else VC_PSV_OPERATION_OPAQUE)"

definition store_line :: "nat \<Rightarrow> nat \<Rightarrow> nat \<Rightarrow> nat \<Rightarrow> nat \<Rightarrow> psv_state \<Rightarrow> psv_state" where
  "store_line index raw_begin raw_end content_begin content_end s =
     (if index \<ge> length (lines s) then s
      else s\<lparr>lines := (lines s)[index :=
        \<lparr>raw = \<lparr>span_offset = of_nat raw_begin, span_length = of_nat (raw_end - raw_begin)\<rparr>,
         content = \<lparr>span_offset = of_nat content_begin,
                    span_length = of_nat (content_end - content_begin)\<rparr>,
         line_kind = VC_PSV_LINE_OPAQUE, line_cheat = None, line_operation = None\<rparr>]\<rparr>)"

definition taint_active_cheat :: "vc_psv_translation_state \<Rightarrow> psv_state \<Rightarrow> psv_state" where
  "taint_active_cheat state s =
     (case active_cheat s of
        None \<Rightarrow> s
      | Some active \<Rightarrow>
          let s1 = (if \<not> active_cheat_tainted s
                    then count_up non_direct_cheats_update (s\<lparr>active_cheat_tainted := True\<rparr>)
                    else s)
          in if active < length (cheats s1) \<and> state > translation_state (cheats s1 ! active)
             then s1\<lparr>cheats := (cheats s1)[active := (cheats s1 ! active)\<lparr>translation_state := state\<rparr>]\<rparr>
             else s1)"

definition finalize_active_cheat :: "psv_state \<Rightarrow> psv_state" where
  "finalize_active_cheat s =
     (if active_cheat s \<noteq> None \<and> relative_base_active s \<and> \<not> relative_write_seen s
      then taint_active_cheat VC_PSV_TRANSLATION_MALFORMED
             (count_up invalid_operation_sequences_update s)
      else s)"

section \<open>Splitting lines\<close>

function find_line_end :: "uint8_t list \<Rightarrow> nat \<Rightarrow> nat" where
  "find_line_end source pos =
     (if pos < length source \<and> source ! pos \<noteq> ascii CHR 0x0D \<and> source ! pos \<noteq> ascii CHR 0x0A
      then find_line_end source (Suc pos)
      else pos)"
  by pat_completeness auto
termination
  by (relation "measure (\<lambda>(source, pos). length source - pos)") auto

declare find_line_end.simps [simp del]

definition skip_line_break :: "uint8_t list \<Rightarrow> nat \<Rightarrow> nat" where
  "skip_line_break source pos =
     (if pos < length source \<and> source ! pos = ascii CHR 0x0D
      then if pos + 1 < length source \<and> source ! (pos + 1) = ascii CHR 0x0A then pos + 2 else pos + 1
      else if pos < length source \<and> source ! pos = ascii CHR 0x0A then pos + 1
      else pos)"

text \<open>The content of the first line starts after a UTF-8 byte order mark.\<close>

definition skip_byte_order_mark :: "uint8_t list \<Rightarrow> nat \<Rightarrow> nat \<Rightarrow> nat \<Rightarrow> nat" where
  "skip_byte_order_mark source line_index content_begin content_end =
     (if line_index = 0 \<and> content_end - content_begin \<ge> 3 \<and> source ! content_begin = 0xef \<and>
         source ! (content_begin + 1) = 0xbb \<and> source ! (content_begin + 2) = 0xbf
      then content_begin + 3 else content_begin)"

section \<open>The branches of an iteration\<close>

definition reset_active :: "nat option \<Rightarrow> psv_state \<Rightarrow> psv_state" where
  "reset_active active s =
     s\<lparr>active_cheat := active, active_cheat_operation_count := 0, active_cheat_tainted := False,
       relative_base_active := False, relative_write_seen := False\<rparr>"

definition mark_malformed :: "nat \<Rightarrow> psv_state \<Rightarrow> psv_state" where
  "mark_malformed line_index s =
     taint_active_cheat VC_PSV_TRANSLATION_MALFORMED
       (count_up malformed_lines_update
         (update_line line_index (line_kind_update (\<lambda>_. VC_PSV_LINE_MALFORMED)) s))"

definition start_cheat ::
  "vc_psv_activation \<Rightarrow> nat \<Rightarrow> nat \<Rightarrow> nat \<Rightarrow> psv_state \<Rightarrow> psv_state" where
  "start_cheat act line_index description_begin trimmed_end s =
     (let cheat_index = total_cheats (result s);
          s1 = (if cheat_index < length (cheats s)
                then count_up stored_cheats_update
                  (s\<lparr>cheats := (cheats s)[cheat_index :=
                     \<lparr>activation = act, translation_state = VC_PSV_TRANSLATION_DIRECT_ONLY,
                      description = \<lparr>span_offset = of_nat description_begin,
                                     span_length = of_nat (trimmed_end - description_begin)\<rparr>,
                      header_line_index = line_index,
                      first_operation_index = total_operations (result s),
                      operation_count = 0\<rparr>]\<rparr>)
                else s);
          s2 = update_line line_index
                 (\<lambda>l. l\<lparr>line_kind := VC_PSV_LINE_CHEAT_HEADER, line_cheat := Some cheat_index\<rparr>) s1;
          s3 = (if trimmed_end - description_begin > VC_PSV_LEGACY_MAX_DESCRIPTION_BYTES
                then count_up legacy_limit_violations_update s2 else s2);
          s4 = count_up total_cheats_update s3;
          s5 = (if total_cheats (result s4) = VC_PSV_LEGACY_MAX_CHEATS + 1
                then count_up legacy_limit_violations_update s4 else s4)
      in reset_active (Some cheat_index) s5)"

definition psv_header :: "uint8_t list \<Rightarrow> nat \<Rightarrow> nat \<Rightarrow> nat \<Rightarrow> psv_state \<Rightarrow> psv_state" where
  "psv_header source line_index trimmed_begin trimmed_end s0 =
     (let act = source ! (trimmed_begin + 2);
          description_begin = trimmed_begin + 3;
          s = finalize_active_cheat s0
      in if (act \<noteq> ascii CHR ''0'' \<and> act \<noteq> ascii CHR ''1'') \<or>
            (description_begin < trimmed_end \<and> \<not> ascii_space (source ! description_begin))
         then reset_active None (mark_malformed line_index s)
         else start_cheat
                (if act = ascii CHR ''1'' then VC_PSV_ACTIVATION_AUTOSTART
                 else VC_PSV_ACTIVATION_MANUAL)
                line_index (skip_spaces source description_begin trimmed_end) trimmed_end s)"

text \<open>The effect of a code on the selected module base, and the address mode it gets.\<close>

definition select_module_base :: "uint32_t \<Rightarrow> uint32_t \<Rightarrow> psv_state \<Rightarrow> psv_state" where
  "select_module_base address val s =
     (if active_cheat_operation_count s \<noteq> 0 \<or> relative_base_active s \<or> address > 0xff \<or> val > 1
      then taint_active_cheat VC_PSV_TRANSLATION_MALFORMED
             (count_up invalid_operation_sequences_update s)
      else taint_active_cheat VC_PSV_TRANSLATION_MODULE_RELATIVE
             (s\<lparr>relative_base_active := True, relative_write_seen := False\<rparr>))"

definition apply_kind ::
  "vc_psv_operation_kind \<Rightarrow> uint32_t \<Rightarrow> uint32_t \<Rightarrow> psv_state \<Rightarrow> vc_psv_address_mode \<times> psv_state" where
  "apply_kind kind address val s =
     (if kind = VC_PSV_OPERATION_SELECT_MODULE_BASE
      then (VC_PSV_ADDRESS_NOT_APPLICABLE, select_module_base address val s)
      else if kind \<noteq> VC_PSV_OPERATION_OPAQUE
      then (if relative_base_active s then VC_PSV_ADDRESS_SELECTED_MODULE_RELATIVE
            else VC_PSV_ADDRESS_ABSOLUTE,
            if relative_base_active s then s\<lparr>relative_write_seen := True\<rparr> else s)
      else (VC_PSV_ADDRESS_NOT_APPLICABLE, s))"

definition store_operation :: "vc_psv_operation \<Rightarrow> psv_state \<Rightarrow> psv_state" where
  "store_operation operation s =
     (if total_operations (result s) < length (operations s)
      then count_up stored_operations_update
        (s\<lparr>operations := (operations s)[total_operations (result s) := operation]\<rparr>)
      else s)"

definition count_operation :: "nat \<Rightarrow> psv_state \<Rightarrow> psv_state" where
  "count_operation active s =
     (let s1 = count_up total_operations_update s;
          s2 = s1\<lparr>active_cheat_operation_count := active_cheat_operation_count s1 + 1\<rparr>;
          s3 = (if active < length (cheats s2)
                then s2\<lparr>cheats := (cheats s2)[active :=
                          (cheats s2 ! active)\<lparr>operation_count := operation_count (cheats s2 ! active) + 1\<rparr>]\<rparr>
                else s2)
      in if active_cheat_operation_count s3 = VC_PSV_LEGACY_MAX_CODES_PER_CHEAT + 1
         then count_up legacy_limit_violations_update s3 else s3)"

definition add_operation ::
  "nat \<Rightarrow> nat \<Rightarrow> uint16_t \<times> uint32_t \<times> uint32_t \<Rightarrow> psv_state \<Rightarrow> psv_state" where
  "add_operation line_index active code_line s =
     (let (code, address, val) = code_line;
          kind = operation_kind code;
          operation_index = total_operations (result s);
          (mode, s1) = apply_kind kind address val s;
          s2 = store_operation
                 \<lparr>operation_kind_of = kind, address_mode = mode, legacy_code = code,
                  operation_address = address, operation_value = val,
                  operation_cheat = Some active, operation_line = line_index\<rparr> s1;
          s3 = update_line line_index
                 (\<lambda>l. l\<lparr>line_kind := VC_PSV_LINE_CODE, line_cheat := Some active,
                       line_operation := Some operation_index\<rparr>) s2;
          s4 = (if kind = VC_PSV_OPERATION_OPAQUE
                then taint_active_cheat VC_PSV_TRANSLATION_REQUIRES_UNSUPPORTED
                       (count_up unsupported_operations_update s3)
                else s3)
      in count_operation active s4)"

definition psv_code :: "uint8_t list \<Rightarrow> nat \<Rightarrow> nat \<Rightarrow> nat \<Rightarrow> psv_state \<Rightarrow> psv_state" where
  "psv_code source line_index trimmed_begin trimmed_end s =
     (case (active_cheat s, parse_code source trimmed_begin trimmed_end) of
        (Some active, Some code_line) \<Rightarrow> add_operation line_index active code_line s
      | _ \<Rightarrow> mark_malformed line_index s)"

definition psv_opaque :: "nat \<Rightarrow> psv_state \<Rightarrow> psv_state" where
  "psv_opaque line_index s =
     taint_active_cheat VC_PSV_TRANSLATION_REQUIRES_UNSUPPORTED
       (update_line line_index
         (\<lambda>l. l\<lparr>line_kind := VC_PSV_LINE_OPAQUE, line_cheat := active_cheat s\<rparr>) s)"

definition psv_classify :: "uint8_t list \<Rightarrow> nat \<Rightarrow> nat \<Rightarrow> nat \<Rightarrow> psv_state \<Rightarrow> psv_state" where
  "psv_classify source line_index content_begin content_end s =
     (let (trimmed_begin, trimmed_end) = trim_span source content_begin content_end
      in if trimmed_begin = trimmed_end
         then update_line line_index (line_kind_update (\<lambda>_. VC_PSV_LINE_BLANK)) s
         else if source ! trimmed_begin = ascii CHR ''#''
         then update_line line_index (line_kind_update (\<lambda>_. VC_PSV_LINE_COMMENT)) s
         else if trimmed_end - trimmed_begin \<ge> 3 \<and> source ! trimmed_begin = ascii CHR ''_'' \<and>
                 source ! (trimmed_begin + 1) = ascii CHR ''V''
         then psv_header source line_index trimmed_begin trimmed_end s
         else if source ! trimmed_begin = ascii CHR ''$''
         then psv_code source line_index trimmed_begin trimmed_end s
         else psv_opaque line_index s)"

definition psv_step :: "uint8_t list \<Rightarrow> psv_state \<Rightarrow> psv_state" where
  "psv_step source s =
     (let raw_begin = position s;
          line_index = total_lines (result s);
          content_end = find_line_end source raw_begin;
          raw_end = skip_line_break source content_end;
          content_begin = skip_byte_order_mark source line_index raw_begin content_end;
          s1 = store_line line_index raw_begin raw_end content_begin content_end
                 (s\<lparr>position := raw_end\<rparr>);
          s2 = (if line_index < length (lines s1) then count_up stored_lines_update s1 else s1);
          s3 = count_up total_lines_update s2
      in psv_classify source line_index content_begin content_end s3)"

section \<open>The loop over lines\<close>

lemma position_simps [simp]:
  "position (count_up field s) = position s"
  "position (count_operation cheat s) = position s"
  "position (update_line index f s) = position s"
  "position (store_line index rb re cb ce s) = position s"
  "position (taint_active_cheat state s) = position s"
  "position (finalize_active_cheat s) = position s"
  "position (reset_active active s) = position s"
  "position (store_operation operation s) = position s"
  by (simp_all add: count_operation_def count_up_def update_line_def store_line_def taint_active_cheat_def Let_def
      finalize_active_cheat_def reset_active_def store_operation_def split: option.splits)

lemma position_branches [simp]:
  "position (mark_malformed line_index s) = position s"
  "position (start_cheat act line_index db te s) = position s"
  "position (psv_header source line_index tb te s) = position s"
  "position (select_module_base address val s) = position s"
  "position (snd (apply_kind kind address val s)) = position s"
  "position (add_operation line_index active code_line s) = position s"
  "position (psv_code source line_index tb te s) = position s"
  "position (psv_opaque line_index s) = position s"
  "position (psv_classify source line_index cb ce s) = position s"
proof -
  show malformed [simp]: "position (mark_malformed line_index s) = position s" for line_index s
    by (simp add: mark_malformed_def)
  show start [simp]: "position (start_cheat act line_index db te s) = position s" for act line_index db te s
    by (simp add: start_cheat_def Let_def)
  show header [simp]: "position (psv_header source line_index tb te s) = position s" for source line_index tb te s
    by (simp add: psv_header_def Let_def)
  show select [simp]: "position (select_module_base address val s) = position s" for address val s
    by (simp add: select_module_base_def)
  show kind [simp]: "position (snd (apply_kind kind address val s)) = position s" for kind address val s
    by (simp add: apply_kind_def)
  show add [simp]: "position (add_operation line_index active code_line s) = position s" for line_index active code_line s
  proof -
    obtain code address val where line: "code_line = (code, address, val)"
      by (cases code_line)
    show ?thesis
      unfolding line add_operation_def Let_def split_def fst_conv snd_conv by simp
  qed
  show code [simp]: "position (psv_code source line_index tb te s) = position s" for source line_index tb te s
    by (simp add: psv_code_def split: option.splits)
  show opaque [simp]: "position (psv_opaque line_index s) = position s" for line_index s
    by (simp add: psv_opaque_def)
  show "position (psv_classify source line_index cb ce s) = position s" for source line_index cb ce s
    by (simp add: psv_classify_def Let_def split: prod.splits)
qed

lemma find_line_end_ge: "pos \<le> find_line_end source pos"
  by (induction source pos rule: find_line_end.induct) (subst find_line_end.simps, auto)

lemma find_line_end_le: "pos \<le> length source \<Longrightarrow> find_line_end source pos \<le> length source"
  by (induction source pos rule: find_line_end.induct) (subst find_line_end.simps, auto)

lemma find_line_end_step:
  "find_line_end source pos =
    (if pos < length source \<and> source ! pos \<notin> {ascii CHR 0x0D, ascii CHR 0x0A}
     then find_line_end source (Suc pos) else pos)"
  by (subst find_line_end.simps) simp

lemma find_line_end_break:
  "find_line_end source pos < length source \<Longrightarrow>
    source ! find_line_end source pos \<in> {ascii CHR 0x0D, ascii CHR 0x0A}"
proof (induction source pos rule: find_line_end.induct)
  case (1 source pos)
  show ?case
  proof (cases "pos < length source \<and> source ! pos \<notin> {ascii CHR 0x0D, ascii CHR 0x0A}")
    case True
    then show ?thesis
      using 1 find_line_end_step [of source pos] by simp
  next
    case False
    then have "find_line_end source pos = pos"
      using find_line_end_step [of source pos] by auto
    with False 1 show ?thesis
      by auto
  qed
qed

lemma find_line_end_takeWhile:
  "find_line_end source pos =
    pos + length (takeWhile (\<lambda>x. x \<notin> {ascii CHR 0x0D, ascii CHR 0x0A}) (drop pos source))"
proof (induction source pos rule: find_line_end.induct)
  case (1 source pos)
  show ?case
  proof (cases "pos < length source \<and> source ! pos \<notin> {ascii CHR 0x0D, ascii CHR 0x0A}")
    case True
    then have "drop pos source = source ! pos # drop (Suc pos) source"
      by (simp add: Cons_nth_drop_Suc)
    with True 1 show ?thesis
      by (subst find_line_end_step) simp
  next
    case False
    then have "find_line_end source pos = pos"
      using find_line_end_step [of source pos] by auto
    moreover have "takeWhile (\<lambda>x. x \<notin> {ascii CHR 0x0D, ascii CHR 0x0A}) (drop pos source) = []"
      using False by (cases "pos < length source") (auto simp: Cons_nth_drop_Suc [symmetric])
    ultimately show ?thesis
      by simp
  qed
qed

lemma skip_line_break_bounds:
  "pos \<le> skip_line_break source pos"
  "pos \<le> length source \<Longrightarrow> skip_line_break source pos \<le> length source"
  "pos < length source \<Longrightarrow> source ! pos \<in> {ascii CHR 0x0D, ascii CHR 0x0A} \<Longrightarrow> pos < skip_line_break source pos"
  by (auto simp: skip_line_break_def)

lemma psv_step_position: "position (psv_step source s) = skip_line_break source (find_line_end source (position s))"
  by (simp add: psv_step_def Let_def)

lemma psv_step_advances: "position s < length source \<Longrightarrow> position s < position (psv_step source s)"
proof -
  assume "position s < length source"
  then have "find_line_end source (position s) \<le> length source"
    by (intro find_line_end_le) simp
  moreover have "position s \<le> find_line_end source (position s)"
    by (rule find_line_end_ge)
  ultimately show ?thesis
    using \<open>position s < length source\<close> skip_line_break_bounds(1,3) [of "find_line_end source (position s)" source]
      find_line_end_break [of source "position s"]
    unfolding psv_step_position
    by (cases "find_line_end source (position s) < length source") (auto intro: order.strict_trans1 less_le_trans)
qed

function psv_loop :: "uint8_t list \<Rightarrow> psv_state \<Rightarrow> psv_state" where
  "psv_loop source s =
     (if position s < length source then psv_loop source (psv_step source s) else s)"
  by pat_completeness auto
termination
  by (relation "measure (\<lambda>(source, s). length source - position s)")
    (auto intro: diff_less_mono2 psv_step_advances)

declare psv_loop.simps [simp del]

section \<open>The call\<close>

definition zero_span :: vc_psv_span where
  "zero_span = \<lparr>span_offset = 0, span_length = 0\<rparr>"

text \<open>What \<^verbatim>\<open>memset\<close> to zero makes of an array element: the enumerators of value \<open>0\<close>, index \<open>0\<close>.\<close>

definition zero_line :: vc_psv_line where
  "zero_line = \<lparr>raw = zero_span, content = zero_span, line_kind = VC_PSV_LINE_BLANK,
     line_cheat = Some 0, line_operation = Some 0\<rparr>"

definition zero_cheat :: vc_psv_cheat where
  "zero_cheat = \<lparr>activation = VC_PSV_ACTIVATION_MANUAL,
     translation_state = VC_PSV_TRANSLATION_DIRECT_ONLY, description = zero_span,
     header_line_index = 0, first_operation_index = 0, operation_count = 0\<rparr>"

definition zero_operation :: vc_psv_operation where
  "zero_operation = \<lparr>operation_kind_of = VC_PSV_OPERATION_OPAQUE,
     address_mode = VC_PSV_ADDRESS_NOT_APPLICABLE, legacy_code = 0, operation_address = 0,
     operation_value = 0, operation_cheat = Some 0, operation_line = 0\<rparr>"

definition zero_report :: vc_psv_report where
  "zero_report = \<lparr>schema_version = 0, source_size = 0, total_lines = 0, stored_lines = 0,
     total_cheats = 0, stored_cheats = 0, total_operations = 0, stored_operations = 0,
     unsupported_operations = 0, non_direct_cheats = 0, invalid_operation_sequences = 0,
     malformed_lines = 0, legacy_limit_violations = 0\<rparr>"

definition discard_partial_outputs :: "psv_state \<Rightarrow> psv_state" where
  "discard_partial_outputs s =
     (let r = result s in
      s\<lparr>lines := replicate (stored_lines r) zero_line @ drop (stored_lines r) (lines s),
        cheats := replicate (stored_cheats r) zero_cheat @ drop (stored_cheats r) (cheats s),
        operations := replicate (stored_operations r) zero_operation @
          drop (stored_operations r) (operations s),
        result := r\<lparr>stored_lines := 0, stored_cheats := 0, stored_operations := 0\<rparr>\<rparr>)"

text \<open>The arrays of a call and its report.\<close>

record psv_buffers =
  line_buffer :: "vc_psv_line list"
  cheat_buffer :: "vc_psv_cheat list"
  operation_buffer :: "vc_psv_operation list"
  report_buffer :: vc_psv_report

definition psv_start :: "uint8_t list \<Rightarrow> psv_buffers \<Rightarrow> psv_state" where
  "psv_start source b =
     \<lparr>position = 0, active_cheat = None, active_cheat_operation_count = 0,
      active_cheat_tainted = False, relative_base_active = False, relative_write_seen = False,
      lines = line_buffer b, cheats = cheat_buffer b, operations = operation_buffer b,
      result = zero_report\<lparr>schema_version := VC_PSV_IMPORT_SCHEMA_VERSION,
                           source_size := length source\<rparr>\<rparr>"

text \<open>The function past its argument checks.\<close>

definition psv_run :: "uint8_t list \<Rightarrow> psv_buffers \<Rightarrow> vc_psv_status \<times> psv_buffers" where
  "psv_run source b =
     (let s = finalize_active_cheat (psv_loop source (psv_start source b));
          r = result s;
          (status, s') =
            (if stored_lines r \<noteq> total_lines r \<or> stored_cheats r \<noteq> total_cheats r \<or>
                stored_operations r \<noteq> total_operations r
             then (VC_PSV_STATUS_TRUNCATED, discard_partial_outputs s)
             else (VC_PSV_STATUS_OK, s))
      in (status, \<lparr>line_buffer = lines s', cheat_buffer = cheats s', operation_buffer = operations s',
                   report_buffer = result s'\<rparr>))"

text \<open>The addresses and capacities of a call; the sizes of the structures depend on the ABI.\<close>

record (overloaded) 's psv_args =
  source_address :: "'s word"
  source_length :: "'s word" \<comment> \<open>\<^verbatim>\<open>source_size\<close>\<close>
  lines_address :: "'s word"
  line_capacity :: "'s word"
  cheats_address :: "'s word"
  cheat_capacity :: "'s word"
  operations_address :: "'s word"
  operation_capacity :: "'s word"
  report_address :: "'s word"
  sizeof_line :: "'s word"
  sizeof_cheat :: "'s word"
  sizeof_operation :: "'s word"
  sizeof_report :: "'s word"

definition multiply_size :: "'s::len word \<Rightarrow> 's word \<Rightarrow> 's word option" where
  "multiply_size left right =
     (if left \<noteq> 0 \<and> right > - 1 div left then None else Some (left * right))"

definition ranges_overlap ::
  "'s::len word \<Rightarrow> 's word \<Rightarrow> 's word \<Rightarrow> 's word \<Rightarrow> bool" where
  "ranges_overlap left left_size right right_size =
     (if left = 0 \<or> right = 0 \<or> left_size = 0 \<or> right_size = 0 then False
      else if left > - 1 - left_size \<or> right > - 1 - right_size then True
      else left < right + right_size \<and> right < left + left_size)"

definition psv_check_arguments :: "('s::len, 'x) psv_args_scheme \<Rightarrow> vc_psv_status option" where
  "psv_check_arguments a =
     (if report_address a = 0 \<or> (source_address a = 0 \<and> source_length a \<noteq> 0) \<or>
         (lines_address a = 0 \<and> line_capacity a \<noteq> 0) \<or>
         (cheats_address a = 0 \<and> cheat_capacity a \<noteq> 0) \<or>
         (operations_address a = 0 \<and> operation_capacity a \<noteq> 0)
      then Some VC_PSV_STATUS_INVALID_ARGUMENT
      else if unat (source_length a) > VC_PSV_MAX_SOURCE_BYTES
      then Some VC_PSV_STATUS_SOURCE_TOO_LARGE
      else
        case (multiply_size (line_capacity a) (sizeof_line a),
              multiply_size (cheat_capacity a) (sizeof_cheat a),
              multiply_size (operation_capacity a) (sizeof_operation a)) of
          (Some line_bytes, Some cheat_bytes, Some operation_bytes) \<Rightarrow>
            if ranges_overlap (source_address a) (source_length a) (lines_address a) line_bytes \<or>
               ranges_overlap (source_address a) (source_length a) (cheats_address a) cheat_bytes \<or>
               ranges_overlap (source_address a) (source_length a) (operations_address a) operation_bytes \<or>
               ranges_overlap (source_address a) (source_length a) (report_address a) (sizeof_report a) \<or>
               ranges_overlap (lines_address a) line_bytes (cheats_address a) cheat_bytes \<or>
               ranges_overlap (lines_address a) line_bytes (operations_address a) operation_bytes \<or>
               ranges_overlap (lines_address a) line_bytes (report_address a) (sizeof_report a) \<or>
               ranges_overlap (cheats_address a) cheat_bytes (operations_address a) operation_bytes \<or>
               ranges_overlap (cheats_address a) cheat_bytes (report_address a) (sizeof_report a) \<or>
               ranges_overlap (operations_address a) operation_bytes (report_address a) (sizeof_report a)
            then Some VC_PSV_STATUS_INVALID_ARGUMENT
            else None
        | _ \<Rightarrow> Some VC_PSV_STATUS_INVALID_ARGUMENT)"

definition vc_psv_parse ::
  "('s::len, 'x) psv_args_scheme \<Rightarrow> uint8_t list \<Rightarrow> psv_buffers \<Rightarrow> vc_psv_status \<times> psv_buffers" where
  "vc_psv_parse a source b =
     (case psv_check_arguments a of
        Some status \<Rightarrow> (status, b)
      | None \<Rightarrow> psv_run source b)"

lemma ranges_overlap_eq: "ranges_overlap l ls r rs = vc_ranges_overlap l ls r rs"
  by (auto simp: ranges_overlap_def vc_ranges_overlap_def)

lemma multiply_size_eq: "multiply_size a b = vc_multiply_size a b"
  by (simp add: multiply_size_def vc_multiply_size_def)

interpretation psv_guard: range_guard ranges_overlap multiply_size
  by unfold_locales
    (simp_all only: ranges_overlap_eq multiply_size_eq search_guard.overlap_iff search_guard.mult_iff)

end
