(* ===== verification/VC_Psv_Doc.thy ===== *)
theory VC_Psv_Doc
  imports VC_Psv
begin

unbundle bit_operations_syntax

text \<open>
  The abstract specification of the legacy parser: a source is cut into lines, each line is one item, and the
  items are folded into a document, a list of blocks that each own their operations. No array, capacity,
  index or counter of the C function occurs in it. \<open>concrete\<close> writes a document into the buffers of a call, and
  the refinement theorem of \<open>VC_Psv_Refine\<close> says that the C state is the concrete form of the document
  at every iteration, whatever the capacities.
\<close>

section \<open>Items\<close>

datatype psv_item =
    Item_Blank
  | Item_Comment
  | Item_Header vc_psv_activation nat nat \<comment> \<open>where its description begins and ends\<close>
  | Item_Bad_Header
  | Item_Code uint16_t uint32_t uint32_t
  | Item_Bad_Code
  | Item_Other

definition header_item :: "uint8_t list \<Rightarrow> nat \<Rightarrow> nat \<Rightarrow> psv_item" where
  "header_item source start stop =
     (let act = source ! (start + 2) in
      if (act \<noteq> ascii CHR ''0'' \<and> act \<noteq> ascii CHR ''1'') \<or>
         (start + 3 < stop \<and> \<not> ascii_space (source ! (start + 3)))
      then Item_Bad_Header
      else Item_Header
             (if act = ascii CHR ''1'' then VC_PSV_ACTIVATION_AUTOSTART else VC_PSV_ACTIVATION_MANUAL)
             (skip_spaces source (start + 3) stop) stop)"

definition psv_item :: "uint8_t list \<Rightarrow> nat \<Rightarrow> nat \<Rightarrow> psv_item" where
  "psv_item source content_begin content_end =
     (let (start, stop) = trim_span source content_begin content_end in
      if start = stop then Item_Blank
      else if source ! start = ascii CHR ''#'' then Item_Comment
      else if stop - start \<ge> 3 \<and> source ! start = ascii CHR ''_'' \<and> source ! (start + 1) = ascii CHR ''V''
      then header_item source start stop
      else if source ! start = ascii CHR ''$''
      then (case parse_code source start stop of
              None \<Rightarrow> Item_Bad_Code
            | Some (code, address, val) \<Rightarrow> Item_Code code address val)
      else Item_Other)"

text \<open>A line of the source: its raw span, its content span and its item.\<close>

record psv_source_line =
  raw_from :: nat
  raw_to :: nat
  content_from :: nat
  content_to :: nat
  item :: psv_item

definition next_line :: "uint8_t list \<Rightarrow> nat \<Rightarrow> nat" where
  "next_line source pos = skip_line_break source (find_line_end source pos)"

definition source_line :: "uint8_t list \<Rightarrow> nat \<Rightarrow> nat \<Rightarrow> psv_source_line" where
  "source_line source index pos =
     (let stop = find_line_end source pos; start = skip_byte_order_mark source index pos stop in
      \<lparr>raw_from = pos, raw_to = next_line source pos, content_from = start, content_to = stop,
       item = psv_item source start stop\<rparr>)"

lemma next_line_bounds:
  assumes "pos < length source"
  shows "pos < next_line source pos" and "next_line source pos \<le> length source"
proof -
  let ?stop = "find_line_end source pos"
  have stop: "pos \<le> ?stop" "?stop \<le> length source"
    using assms find_line_end_ge find_line_end_le by (auto simp: less_imp_le)
  show "next_line source pos \<le> length source"
    using stop(2) unfolding next_line_def by (rule skip_line_break_bounds(2))
  show "pos < next_line source pos"
    using psv_step_advances [of "undefined\<lparr>position := pos\<rparr>" source] assms
    by (simp add: psv_step_position next_line_def)
qed

function source_lines :: "uint8_t list \<Rightarrow> nat \<Rightarrow> nat \<Rightarrow> psv_source_line list" where
  "source_lines source index pos =
     (if pos < length source
      then source_line source index pos # source_lines source (Suc index) (next_line source pos)
      else [])"
  by pat_completeness auto
termination
  by (relation "measure (\<lambda>(source, index, pos). length source - pos)")
    (auto intro: diff_less_mono2 next_line_bounds)

declare source_lines.simps [simp del]

section \<open>Documents\<close>

record psv_block =
  block_activation :: vc_psv_activation
  block_description :: vc_psv_span
  block_long :: bool \<comment> \<open>the description is longer than the legacy limit\<close>
  block_header :: nat
  block_state :: vc_psv_translation_state
  block_operations :: "vc_psv_operation list"

record psv_document =
  document_lines :: "vc_psv_line list"
  document_blocks :: "psv_block list"
  document_open :: bool \<comment> \<open>code lines belong to the last block\<close>
  document_invalid :: nat \<comment> \<open>invalid operation sequences so far\<close>

definition empty_document :: psv_document where
  "empty_document =
     \<lparr>document_lines = [], document_blocks = [], document_open = False, document_invalid = 0\<rparr>"

definition selects_base :: "vc_psv_operation \<Rightarrow> bool" where
  "selects_base p \<longleftrightarrow>
     operation_kind_of p = VC_PSV_OPERATION_SELECT_MODULE_BASE \<and>
     operation_address p \<le> 0xff \<and> operation_value p \<le> 1"

definition writes :: "vc_psv_operation \<Rightarrow> bool" where
  "writes p \<longleftrightarrow> operation_kind_of p \<in>
     {VC_PSV_OPERATION_WRITE_U8, VC_PSV_OPERATION_WRITE_U16, VC_PSV_OPERATION_WRITE_U32}"

text \<open>The operations of a relative block start with a module base.\<close>

definition has_base :: "vc_psv_operation list \<Rightarrow> bool" where
  "has_base ps \<longleftrightarrow> ps \<noteq> [] \<and> selects_base (hd ps)"

definition dangling_base :: "vc_psv_operation list \<Rightarrow> bool" where
  "dangling_base ps \<longleftrightarrow> has_base ps \<and> (\<forall>p \<in> set ps. \<not> writes p)"

definition update_open ::
  "(psv_block \<Rightarrow> psv_block) \<Rightarrow> psv_document \<Rightarrow> psv_document" where
  "update_open f d =
     (if document_open d
      then d\<lparr>document_blocks := butlast (document_blocks d) @ [f (last (document_blocks d))]\<rparr>
      else d)"

definition taint :: "vc_psv_translation_state \<Rightarrow> psv_document \<Rightarrow> psv_document" where
  "taint state = update_open (\<lambda>b. b\<lparr>block_state := max state (block_state b)\<rparr>)"

definition open_operations :: "psv_document \<Rightarrow> vc_psv_operation list" where
  "open_operations d = (if document_open d then block_operations (last (document_blocks d)) else [])"

definition all_operations :: "psv_document \<Rightarrow> vc_psv_operation list" where
  "all_operations d = concat (map block_operations (document_blocks d))"

definition close_block :: "psv_document \<Rightarrow> psv_document" where
  "close_block d =
     (if dangling_base (open_operations d)
      then taint VC_PSV_TRANSLATION_MALFORMED (d\<lparr>document_invalid := Suc (document_invalid d)\<rparr>)
      else d)"

definition add_line :: "vc_psv_line \<Rightarrow> psv_document \<Rightarrow> psv_document" where
  "add_line l d = d\<lparr>document_lines := document_lines d @ [l]\<rparr>"

definition span_of :: "nat \<Rightarrow> nat \<Rightarrow> vc_psv_span" where
  "span_of start stop = \<lparr>span_offset = of_nat start, span_length = of_nat (stop - start)\<rparr>"

definition line_of ::
  "psv_source_line \<Rightarrow> vc_psv_line_kind \<Rightarrow> nat option \<Rightarrow> nat option \<Rightarrow> vc_psv_line" where
  "line_of x kind cheat operation =
     \<lparr>raw = span_of (raw_from x) (raw_to x), content = span_of (content_from x) (content_to x),
      line_kind = kind, line_cheat = cheat, line_operation = operation\<rparr>"

definition open_index :: "psv_document \<Rightarrow> nat option" where
  "open_index d = (if document_open d then Some (length (document_blocks d) - 1) else None)"

text \<open>The operation a code stands for, after the operations its block already has.\<close>

definition code_operation ::
  "psv_document \<Rightarrow> uint16_t \<Rightarrow> uint32_t \<Rightarrow> uint32_t \<Rightarrow> vc_psv_operation" where
  "code_operation d code address val =
     (let kind = operation_kind code in
      \<lparr>operation_kind_of = kind,
       address_mode =
         (if kind = VC_PSV_OPERATION_OPAQUE \<or> kind = VC_PSV_OPERATION_SELECT_MODULE_BASE
          then VC_PSV_ADDRESS_NOT_APPLICABLE
          else if has_base (open_operations d) then VC_PSV_ADDRESS_SELECTED_MODULE_RELATIVE
          else VC_PSV_ADDRESS_ABSOLUTE),
       legacy_code = code, operation_address = address, operation_value = val,
       operation_cheat = open_index d, operation_line = length (document_lines d)\<rparr>)"

text \<open>Why an operation after the given ones keeps its block from being translated directly.\<close>

definition operation_state ::
  "vc_psv_operation list \<Rightarrow> vc_psv_operation \<Rightarrow> vc_psv_translation_state" where
  "operation_state ps p =
     (if operation_kind_of p = VC_PSV_OPERATION_OPAQUE then VC_PSV_TRANSLATION_REQUIRES_UNSUPPORTED
      else if operation_kind_of p \<noteq> VC_PSV_OPERATION_SELECT_MODULE_BASE
      then VC_PSV_TRANSLATION_DIRECT_ONLY
      else if ps = [] \<and> selects_base p then VC_PSV_TRANSLATION_MODULE_RELATIVE
      else VC_PSV_TRANSLATION_MALFORMED)"

definition document_code ::
  "psv_source_line \<Rightarrow> uint16_t \<Rightarrow> uint32_t \<Rightarrow> uint32_t \<Rightarrow> psv_document \<Rightarrow> psv_document" where
  "document_code x code address val d =
     (let p = code_operation d code address val;
          state = operation_state (open_operations d) p;
          d1 = (if state = VC_PSV_TRANSLATION_MALFORMED
                then d\<lparr>document_invalid := Suc (document_invalid d)\<rparr> else d)
      in add_line (line_of x VC_PSV_LINE_CODE (open_index d) (Some (length (all_operations d))))
           (update_open (\<lambda>b. b\<lparr>block_state := max state (block_state b),
                             block_operations := block_operations b @ [p]\<rparr>) d1))"

definition document_malformed :: "psv_source_line \<Rightarrow> psv_document \<Rightarrow> psv_document" where
  "document_malformed x d =
     add_line (line_of x VC_PSV_LINE_MALFORMED None None) (taint VC_PSV_TRANSLATION_MALFORMED d)"

definition document_step :: "psv_document \<Rightarrow> psv_source_line \<Rightarrow> psv_document" where
  "document_step d x =
     (case item x of
        Item_Blank \<Rightarrow> add_line (line_of x VC_PSV_LINE_BLANK None None) d
      | Item_Comment \<Rightarrow> add_line (line_of x VC_PSV_LINE_COMMENT None None) d
      | Item_Header act start stop \<Rightarrow>
          (let d1 = close_block d; cheat = length (document_blocks d)
           in add_line (line_of x VC_PSV_LINE_CHEAT_HEADER (Some cheat) None)
                (d1\<lparr>document_blocks := document_blocks d1 @
                      [\<lparr>block_activation = act, block_description = span_of start stop,
                        block_long = (stop - start > VC_PSV_LEGACY_MAX_DESCRIPTION_BYTES),
                        block_header = length (document_lines d),
                        block_state = VC_PSV_TRANSLATION_DIRECT_ONLY, block_operations = []\<rparr>],
                    document_open := True\<rparr>))
      | Item_Bad_Header \<Rightarrow> (document_malformed x (close_block d))\<lparr>document_open := False\<rparr>
      | Item_Code code address val \<Rightarrow>
          if document_open d then document_code x code address val d else document_malformed x d
      | Item_Bad_Code \<Rightarrow> document_malformed x d
      | Item_Other \<Rightarrow>
          add_line (line_of x VC_PSV_LINE_OPAQUE (open_index d) None)
            (taint VC_PSV_TRANSLATION_REQUIRES_UNSUPPORTED d))"

definition document :: "uint8_t list \<Rightarrow> psv_document" where
  "document source = close_block (foldl document_step empty_document (source_lines source 0 0))"

section \<open>The concrete form of a document\<close>

primrec flat_cheats :: "nat \<Rightarrow> psv_block list \<Rightarrow> vc_psv_cheat list" where
  "flat_cheats n [] = []"
| "flat_cheats n (b # bs) =
     \<lparr>activation = block_activation b, translation_state = block_state b,
      description = block_description b, header_line_index = block_header b,
      first_operation_index = n, operation_count = length (block_operations b)\<rparr> #
     flat_cheats (n + length (block_operations b)) bs"

text \<open>\<open>overlay xs buffer\<close>: \<open>xs\<close> written from the start of the buffer as far as it goes.\<close>

definition overlay :: "'a list \<Rightarrow> 'a list \<Rightarrow> 'a list" where
  "overlay xs buffer = take (length buffer) xs @ drop (length xs) buffer"

definition document_report :: "uint8_t list \<Rightarrow> psv_document \<Rightarrow> vc_psv_report" where
  "document_report source d =
     \<lparr>schema_version = VC_PSV_IMPORT_SCHEMA_VERSION, source_size = length source,
      total_lines = length (document_lines d), stored_lines = 0,
      total_cheats = length (document_blocks d), stored_cheats = 0,
      total_operations = length (all_operations d), stored_operations = 0,
      unsupported_operations =
        length (filter (\<lambda>p. operation_kind_of p = VC_PSV_OPERATION_OPAQUE) (all_operations d)),
      non_direct_cheats =
        length (filter (\<lambda>b. block_state b \<noteq> VC_PSV_TRANSLATION_DIRECT_ONLY) (document_blocks d)),
      invalid_operation_sequences = document_invalid d,
      malformed_lines =
        length (filter (\<lambda>l. line_kind l = VC_PSV_LINE_MALFORMED) (document_lines d)),
      legacy_limit_violations =
        length (filter block_long (document_blocks d)) +
        (if length (document_blocks d) > VC_PSV_LEGACY_MAX_CHEATS then 1 else 0) +
        length (filter (\<lambda>b. length (block_operations b) > VC_PSV_LEGACY_MAX_CODES_PER_CHEAT)
          (document_blocks d))\<rparr>"

definition concrete :: "uint8_t list \<Rightarrow> psv_buffers \<Rightarrow> nat \<Rightarrow> psv_document \<Rightarrow> psv_state" where
  "concrete source b pos d =
     \<lparr>position = pos, active_cheat = open_index d,
      active_cheat_operation_count = length (open_operations d),
      active_cheat_tainted =
        (document_open d \<and> block_state (last (document_blocks d)) \<noteq> VC_PSV_TRANSLATION_DIRECT_ONLY),
      relative_base_active = has_base (open_operations d),
      relative_write_seen = (has_base (open_operations d) \<and> (\<exists>p \<in> set (open_operations d). writes p)),
      lines = overlay (document_lines d) (line_buffer b),
      cheats = overlay (flat_cheats 0 (document_blocks d)) (cheat_buffer b),
      operations = overlay (all_operations d) (operation_buffer b),
      result = (document_report source d)
        \<lparr>stored_lines := min (length (document_lines d)) (length (line_buffer b)),
         stored_cheats := min (length (document_blocks d)) (length (cheat_buffer b)),
         stored_operations := min (length (all_operations d)) (length (operation_buffer b))\<rparr>\<rparr>"

end
