(* ===== verification/VC_Psv_Refine.thy ===== *)
theory VC_Psv_Refine
  imports VC_Psv_Doc
begin

unbundle bit_operations_syntax

text \<open>
  The refinement of the document specification by the C parser: every branch of an iteration maps the
  concrete form of a document to the concrete form of its successor, for buffers of any capacity.
\<close>

section \<open>Overlays\<close>

lemma length_overlay [simp]: "length (overlay xs buffer) = length buffer"
  by (simp add: overlay_def min_def)

lemma overlay_snoc: "overlay (xs @ [x]) buffer = (overlay xs buffer)[length xs := x]"
proof (cases "length xs < length buffer")
  case True
  then have "drop (length xs) buffer = buffer ! length xs # drop (Suc (length xs)) buffer"
    by (simp add: Cons_nth_drop_Suc)
  with True show ?thesis
    by (simp add: overlay_def list_update_append)
next
  case False
  then show ?thesis
    by (simp add: overlay_def list_update_beyond)
qed

lemma overlay_replace: "(overlay (xs @ [x]) buffer)[length xs := y] = overlay (xs @ [y]) buffer"
  by (simp add: overlay_snoc)

lemma nth_overlay_snoc: "length xs < length buffer \<Longrightarrow> overlay (xs @ [x]) buffer ! length xs = x"
  by (simp add: overlay_snoc)

lemma overlay_Nil [simp]: "overlay [] buffer = buffer"
  by (simp add: overlay_def)

lemma overlay_all: "length xs \<le> length buffer \<Longrightarrow> take (length xs) (overlay xs buffer) = xs"
  by (simp add: overlay_def)

section \<open>Blocks\<close>

definition block_cheat :: "nat \<Rightarrow> psv_block \<Rightarrow> vc_psv_cheat" where
  "block_cheat n b =
     \<lparr>activation = block_activation b, translation_state = block_state b,
      description = block_description b, header_line_index = block_header b,
      first_operation_index = n, operation_count = length (block_operations b)\<rparr>"

lemma flat_cheats_snoc:
  "flat_cheats n (bs @ [b]) =
    flat_cheats n bs @ [block_cheat (n + length (concat (map block_operations bs))) b]"
  by (induction bs arbitrary: n) (simp_all add: block_cheat_def add.assoc)

lemma length_flat_cheats [simp]: "length (flat_cheats n bs) = length bs"
  by (induction bs arbitrary: n) simp_all

definition open_ok :: "psv_document \<Rightarrow> bool" where
  "open_ok d \<longleftrightarrow> (document_open d \<longrightarrow> document_blocks d \<noteq> [])"

lemma open_blocks:
  assumes "open_ok d" and "document_open d"
  obtains bs k where "document_blocks d = bs @ [k]"
  using assms by (metis append_butlast_last_id open_ok_def)

section \<open>Simple updates\<close>

lemma count_up_invalid:
  "count_up invalid_operation_sequences_update (concrete source b pos d) =
    concrete source b pos (d\<lparr>document_invalid := Suc (document_invalid d)\<rparr>)"
  by (simp add: count_up_def concrete_def document_report_def open_index_def open_operations_def
      all_operations_def)

lemma taint_closed: "\<not> document_open d \<Longrightarrow> taint state d = d"
  by (simp add: taint_def update_open_def)

lemma direct_least: "VC_PSV_TRANSLATION_DIRECT_ONLY \<le> state"
  by (simp add: less_eq_vc_psv_translation_state_def)

lemma concrete_open:
  assumes "document_open d" and "document_blocks d = bs @ [k]"
  shows "concrete source b pos d =
    \<lparr>position = pos, active_cheat = Some (length bs),
     active_cheat_operation_count = length (block_operations k),
     active_cheat_tainted = (block_state k \<noteq> VC_PSV_TRANSLATION_DIRECT_ONLY),
     relative_base_active = has_base (block_operations k),
     relative_write_seen = (has_base (block_operations k) \<and> (\<exists>p \<in> set (block_operations k). writes p)),
     lines = overlay (document_lines d) (line_buffer b),
     cheats = (overlay (flat_cheats 0 bs) (cheat_buffer b))
       [length bs := block_cheat (length (concat (map block_operations bs))) k],
     operations = overlay (all_operations d) (operation_buffer b),
     result = (document_report source d)
        \<lparr>stored_lines := min (length (document_lines d)) (length (line_buffer b)),
         stored_cheats := min (length (document_blocks d)) (length (cheat_buffer b)),
         stored_operations := min (length (all_operations d)) (length (operation_buffer b))\<rparr>\<rparr>"
  using assms
  by (simp add: concrete_def open_index_def open_operations_def flat_cheats_snoc overlay_snoc)

lemma taint_concrete:
  assumes "open_ok d" and "state \<noteq> VC_PSV_TRANSLATION_DIRECT_ONLY"
  shows "taint_active_cheat state (concrete source b pos d) = concrete source b pos (taint state d)"
proof (cases "document_open d")
  case False
  then show ?thesis
    by (simp add: taint_active_cheat_def concrete_def open_index_def taint_closed)
next
  case True
  then obtain bs k where d: "document_blocks d = bs @ [k]"
    using assms(1) open_blocks by blast
  define k' where "k' = k\<lparr>block_state := max state (block_state k)\<rparr>"
  have taint: "taint state d = d\<lparr>document_blocks := bs @ [k']\<rparr>"
    using True d by (simp add: taint_def update_open_def k'_def)
  have same: "block_operations k' = block_operations k" "block_long k' = block_long k"
    and tainted: "block_state k' \<noteq> VC_PSV_TRANSLATION_DIRECT_ONLY"
    and stay: "\<not> block_state k < state \<Longrightarrow> k' = k"
    and raise: "block_state k < state \<Longrightarrow> (block_cheat n k)\<lparr>translation_state := state\<rparr> = block_cheat n k'" for n
    using assms(2) direct_least [of state] direct_least [of "block_state k"]
    by (auto simp: k'_def max_def block_cheat_def not_less)
  have translation: "translation_state (block_cheat n k) = block_state k" for n
    by (simp add: block_cheat_def)
  have open': "document_open (d\<lparr>document_blocks := bs @ [k']\<rparr>)"
    using True by simp
  have report: "document_report source (d\<lparr>document_blocks := bs @ [k']\<rparr>) =
      (if block_state k = VC_PSV_TRANSLATION_DIRECT_ONLY
       then non_direct_cheats_update Suc (document_report source d) else document_report source d)"
    using d tainted by (simp add: document_report_def all_operations_def same)
  have ops: "all_operations (d\<lparr>document_blocks := bs @ [k']\<rparr>) = all_operations d"
    using d by (simp add: all_operations_def same)
  show ?thesis
    unfolding taint concrete_open [OF True d] concrete_open [OF open', of bs k', simplified] report ops
    using tainted stay d raise
    by (auto simp: taint_active_cheat_def count_up_def Let_def same translation list_update_beyond)
qed


lemma open_ok_simps [simp]:
  "open_ok d \<Longrightarrow> open_ok (taint state d)" "open_ok (add_line l d) \<longleftrightarrow> open_ok d"
  "open_ok (d\<lparr>document_invalid := n\<rparr>) \<longleftrightarrow> open_ok d" "open_ok (d\<lparr>document_open := False\<rparr>)"
  by (auto simp: open_ok_def taint_def update_open_def add_line_def)

lemma open_ok_close [simp]: "open_ok d \<Longrightarrow> open_ok (close_block d)"
  by (simp add: close_block_def)

lemma finalize_concrete:
  assumes "open_ok d"
  shows "finalize_active_cheat (concrete source b pos d) = concrete source b pos (close_block d)"
proof -
  have "dangling_base (open_operations d) \<longleftrightarrow>
      document_open d \<and> has_base (open_operations d) \<and> (\<forall>p \<in> set (open_operations d). \<not> writes p)"
    by (auto simp: dangling_base_def open_operations_def has_base_def)
  then have "finalize_active_cheat (concrete source b pos d) =
      (if dangling_base (open_operations d)
       then taint_active_cheat VC_PSV_TRANSLATION_MALFORMED
              (count_up invalid_operation_sequences_update (concrete source b pos d))
       else concrete source b pos d)"
    by (auto simp: finalize_active_cheat_def concrete_def open_index_def)
  then show ?thesis
    using assms by (simp add: close_block_def count_up_invalid taint_concrete)
qed

lemma reset_concrete:
  "reset_active None (concrete source b pos d) = concrete source b pos (d\<lparr>document_open := False\<rparr>)"
  by (simp add: reset_active_def concrete_def document_report_def all_operations_def open_index_def
      open_operations_def has_base_def)

section \<open>Lines\<close>

lemma add_line_commute:
  "taint state (add_line l d) = add_line l (taint state d)"
  "close_block (add_line l d) = add_line l (close_block d)"
  "(add_line l d)\<lparr>document_open := v\<rparr> = add_line l (d\<lparr>document_open := v\<rparr>)"
  "(add_line l d)\<lparr>document_invalid := n\<rparr> = add_line l (d\<lparr>document_invalid := n\<rparr>)"
  by (simp_all add: taint_def update_open_def add_line_def close_block_def open_operations_def)

lemma add_line_simps [simp]:
  "document_lines (add_line l d) = document_lines d @ [l]"
  "document_blocks (add_line l d) = document_blocks d" "document_open (add_line l d) = document_open d"
  "document_invalid (add_line l d) = document_invalid d"
  "open_operations (add_line l d) = open_operations d" "all_operations (add_line l d) = all_operations d"
  "open_index (add_line l d) = open_index d"
  by (simp_all add: add_line_def open_operations_def all_operations_def open_index_def)

lemma concrete_add_line:
  "concrete source b pos (add_line l d) =
    (concrete source b pos d)
      \<lparr>lines := (overlay (document_lines d) (line_buffer b))[length (document_lines d) := l],
       result := (result (concrete source b pos d))
         \<lparr>total_lines := Suc (length (document_lines d)),
          stored_lines := min (Suc (length (document_lines d))) (length (line_buffer b)),
          malformed_lines := malformed_lines (document_report source d) +
            (if line_kind l = VC_PSV_LINE_MALFORMED then 1 else 0)\<rparr>\<rparr>"
  by (simp add: concrete_def document_report_def overlay_snoc)

lemma update_line_concrete:
  assumes "line_kind l \<noteq> VC_PSV_LINE_MALFORMED" and "line_kind (f l) \<noteq> VC_PSV_LINE_MALFORMED"
    and "index = length (document_lines d)"
  shows "update_line index f (concrete source b pos (add_line l d)) =
    concrete source b pos (add_line (f l) d)"
  using assms by (simp add: concrete_add_line update_line_def list_update_beyond)

lemma malformed_line_concrete:
  assumes "line_kind l \<noteq> VC_PSV_LINE_MALFORMED" and "index = length (document_lines d)"
  shows "count_up malformed_lines_update
      (update_line index (line_kind_update (\<lambda>_. VC_PSV_LINE_MALFORMED)) (concrete source b pos (add_line l d))) =
    concrete source b pos (add_line (l\<lparr>line_kind := VC_PSV_LINE_MALFORMED\<rparr>) d)"
  using assms
  by (simp add: concrete_add_line update_line_def count_up_def list_update_beyond)

lemma mark_malformed_concrete:
  assumes "open_ok d"
  shows "mark_malformed (length (document_lines d))
      (concrete source b pos (add_line (line_of x VC_PSV_LINE_OPAQUE None None) d)) =
    concrete source b pos (document_malformed x d)"
  using assms
  by (simp add: mark_malformed_def malformed_line_concrete taint_concrete document_malformed_def
      add_line_commute line_of_def)

lemma begin_line_concrete:
  assumes "x = source_line source (length (document_lines d)) pos"
  shows "psv_step source (concrete source b pos d) =
    psv_classify source (length (document_lines d)) (content_from x) (content_to x)
      (concrete source b (next_line source pos) (add_line (line_of x VC_PSV_LINE_OPAQUE None None) d))"
proof -
  have "total_lines (result (concrete source b pos d)) = length (document_lines d)"
    and "position (concrete source b pos d) = pos"
    by (simp_all add: concrete_def document_report_def)
  then show ?thesis
    unfolding psv_step_def assms concrete_add_line
    by (simp add: Let_def source_line_def next_line_def store_line_def count_up_def line_of_def span_of_def
        concrete_def document_report_def list_update_beyond min_def Suc_le_eq not_le)
qed

section \<open>Headers\<close>

lemma update_line_fields:
  "update_line index f s = s\<lparr>lines := (lines s)[index := f (lines s ! index)]\<rparr>"
  by (simp add: update_line_def list_update_beyond)

lemma min_Suc_length: "min (Suc n) m = (if n < m then Suc (min n m) else min n m)"
  by (simp add: min_def)

lemma start_cheat_fields:
  fixes s :: psv_state
  defines "r \<equiv> result s"
  shows "start_cheat act index start stop s =
    s\<lparr>active_cheat := Some (total_cheats r), active_cheat_operation_count := 0,
      active_cheat_tainted := False, relative_base_active := False, relative_write_seen := False,
      lines := (lines s)[index := (lines s ! index)
        \<lparr>line_kind := VC_PSV_LINE_CHEAT_HEADER, line_cheat := Some (total_cheats r)\<rparr>],
      cheats := (cheats s)[total_cheats r :=
        \<lparr>activation = act, translation_state = VC_PSV_TRANSLATION_DIRECT_ONLY,
         description = span_of start stop, header_line_index = index,
         first_operation_index = total_operations r, operation_count = 0\<rparr>],
      result := r\<lparr>total_cheats := Suc (total_cheats r),
        stored_cheats := (if total_cheats r < length (cheats s) then Suc (stored_cheats r) else stored_cheats r),
        legacy_limit_violations := legacy_limit_violations r +
          (if stop - start > VC_PSV_LEGACY_MAX_DESCRIPTION_BYTES then 1 else 0) +
          (if total_cheats r = VC_PSV_LEGACY_MAX_CHEATS then 1 else 0)\<rparr>\<rparr>"
proof -
  have update: "update_line index f s = s\<lparr>lines := (lines s)[index := f (lines s ! index)]\<rparr>" for f s
    by (rule update_line_fields)
  show ?thesis
    unfolding start_cheat_def Let_def update r_def
    by (cases "total_cheats (result s) < length (cheats s)";
        cases "stop - start > VC_PSV_LEGACY_MAX_DESCRIPTION_BYTES";
        cases "total_cheats (result s) = VC_PSV_LEGACY_MAX_CHEATS";
        simp add: count_up_def reset_active_def span_of_def list_update_beyond)
qed

lemma start_cheat_concrete:
  assumes "k = \<lparr>block_activation = act, block_description = span_of start stop,
      block_long = (stop - start > VC_PSV_LEGACY_MAX_DESCRIPTION_BYTES),
      block_header = length (document_lines d), block_state = VC_PSV_TRANSLATION_DIRECT_ONLY,
      block_operations = []\<rparr>"
    and "line_kind l \<noteq> VC_PSV_LINE_MALFORMED" and "index = length (document_lines d)"
  shows "start_cheat act index start stop (concrete source b pos (add_line l d)) =
    concrete source b pos
      (add_line (l\<lparr>line_kind := VC_PSV_LINE_CHEAT_HEADER, line_cheat := Some (length (document_blocks d))\<rparr>)
        (d\<lparr>document_blocks := document_blocks d @ [k], document_open := True\<rparr>))"
proof -
  let ?l = "l\<lparr>line_kind := VC_PSV_LINE_CHEAT_HEADER, line_cheat := Some (length (document_blocks d))\<rparr>"
  let ?d = "d\<lparr>document_blocks := document_blocks d @ [k], document_open := True\<rparr>"
  have cheat: "block_cheat n k = \<lparr>activation = act,
      translation_state = VC_PSV_TRANSLATION_DIRECT_ONLY, description = span_of start stop,
      header_line_index = length (document_lines d), first_operation_index = n, operation_count = 0\<rparr>" for n
    by (simp add: assms(1) block_cheat_def)
  have flat: "flat_cheats 0 (document_blocks d @ [k]) = flat_cheats 0 (document_blocks d) @
      [block_cheat (length (all_operations d)) k]"
    by (simp add: flat_cheats_snoc all_operations_def)
  have report: "document_report source ?d = (document_report source d)
      \<lparr>total_cheats := Suc (length (document_blocks d)),
       legacy_limit_violations := legacy_limit_violations (document_report source d) +
          (if stop - start > VC_PSV_LEGACY_MAX_DESCRIPTION_BYTES then 1 else 0) +
          (if length (document_blocks d) = VC_PSV_LEGACY_MAX_CHEATS then 1 else 0)\<rparr>"
    by (simp add: document_report_def assms(1) all_operations_def)
  have ops: "all_operations ?d = all_operations d" "open_index ?d = Some (length (document_blocks d))"
    "open_operations ?d = []"
    by (simp_all add: all_operations_def open_index_def open_operations_def assms(1))
  have totals: "total_cheats (document_report source d) = length (document_blocks d)"
    "total_operations (document_report source d) = length (all_operations d)"
    by (simp_all add: document_report_def)
  have row: "\<not> length (document_lines d) < length (line_buffer b) \<Longrightarrow>
      (overlay (document_lines d) (line_buffer b))[length (document_lines d) := z] =
      overlay (document_lines d) (line_buffer b)" for z
    by (simp add: list_update_beyond)
  have fresh: "block_state k = VC_PSV_TRANSLATION_DIRECT_ONLY"
    by (simp add: assms(1))
  show ?thesis
    unfolding start_cheat_fields concrete_add_line
    using assms(2,3) row
    by (cases "length (document_lines d) < length (line_buffer b)")
      (simp_all add: concrete_def report ops totals flat overlay_snoc cheat has_base_def min_Suc_length fresh)
qed


section \<open>Code lines\<close>

lemma taint_fields:
  assumes "active_cheat s = Some active" and "state \<noteq> VC_PSV_TRANSLATION_DIRECT_ONLY"
  shows "taint_active_cheat state s =
    s\<lparr>active_cheat_tainted := True,
      cheats := (cheats s)[active := (cheats s ! active)
        \<lparr>translation_state := max state (translation_state (cheats s ! active))\<rparr>],
      result := (result s)\<lparr>non_direct_cheats := non_direct_cheats (result s) +
        (if active_cheat_tainted s then 0 else 1)\<rparr>\<rparr>"
proof -
  have keep: "\<not> translation_state c < state \<Longrightarrow>
      c\<lparr>translation_state := max state (translation_state c)\<rparr> = c" for c :: vc_psv_cheat
    by (simp add: max_def not_less)
  have raise: "translation_state c < state \<Longrightarrow> max state (translation_state c) = state" for c :: vc_psv_cheat
    by (simp add: max_absorb1)
  show ?thesis
    using assms(1)
    by (cases "active_cheat_tainted s"; cases "active < length (cheats s)";
        cases "translation_state (cheats s ! active) < state";
        simp add: taint_active_cheat_def count_up_def Let_def list_update_beyond keep raise)
qed

lemma store_operation_fields:
  "store_operation p s =
    s\<lparr>operations := (operations s)[total_operations (result s) := p],
      result := (result s)\<lparr>stored_operations :=
        (if total_operations (result s) < length (operations s) then Suc (stored_operations (result s))
         else stored_operations (result s))\<rparr>\<rparr>"
  by (simp add: store_operation_def count_up_def list_update_beyond)

lemma count_operation_fields:
  "count_operation active s =
    s\<lparr>active_cheat_operation_count := Suc (active_cheat_operation_count s),
      cheats := (cheats s)[active := (cheats s ! active)
        \<lparr>operation_count := Suc (operation_count (cheats s ! active))\<rparr>],
      result := (result s)
        \<lparr>total_operations := Suc (total_operations (result s)),
         legacy_limit_violations := legacy_limit_violations (result s) +
           (if active_cheat_operation_count s = VC_PSV_LEGACY_MAX_CODES_PER_CHEAT then 1 else 0)\<rparr>\<rparr>"
  by (cases "active < length (cheats s)"; cases "active_cheat_operation_count s = VC_PSV_LEGACY_MAX_CODES_PER_CHEAT";
      simp add: count_operation_def count_up_def Let_def list_update_beyond)

text \<open>The effect of a code line on the state, for the reason \<open>st\<close> it gives and the flags it sets.\<close>

definition accepts_base :: "psv_state \<Rightarrow> uint32_t \<Rightarrow> uint32_t \<Rightarrow> bool" where
  "accepts_base s address val \<longleftrightarrow> active_cheat_operation_count s = 0 \<and> \<not> relative_base_active s \<and>
     address \<le> 0xff \<and> val \<le> 1"

lemma select_module_base_cases:
  "select_module_base address val s =
    (if accepts_base s address val
     then taint_active_cheat VC_PSV_TRANSLATION_MODULE_RELATIVE
            (s\<lparr>relative_base_active := True, relative_write_seen := False\<rparr>)
     else taint_active_cheat VC_PSV_TRANSLATION_MALFORMED
            (count_up invalid_operation_sequences_update s))"
  by (auto simp: select_module_base_def accepts_base_def not_le)

definition code_state :: "psv_state \<Rightarrow> vc_psv_operation_kind \<Rightarrow> uint32_t \<Rightarrow> uint32_t \<Rightarrow> vc_psv_translation_state" where
  "code_state s kind address val =
     (if kind = VC_PSV_OPERATION_OPAQUE then VC_PSV_TRANSLATION_REQUIRES_UNSUPPORTED
      else if kind \<noteq> VC_PSV_OPERATION_SELECT_MODULE_BASE then VC_PSV_TRANSLATION_DIRECT_ONLY
      else if accepts_base s address val then VC_PSV_TRANSLATION_MODULE_RELATIVE
      else VC_PSV_TRANSLATION_MALFORMED)"

lemma list_update_twice:
  fixes xs :: "vc_psv_cheat list"
  shows "xs[i := (xs[i := x] ! i)\<lparr>operation_count := Suc (operation_count (xs[i := x] ! i))\<rparr>] =
    xs[i := x\<lparr>operation_count := Suc (operation_count x)\<rparr>]"
  by (cases "i < length xs") (simp_all add: list_update_beyond)

lemma add_operation_fields:
  assumes "active_cheat s = Some active" and "kind = operation_kind code"
    and "st = code_state s kind address val"
  shows "add_operation index active (code, address, val) s =
    s\<lparr>active_cheat_operation_count := Suc (active_cheat_operation_count s),
      active_cheat_tainted := (active_cheat_tainted s \<or> st \<noteq> VC_PSV_TRANSLATION_DIRECT_ONLY),
      relative_base_active := (relative_base_active s \<or> st = VC_PSV_TRANSLATION_MODULE_RELATIVE),
      relative_write_seen :=
        (if st = VC_PSV_TRANSLATION_MODULE_RELATIVE then False
         else relative_write_seen s \<or> (st = VC_PSV_TRANSLATION_DIRECT_ONLY \<and> relative_base_active s)),
      lines := (lines s)[index := (lines s ! index)
        \<lparr>line_kind := VC_PSV_LINE_CODE, line_cheat := Some active,
         line_operation := Some (total_operations (result s))\<rparr>],
      cheats := (cheats s)[active := (cheats s ! active)
        \<lparr>translation_state := max st (translation_state (cheats s ! active)),
         operation_count := Suc (operation_count (cheats s ! active))\<rparr>],
      operations := (operations s)[total_operations (result s) :=
        \<lparr>operation_kind_of = kind,
         address_mode =
           (if st \<noteq> VC_PSV_TRANSLATION_DIRECT_ONLY then VC_PSV_ADDRESS_NOT_APPLICABLE
            else if relative_base_active s then VC_PSV_ADDRESS_SELECTED_MODULE_RELATIVE
            else VC_PSV_ADDRESS_ABSOLUTE),
         legacy_code = code, operation_address = address, operation_value = val,
         operation_cheat = Some active, operation_line = index\<rparr>],
      result := (result s)
        \<lparr>total_operations := Suc (total_operations (result s)),
         stored_operations :=
           (if total_operations (result s) < length (operations s) then Suc (stored_operations (result s))
            else stored_operations (result s)),
         unsupported_operations := unsupported_operations (result s) +
           (if kind = VC_PSV_OPERATION_OPAQUE then 1 else 0),
         non_direct_cheats := non_direct_cheats (result s) +
           (if active_cheat_tainted s \<or> st = VC_PSV_TRANSLATION_DIRECT_ONLY then 0 else 1),
         invalid_operation_sequences := invalid_operation_sequences (result s) +
           (if st = VC_PSV_TRANSLATION_MALFORMED then 1 else 0),
         legacy_limit_violations := legacy_limit_violations (result s) +
           (if active_cheat_operation_count s = VC_PSV_LEGACY_MAX_CODES_PER_CHEAT then 1 else 0)\<rparr>\<rparr>"
proof -
  have least: "max VC_PSV_TRANSLATION_DIRECT_ONLY x = x" for x
    using direct_least [of x] by (simp add: max_absorb2)
  consider (code_opaque) "kind = VC_PSV_OPERATION_OPAQUE"
    | (code_write) "kind \<noteq> VC_PSV_OPERATION_OPAQUE" "kind \<noteq> VC_PSV_OPERATION_SELECT_MODULE_BASE"
    | (code_base) "kind = VC_PSV_OPERATION_SELECT_MODULE_BASE" "accepts_base s address val"
    | (code_bad_base) "kind = VC_PSV_OPERATION_SELECT_MODULE_BASE" "\<not> accepts_base s address val"
    by blast
  then show ?thesis
  proof cases
    case code_opaque
    then show ?thesis
      using assms(1)
      unfolding add_operation_def Let_def prod.case update_line_fields store_operation_fields count_operation_fields
      by (intro psv_state.equality vc_psv_report.equality)
        (simp_all add: list_update_twice apply_kind_def assms(3) code_state_def taint_fields count_up_def flip: assms(2))
  next
    case code_write
    then show ?thesis
      using assms(1)
      unfolding add_operation_def Let_def prod.case update_line_fields store_operation_fields count_operation_fields
      by (cases "relative_base_active s")
        (intro psv_state.equality vc_psv_report.equality; simp add: apply_kind_def assms(3) code_state_def least flip: assms(2))+
  next
    case code_base
    then show ?thesis
      using assms(1)
      unfolding add_operation_def Let_def prod.case update_line_fields store_operation_fields count_operation_fields
      by (intro psv_state.equality vc_psv_report.equality)
        (simp_all add: list_update_twice apply_kind_def select_module_base_cases assms(3) code_state_def
          taint_fields flip: assms(2))
  next
    case code_bad_base
    then show ?thesis
      using assms(1)
      unfolding add_operation_def Let_def prod.case update_line_fields store_operation_fields count_operation_fields
      by (intro psv_state.equality vc_psv_report.equality)
        (simp_all add: list_update_twice apply_kind_def select_module_base_cases assms(3) code_state_def
          taint_fields count_up_def flip: assms(2))
  qed
qed

lemma has_base_snoc:
  "has_base (ps @ [p]) \<longleftrightarrow> has_base ps \<or> operation_state ps p = VC_PSV_TRANSLATION_MODULE_RELATIVE"
  by (cases ps) (auto simp: has_base_def operation_state_def selects_base_def)

lemma writes_state: "operation_state ps p = VC_PSV_TRANSLATION_DIRECT_ONLY \<longleftrightarrow> writes p"
  by (cases "operation_kind_of p") (auto simp: operation_state_def writes_def selects_base_def)

lemma relative_state:
  "operation_state ps p = VC_PSV_TRANSLATION_MODULE_RELATIVE \<longleftrightarrow> ps = [] \<and> selects_base p"
  by (auto simp: operation_state_def selects_base_def)

lemma selects_not_writes: "selects_base p \<Longrightarrow> \<not> writes p"
  by (simp add: selects_base_def writes_def)

lemma seen_snoc:
  "has_base (ps @ [p]) \<and> (\<exists>q \<in> set (ps @ [p]). writes q) \<longleftrightarrow>
    (if operation_state ps p = VC_PSV_TRANSLATION_MODULE_RELATIVE then False
     else has_base ps \<and> (\<exists>q \<in> set ps. writes q) \<or>
       operation_state ps p = VC_PSV_TRANSLATION_DIRECT_ONLY \<and> has_base ps)"
  by (auto simp: has_base_snoc relative_state writes_state dest: selects_not_writes)

lemma code_operation_fields:
  assumes "st = operation_state (open_operations d) (code_operation d code address val)"
  shows "code_operation d code address val = \<lparr>operation_kind_of = operation_kind code,
         address_mode =
           (if st \<noteq> VC_PSV_TRANSLATION_DIRECT_ONLY then VC_PSV_ADDRESS_NOT_APPLICABLE
            else if has_base (open_operations d) then VC_PSV_ADDRESS_SELECTED_MODULE_RELATIVE
            else VC_PSV_ADDRESS_ABSOLUTE),
         legacy_code = code, operation_address = address, operation_value = val,
         operation_cheat = open_index d, operation_line = length (document_lines d)\<rparr>"
proof -
  have "st \<noteq> VC_PSV_TRANSLATION_DIRECT_ONLY \<longleftrightarrow>
      operation_kind code = VC_PSV_OPERATION_OPAQUE \<or>
      operation_kind code = VC_PSV_OPERATION_SELECT_MODULE_BASE"
    unfolding assms by (auto simp: operation_state_def code_operation_def Let_def)
  then show ?thesis
    by (simp add: code_operation_def Let_def)
qed

lemma max_direct_iff:
  "max st st' \<noteq> VC_PSV_TRANSLATION_DIRECT_ONLY \<longleftrightarrow>
    st \<noteq> VC_PSV_TRANSLATION_DIRECT_ONLY \<or> st' \<noteq> VC_PSV_TRANSLATION_DIRECT_ONLY"
  using direct_least [of st] direct_least [of st'] by (auto simp: max_def)

lemma code_state_concrete:
  assumes "document_open d" and "p = code_operation d code address val"
  shows "code_state (concrete source b pos (add_line l d)) (operation_kind code) address val =
    operation_state (open_operations d) p"
proof -
  have "accepts_base (concrete source b pos (add_line l d)) address val \<longleftrightarrow>
      open_operations d = [] \<and> address \<le> 0xff \<and> val \<le> 1"
    by (auto simp: accepts_base_def concrete_def has_base_def)
  then show ?thesis
    by (simp add: code_state_def operation_state_def assms(2) code_operation_def selects_base_def Let_def)
qed

text \<open>Updating an element that was just written.\<close>

lemma list_update_modify: "xs[i := f (xs[i := y] ! i)] = xs[i := f y]"
  by (cases "i < length xs") (simp_all add: list_update_beyond)

text \<open>A block with one more operation, and the document in which the open block has one more.\<close>

definition extended_block :: "vc_psv_translation_state \<Rightarrow> vc_psv_operation \<Rightarrow> psv_block \<Rightarrow> psv_block" where
  "extended_block st p k =
     k\<lparr>block_state := max st (block_state k), block_operations := block_operations k @ [p]\<rparr>"

definition extended_document ::
  "vc_psv_translation_state \<Rightarrow> vc_psv_operation \<Rightarrow> psv_block list \<Rightarrow> psv_block \<Rightarrow> psv_document \<Rightarrow> psv_document" where
  "extended_document st p bs k d = d\<lparr>document_blocks := bs @ [extended_block st p k],
     document_invalid := document_invalid d + (if st = VC_PSV_TRANSLATION_MALFORMED then 1 else 0)\<rparr>"

lemma extended_block_fields [simp]:
  "block_operations (extended_block st p k) = block_operations k @ [p]"
  "block_long (extended_block st p k) = block_long k"
  "block_cheat n (extended_block st p k) = (block_cheat n k)
     \<lparr>translation_state := max st (translation_state (block_cheat n k)),
      operation_count := Suc (operation_count (block_cheat n k))\<rparr>"
  by (simp_all add: extended_block_def block_cheat_def)

lemma extended_block_direct:
  "block_state (extended_block st p k) = VC_PSV_TRANSLATION_DIRECT_ONLY \<longleftrightarrow>
    st = VC_PSV_TRANSLATION_DIRECT_ONLY \<and> block_state k = VC_PSV_TRANSLATION_DIRECT_ONLY"
  using max_direct_iff [of st "block_state k"] by (auto simp: extended_block_def)

lemma extended_document_fields [simp]:
  "document_lines (extended_document st p bs k d) = document_lines d"
  "document_open (extended_document st p bs k d) = document_open d"
  "document_blocks (extended_document st p bs k d) = bs @ [extended_block st p k]"
  by (simp_all add: extended_document_def)

lemma extended_operations:
  "document_blocks d = bs @ [k] \<Longrightarrow> all_operations (extended_document st p bs k d) = all_operations d @ [p]"
  by (simp add: all_operations_def)

lemma extended_report:
  assumes "document_blocks d = bs @ [k]"
  shows "document_report source (extended_document st p bs k d) = (document_report source d)
      \<lparr>total_operations := Suc (length (all_operations d)),
       unsupported_operations := unsupported_operations (document_report source d) +
         (if operation_kind_of p = VC_PSV_OPERATION_OPAQUE then 1 else 0),
       non_direct_cheats := non_direct_cheats (document_report source d) +
         (if block_state k \<noteq> VC_PSV_TRANSLATION_DIRECT_ONLY \<or> st = VC_PSV_TRANSLATION_DIRECT_ONLY then 0 else 1),
       invalid_operation_sequences := document_invalid d +
         (if st = VC_PSV_TRANSLATION_MALFORMED then 1 else 0),
       legacy_limit_violations := legacy_limit_violations (document_report source d) +
         (if length (block_operations k) = VC_PSV_LEGACY_MAX_CODES_PER_CHEAT then 1 else 0)\<rparr>"
  using assms
  by (intro vc_psv_report.equality)
    (auto simp: document_report_def all_operations_def extended_block_direct extended_document_def)

text \<open>What the state knows of the open block before the line is stored as a code line.\<close>

lemma open_fields:
  assumes "document_open d" and "document_blocks d = bs @ [k]"
  shows "open_operations d = block_operations k" "open_index d = Some (length bs)"
  using assms by (simp_all add: open_operations_def open_index_def)

lemma document_code_extended:
  assumes "document_open d" and "document_blocks d = bs @ [k]"
    and "p = code_operation d code address val" and "st = operation_state (block_operations k) p"
  shows "document_code x code address val d =
    add_line (line_of x VC_PSV_LINE_CODE (Some (length bs)) (Some (length (all_operations d))))
      (extended_document st p bs k d)"
  using assms(1,2)
  by (simp add: document_code_def Let_def open_fields [OF assms(1,2)] update_open_def extended_document_def extended_block_def
      flip: assms(3,4))

lemma pending_code_line:
  fixes source b pos x
  assumes "document_open d" and "document_blocks d = bs @ [k]" and "index = length (document_lines d)"
  defines "l \<equiv> line_of x VC_PSV_LINE_OPAQUE None None"
  defines "c \<equiv> concrete source b pos (add_line l d)"
  shows "active_cheat c = Some (length bs)" "position c = pos"
    "active_cheat_operation_count c = length (block_operations k)"
    "active_cheat_tainted c = (block_state k \<noteq> VC_PSV_TRANSLATION_DIRECT_ONLY)"
    "relative_base_active c = has_base (block_operations k)"
    "relative_write_seen c = (has_base (block_operations k) \<and> (\<exists>p \<in> set (block_operations k). writes p))"
    "lines c = (overlay (document_lines d) (line_buffer b))[index := l]"
    "cheats c = (overlay (flat_cheats 0 bs) (cheat_buffer b))
       [length bs := block_cheat (length (concat (map block_operations bs))) k]"
    "operations c = overlay (all_operations d) (operation_buffer b)"
    "result c = (document_report source d)
        \<lparr>total_lines := Suc (length (document_lines d)),
         stored_lines := min (Suc (length (document_lines d))) (length (line_buffer b)),
         stored_cheats := min (length (document_blocks d)) (length (cheat_buffer b)),
         stored_operations := min (length (all_operations d)) (length (operation_buffer b))\<rparr>"
proof -
  have closed: "document_open (add_line l d)" "document_blocks (add_line l d) = bs @ [k]"
    using assms(1,2) by simp_all
  show "active_cheat c = Some (length bs)" "position c = pos"
    "active_cheat_operation_count c = length (block_operations k)"
    "active_cheat_tainted c = (block_state k \<noteq> VC_PSV_TRANSLATION_DIRECT_ONLY)"
    "relative_base_active c = has_base (block_operations k)"
    "relative_write_seen c = (has_base (block_operations k) \<and> (\<exists>p \<in> set (block_operations k). writes p))"
    "lines c = (overlay (document_lines d) (line_buffer b))[index := l]"
    "cheats c = (overlay (flat_cheats 0 bs) (cheat_buffer b))
       [length bs := block_cheat (length (concat (map block_operations bs))) k]"
    "operations c = overlay (all_operations d) (operation_buffer b)"
    unfolding c_def concrete_open [OF closed] using assms(2,3) by (simp_all add: overlay_snoc)
  show "result c = (document_report source d)
        \<lparr>total_lines := Suc (length (document_lines d)),
         stored_lines := min (Suc (length (document_lines d))) (length (line_buffer b)),
         stored_cheats := min (length (document_blocks d)) (length (cheat_buffer b)),
         stored_operations := min (length (all_operations d)) (length (operation_buffer b))\<rparr>"
    unfolding c_def concrete_open [OF closed] using assms(2,3)
    by (simp add: document_report_def line_of_def l_def)
qed

lemma add_operation_concrete:
  assumes "open_ok d" and "document_open d" and index: "index = length (document_lines d)"
  shows "add_operation index (length (document_blocks d) - 1) (code, address, val)
      (concrete source b pos (add_line (line_of x VC_PSV_LINE_OPAQUE None None) d)) =
    concrete source b pos (document_code x code address val d)"
proof -
  obtain bs k where d: "document_blocks d = bs @ [k]"
    using assms open_blocks by blast
  define p where "p = code_operation d code address val"
  define st where "st = operation_state (block_operations k) p"
  define e where "e = extended_document st p bs k d"
  let ?c = "concrete source b pos (add_line (line_of x VC_PSV_LINE_OPAQUE None None) d)"
  let ?k = "line_of x VC_PSV_LINE_CODE (Some (length bs)) (Some (length (all_operations d)))"
  note fields = open_fields [OF assms(2) d]
  note pending = pending_code_line [OF assms(2) d index, of source b pos x]
  have kind: "operation_kind_of p = operation_kind code"
    by (simp add: p_def code_operation_def Let_def)
  have st: "st = code_state ?c (operation_kind code) address val"
    using code_state_concrete [OF assms(2) p_def] by (simp add: st_def fields)
  have p: "p = \<lparr>operation_kind_of = operation_kind code,
         address_mode =
           (if st \<noteq> VC_PSV_TRANSLATION_DIRECT_ONLY then VC_PSV_ADDRESS_NOT_APPLICABLE
            else if has_base (block_operations k) then VC_PSV_ADDRESS_SELECTED_MODULE_RELATIVE
            else VC_PSV_ADDRESS_ABSOLUTE),
         legacy_code = code, operation_address = address, operation_value = val,
         operation_cheat = Some (length bs), operation_line = index\<rparr>"
    using code_operation_fields [of st d code address val] unfolding p_def [symmetric] fields index st_def by blast
  have counts: "total_operations (document_report source d) = length (all_operations d)"
    "invalid_operation_sequences (document_report source d) = document_invalid d"
    by (simp_all add: document_report_def)
  have e: "document_lines e = document_lines d" "all_operations e = all_operations d @ [p]"
    "document_blocks e = bs @ [extended_block st p k]"
    by (simp_all add: e_def extended_operations [OF d])
  have report: "document_report source (add_line ?k e) =
      (document_report source e)\<lparr>total_lines := Suc (length (document_lines d))\<rparr>"
    by (simp add: document_report_def line_of_def e_def)
  note line_modify = list_update_modify [where f = "\<lambda>l. l\<lparr>line_kind := VC_PSV_LINE_CODE,
      line_cheat := Some (length bs), line_operation := Some (length (all_operations d))\<rparr>"]
  note cheat_modify = list_update_modify [where f = "\<lambda>h. h\<lparr>translation_state := max st (translation_state h),
      operation_count := Suc (operation_count h)\<rparr>"]
  note extended = extended_report [OF d, of source st p, folded e_def, unfolded kind]
  have seen: "has_base (block_operations k @ [p]) \<and> (\<exists>q \<in> set (block_operations k @ [p]). writes q) \<longleftrightarrow>
      (if st = VC_PSV_TRANSLATION_MODULE_RELATIVE then False
       else has_base (block_operations k) \<and> (\<exists>q \<in> set (block_operations k). writes q) \<or>
         st = VC_PSV_TRANSLATION_DIRECT_ONLY \<and> has_base (block_operations k))"
    and base: "has_base (block_operations k @ [p]) \<longleftrightarrow>
      has_base (block_operations k) \<or> st = VC_PSV_TRANSLATION_MODULE_RELATIVE"
    unfolding st_def by (rule seen_snoc, rule has_base_snoc)
  have opened: "document_open (add_line ?k e)" "document_blocks (add_line ?k e) = bs @ [extended_block st p k]"
    using assms(2) by (simp_all add: e_def)
  have "concrete source b pos (add_line ?k e) = add_operation index (length bs) (code, address, val) ?c"
    unfolding add_operation_fields [OF pending(1) refl st] pending concrete_open [OF opened] report
    apply (intro psv_state.equality)
    subgoal by (simp add: pending(2))
    subgoal by (simp add: pending(1))
    subgoal by simp
    subgoal by (simp add: extended_block_direct) blast
    subgoal by (simp add: base)
    subgoal using seen by simp
    subgoal using index by (simp add: e overlay_snoc counts line_modify) (simp add: line_of_def)
    subgoal by (simp add: cheat_modify)
    subgoal using p by (simp add: e overlay_snoc counts)
    subgoal
      using d e
      by (intro vc_psv_report.equality) (simp_all add: extended counts min_Suc_length)
    subgoal by simp
    done
  then show ?thesis
    using d by (simp add: document_code_extended [OF assms(2) d p_def st_def] e_def)
qed

section \<open>The iteration\<close>

lemma line_of_update:
  "(line_of x kind cheat operation)\<lparr>line_kind := kind'\<rparr> = line_of x kind' cheat operation"
  "(line_of x kind cheat operation)\<lparr>line_kind := kind', line_cheat := cheat'\<rparr> = line_of x kind' cheat' operation"
  "(line_of x kind cheat operation)\<lparr>line_cheat := cheat'\<rparr> = line_of x kind cheat' operation"
  "line_kind (line_of x kind cheat operation) = kind"
  by (simp_all add: line_of_def)

lemma close_block_simps [simp]:
  "document_lines (close_block d) = document_lines d" "document_open (close_block d) = document_open d"
  "open_ok d \<Longrightarrow> length (document_blocks (close_block d)) = length (document_blocks d)"
  by (auto simp: close_block_def taint_def update_open_def open_ok_def)

lemma psv_header_concrete:
  assumes "open_ok d" and "item x = header_item source start stop"
  shows "psv_header source (length (document_lines d)) start stop
      (concrete source b pos (add_line (line_of x VC_PSV_LINE_OPAQUE None None) d)) =
    concrete source b pos (document_step d x)"
proof -
  let ?l = "line_of x VC_PSV_LINE_OPAQUE None None"
  let ?act = "source ! (start + 2)"
  let ?bad = "(?act \<noteq> ascii CHR ''0'' \<and> ?act \<noteq> ascii CHR ''1'') \<or>
    (start + 3 < stop \<and> \<not> ascii_space (source ! (start + 3)))"
  have closed: "finalize_active_cheat (concrete source b pos (add_line ?l d)) =
      concrete source b pos (add_line ?l (close_block d))"
    using assms(1) by (simp add: finalize_concrete add_line_commute)
  show ?thesis
  proof (cases ?bad)
    case True
    then have "item x = Item_Bad_Header"
      using assms(2) by (auto simp: header_item_def Let_def)
    moreover have "psv_header source (length (document_lines d)) start stop
        (concrete source b pos (add_line ?l d)) =
      reset_active None (mark_malformed (length (document_lines (close_block d)))
        (concrete source b pos (add_line ?l (close_block d))))"
      using True by (auto simp: psv_header_def Let_def closed)
    ultimately show ?thesis
      using assms(1)
      by (simp only: mark_malformed_concrete open_ok_close reset_concrete document_step_def psv_item.case)
  next
    case False
    define act where "act = (if ?act = ascii CHR ''1'' then VC_PSV_ACTIVATION_AUTOSTART else VC_PSV_ACTIVATION_MANUAL)"
    let ?desc = "skip_spaces source (start + 3) stop"
    have item: "item x = Item_Header act ?desc stop"
      using False assms(2) by (auto simp: header_item_def Let_def act_def)
    have "psv_header source (length (document_lines d)) start stop
        (concrete source b pos (add_line ?l d)) =
      start_cheat act (length (document_lines (close_block d))) ?desc stop
        (concrete source b pos (add_line ?l (close_block d)))"
      using False by (auto simp: psv_header_def Let_def closed act_def)
    also have "\<dots> = concrete source b pos (document_step d x)"
      using assms(1)
      by (subst start_cheat_concrete [OF refl])
        (simp_all add: line_of_update document_step_def item Let_def)
    finally show ?thesis .
  qed
qed

lemma psv_code_concrete:
  assumes "open_ok d"
    and "item x = (case parse_code source start stop of None \<Rightarrow> Item_Bad_Code
      | Some (code, address, val) \<Rightarrow> Item_Code code address val)"
  shows "psv_code source (length (document_lines d)) start stop
      (concrete source b pos (add_line (line_of x VC_PSV_LINE_OPAQUE None None) d)) =
    concrete source b pos (document_step d x)"
proof -
  let ?c = "concrete source b pos (add_line (line_of x VC_PSV_LINE_OPAQUE None None) d)"
  have active: "active_cheat ?c = (if document_open d then Some (length (document_blocks d) - 1) else None)"
    by (simp add: concrete_def open_index_def)
  show ?thesis
  proof (cases "parse_code source start stop")
    case None
    then show ?thesis
      using assms by (auto simp: psv_code_def mark_malformed_concrete document_step_def split: option.splits)
  next
    case (Some c)
    obtain code address val where c: "c = (code, address, val)"
      by (cases c)
    show ?thesis
    proof (cases "document_open d")
      case True
      then show ?thesis
        using assms Some c active add_operation_concrete [OF assms(1) True refl]
        by (simp add: psv_code_def document_step_def)
    next
      case False
      then show ?thesis
        using assms Some c active by (simp add: psv_code_def document_step_def mark_malformed_concrete)
    qed
  qed
qed

lemma psv_opaque_concrete:
  assumes "open_ok d" and "item x = Item_Other"
  shows "psv_opaque (length (document_lines d))
      (concrete source b pos (add_line (line_of x VC_PSV_LINE_OPAQUE None None) d)) =
    concrete source b pos (document_step d x)"
proof -
  have "active_cheat (concrete source b pos (add_line l d)) = open_index d" for l
    by (simp add: concrete_def)
  then show ?thesis
    using assms
    by (simp add: psv_opaque_def update_line_concrete line_of_update taint_concrete add_line_commute
        document_step_def)
qed

lemma psv_step_concrete:
  assumes "open_ok d"
  shows "psv_step source (concrete source b pos d) =
    concrete source b (next_line source pos)
      (document_step d (source_line source (length (document_lines d)) pos))"
proof -
  define x where "x = source_line source (length (document_lines d)) pos"
  have item: "item x = psv_item source (content_from x) (content_to x)"
    by (simp add: x_def source_line_def Let_def)
  obtain start stop where trim: "trim_span source (content_from x) (content_to x) = (start, stop)"
    by (meson surj_pair)
  have blank: "update_line (length (document_lines d)) (line_kind_update (\<lambda>_. kind))
      (concrete source b p (add_line (line_of x VC_PSV_LINE_OPAQUE None None) d)) =
      concrete source b p (add_line (line_of x kind None None) d)"
    if "kind \<noteq> VC_PSV_LINE_MALFORMED" for kind p
    using that by (simp add: update_line_concrete line_of_update)
  show ?thesis
    unfolding begin_line_concrete [OF x_def] x_def [symmetric] psv_classify_def trim Let_def prod.case
    using assms item [unfolded psv_item_def trim Let_def prod.case]
    by (auto simp: psv_opaque_concrete psv_header_concrete psv_code_concrete blank document_step_def
        simp del: One_nat_def)
qed


section \<open>The loop and the call\<close>

lemma open_ok_step:
  assumes "open_ok d"
  shows "open_ok (document_step d x)"
proof -
  have malformed: "open_ok (document_malformed x d')" if "open_ok d'" for d'
    using that by (simp add: document_malformed_def)
  show ?thesis
  proof (cases "item x")
    case (Item_Header act start stop)
    then show ?thesis
      by (simp add: document_step_def Let_def) (simp add: open_ok_def)
  next
    case (Item_Code code address val)
    then show ?thesis
      using assms malformed
      by (simp add: document_step_def document_code_def Let_def) (simp add: open_ok_def update_open_def)
  qed (use assms malformed in \<open>simp_all add: document_step_def\<close>)
qed

lemma length_step: "length (document_lines (document_step d x)) = Suc (length (document_lines d))"
proof -
  have lines: "document_lines (update_open f d) = document_lines d" for f d
    by (simp add: update_open_def)
  then show ?thesis
    by (cases "item x")
      (auto simp: document_step_def document_malformed_def document_code_def taint_def Let_def lines)
qed

lemma psv_loop_concrete:
  assumes "open_ok d" and "pos \<le> length source"
  shows "psv_loop source (concrete source b pos d) =
    concrete source b (length source)
      (foldl document_step d (source_lines source (length (document_lines d)) pos))"
  using assms
proof (induction "length source - pos" arbitrary: pos d rule: less_induct)
  case less
  have position: "position (concrete source b pos d) = pos"
    by (simp add: concrete_def)
  show ?case
  proof (cases "pos < length source")
    case False
    with less.prems position show ?thesis
      by (subst psv_loop.simps, subst source_lines.simps) simp
  next
    case True
    note bounds = next_line_bounds [OF True]
    let ?d = "document_step d (source_line source (length (document_lines d)) pos)"
    have "psv_loop source (concrete source b pos d) =
        psv_loop source (concrete source b (next_line source pos) ?d)"
      using True position less.prems(1) by (subst psv_loop.simps) (simp add: psv_step_concrete)
    also have "\<dots> = concrete source b (length source)
        (foldl document_step ?d (source_lines source (length (document_lines ?d)) (next_line source pos)))"
      using bounds True less.prems by (intro less.hyps open_ok_step) simp_all
    also have "\<dots> = concrete source b (length source)
        (foldl document_step d (source_lines source (length (document_lines d)) pos))"
      using True by (simp add: length_step source_lines.simps [of source _ pos])
    finally show ?thesis .
  qed
qed

lemma psv_start_concrete: "psv_start source b = concrete source b 0 empty_document"
  by (simp add: psv_start_def concrete_def empty_document_def document_report_def zero_report_def
      open_index_def open_operations_def all_operations_def has_base_def)

lemma open_ok_foldl: "open_ok d \<Longrightarrow> open_ok (foldl document_step d xs)"
  by (induction xs arbitrary: d) (simp_all add: open_ok_step)

lemma open_ok_document: "open_ok (document source)"
  unfolding document_def by (intro open_ok_close open_ok_foldl) (simp add: open_ok_def empty_document_def)

text \<open>The state the function ends its loop with is the concrete form of the source's document.\<close>

lemma psv_final_concrete:
  "finalize_active_cheat (psv_loop source (psv_start source b)) =
    concrete source b (length source) (document source)"
proof -
  have start: "open_ok empty_document"
    by (simp add: open_ok_def empty_document_def)
  have "psv_loop source (psv_start source b) = concrete source b (length source)
      (foldl document_step empty_document (source_lines source 0 0))"
    using psv_loop_concrete [OF start, of 0 source b]
    by (simp add: psv_start_concrete) (simp add: empty_document_def)
  then show ?thesis
    by (simp add: finalize_concrete open_ok_foldl start document_def)
qed

section \<open>What a call returns\<close>

definition document_fits :: "psv_document \<Rightarrow> psv_buffers \<Rightarrow> bool" where
  "document_fits d b \<longleftrightarrow>
     length (document_lines d) \<le> length (line_buffer b) \<and>
     length (document_blocks d) \<le> length (cheat_buffer b) \<and>
     length (all_operations d) \<le> length (operation_buffer b)"

text \<open>The buffers a complete parse leaves, and those an incomplete one leaves.\<close>

definition written_buffers :: "uint8_t list \<Rightarrow> psv_document \<Rightarrow> psv_buffers \<Rightarrow> psv_buffers" where
  "written_buffers source d b =
     \<lparr>line_buffer = overlay (document_lines d) (line_buffer b),
      cheat_buffer = overlay (flat_cheats 0 (document_blocks d)) (cheat_buffer b),
      operation_buffer = overlay (all_operations d) (operation_buffer b),
      report_buffer = (document_report source d)
        \<lparr>stored_lines := length (document_lines d), stored_cheats := length (document_blocks d),
         stored_operations := length (all_operations d)\<rparr>\<rparr>"

definition cleared_buffers :: "uint8_t list \<Rightarrow> psv_document \<Rightarrow> psv_buffers \<Rightarrow> psv_buffers" where
  "cleared_buffers source d b =
     \<lparr>line_buffer = overlay (replicate (length (document_lines d)) zero_line) (line_buffer b),
      cheat_buffer = overlay (replicate (length (document_blocks d)) zero_cheat) (cheat_buffer b),
      operation_buffer = overlay (replicate (length (all_operations d)) zero_operation) (operation_buffer b),
      report_buffer = document_report source d\<rparr>"

lemma clear_overlay:
  "n = min (length xs) (length buffer) \<Longrightarrow>
    replicate n z @ drop n (overlay xs buffer) = overlay (replicate (length xs) z) buffer"
  by (cases "length xs \<le> length buffer") (simp_all add: overlay_def min_def)

lemma psv_run_document:
  "psv_run source b =
    (if document_fits (document source) b
     then (VC_PSV_STATUS_OK, written_buffers source (document source) b)
     else (VC_PSV_STATUS_TRUNCATED, cleared_buffers source (document source) b))"
proof -
  let ?d = "document source"
  let ?s = "concrete source b (length source) ?d"
  have fits: "stored_lines (result ?s) \<noteq> total_lines (result ?s) \<or>
      stored_cheats (result ?s) \<noteq> total_cheats (result ?s) \<or>
      stored_operations (result ?s) \<noteq> total_operations (result ?s) \<longleftrightarrow> \<not> document_fits ?d b"
    by (auto simp: concrete_def document_report_def document_fits_def min_def)
  show ?thesis
    unfolding psv_run_def psv_final_concrete Let_def fits
    by (auto simp: concrete_def written_buffers_def cleared_buffers_def document_fits_def
        discard_partial_outputs_def Let_def clear_overlay document_report_def min_def)
qed

end
