(* ===== verification/VC_Psv_Invariant.thy ===== *)
theory VC_Psv_Invariant
  imports VC_Psv_Refine
begin

unbundle bit_operations_syntax

text \<open>
  What every document guarantees, whatever its source. Lines, cheats and operations refer to each other by
  index: \<open>linked\<close> says how these indices are made, as an inductive relation on the three lists with one
  rule per kind of line, and rule induction turns it into the facts about positions. The states and address
  modes of a block describe its operations: \<open>block_classified\<close>. Both are invariants of \<open>document_step\<close>.
\<close>

section \<open>Links between the lists\<close>

text \<open>\<open>linked ls hs pss\<close>: lines, the header line of every cheat, the operations of every cheat.\<close>

inductive linked :: "vc_psv_line list \<Rightarrow> nat list \<Rightarrow> vc_psv_operation list list \<Rightarrow> bool" where
  linked_empty: "linked [] [] []"
| linked_plain: "linked ls hs pss \<Longrightarrow> line_kind l \<notin> {VC_PSV_LINE_CHEAT_HEADER, VC_PSV_LINE_CODE} \<Longrightarrow>
    linked (ls @ [l]) hs pss"
| linked_header: "linked ls hs pss \<Longrightarrow> line_kind l = VC_PSV_LINE_CHEAT_HEADER \<Longrightarrow>
    line_cheat l = Some (length hs) \<Longrightarrow> linked (ls @ [l]) (hs @ [length ls]) (pss @ [[]])"
| linked_code: "linked ls hs (pss @ [ps]) \<Longrightarrow> line_kind l = VC_PSV_LINE_CODE \<Longrightarrow>
    line_cheat l = Some (length pss) \<Longrightarrow> line_operation l = Some (length (concat (pss @ [ps]))) \<Longrightarrow>
    operation_cheat p = Some (length pss) \<Longrightarrow> operation_line p = length ls \<Longrightarrow>
    linked (ls @ [l]) hs (pss @ [ps @ [p]])"

lemma linked_lengths: "linked ls hs pss \<Longrightarrow> length hs = length pss"
  by (induction rule: linked.induct) auto

text \<open>The header of a cheat is a header line that refers to it; headers come in the order of the cheats.\<close>

lemma linked_headers:
  "linked ls hs pss \<Longrightarrow> c < length hs \<Longrightarrow>
    hs ! c < length ls \<and> line_kind (ls ! (hs ! c)) = VC_PSV_LINE_CHEAT_HEADER \<and>
    line_cheat (ls ! (hs ! c)) = Some c"
proof (induction arbitrary: c rule: linked.induct)
  case (linked_header ls hs pss l)
  then show ?case
    by (cases "c < length hs") (auto simp: nth_append less_Suc_eq)
qed (auto simp: nth_append less_Suc_eq)

lemma linked_sorted: "linked ls hs pss \<Longrightarrow> sorted_wrt (<) hs"
proof (induction rule: linked.induct)
  case (linked_header ls hs pss l)
  then show ?case
    using linked_headers [OF linked_header.hyps(1)] by (auto simp: sorted_wrt_append in_set_conv_nth)
qed auto

text \<open>The operation at a position belongs to the cheat whose range holds the position, and its line refers to both.\<close>

definition operation_linked ::
  "vc_psv_line list \<Rightarrow> nat list \<Rightarrow> vc_psv_operation list list \<Rightarrow> nat \<Rightarrow> vc_psv_operation \<Rightarrow> bool" where
  "operation_linked ls hs pss i p \<longleftrightarrow>
     (\<exists>c < length pss. operation_cheat p = Some c \<and>
        length (concat (take c pss)) \<le> i \<and> i < length (concat (take c pss)) + length (pss ! c) \<and>
        operation_line p < length ls \<and> hs ! c < operation_line p \<and>
        (Suc c < length pss \<longrightarrow> operation_line p < hs ! Suc c) \<and>
        line_kind (ls ! operation_line p) = VC_PSV_LINE_CODE \<and>
        line_cheat (ls ! operation_line p) = Some c \<and>
        line_operation (ls ! operation_line p) = Some i)"

lemma operation_linked_line:
  "operation_linked ls hs pss i p \<Longrightarrow> operation_linked (ls @ [l]) hs pss i p"
  by (fastforce simp: operation_linked_def nth_append)

lemma operation_linked_header:
  assumes "operation_linked ls hs pss i p" and "length hs = length pss"
  shows "operation_linked (ls @ [l]) (hs @ [length ls]) (pss @ [[]]) i p"
proof -
  from assms(1) obtain c where "c < length pss" "operation_cheat p = Some c"
    "length (concat (take c pss)) \<le> i" "i < length (concat (take c pss)) + length (pss ! c)"
    "operation_line p < length ls" "hs ! c < operation_line p"
    "Suc c < length pss \<longrightarrow> operation_line p < hs ! Suc c"
    "line_kind (ls ! operation_line p) = VC_PSV_LINE_CODE"
    "line_cheat (ls ! operation_line p) = Some c" "line_operation (ls ! operation_line p) = Some i"
    unfolding operation_linked_def by blast
  with assms(2) show ?thesis
    unfolding operation_linked_def by (intro exI [of _ c]) (auto simp: nth_append less_Suc_eq)
qed

lemma operation_linked_code:
  assumes "operation_linked ls hs (pss @ [ps]) i q"
  shows "operation_linked ls hs (pss @ [ps @ [p]]) i q"
proof -
  have "length (concat (take c (pss @ [ps @ [p]]))) = length (concat (take c (pss @ [ps])))"
    "length ((pss @ [ps]) ! c) \<le> length ((pss @ [ps @ [p]]) ! c)" if "c < length (pss @ [ps])" for c
    using that by (auto simp: nth_append)
  with assms show ?thesis
    unfolding operation_linked_def by fastforce
qed

lemma linked_operations:
  "linked ls hs pss \<Longrightarrow> i < length (concat pss) \<Longrightarrow> operation_linked ls hs pss i (concat pss ! i)"
proof (induction arbitrary: i rule: linked.induct)
  case (linked_header ls hs pss l)
  then show ?case
    using operation_linked_header [OF _ linked_lengths [OF linked_header.hyps(1)]] by simp
next
  case (linked_code ls hs pss ps l p)
  show ?case
  proof (cases "i < length (concat (pss @ [ps]))")
    case True
    with linked_code have "operation_linked ls hs (pss @ [ps]) i (concat (pss @ [ps]) ! i)"
      by blast
    moreover have "concat (pss @ [ps @ [p]]) ! i = concat (pss @ [ps]) ! i"
      using True by (simp add: nth_append)
    ultimately show ?thesis
      by (simp only:) (intro operation_linked_line operation_linked_code)
  next
    case False
    with linked_code.prems have i: "i = length (concat pss) + length ps"
      by simp
    then have "concat (pss @ [ps @ [p]]) ! i = p"
      by (simp add: nth_append)
    moreover have "hs ! length pss < length ls"
      using linked_headers [OF linked_code.hyps(1)] linked_lengths [OF linked_code.hyps(1)] by simp
    ultimately show ?thesis
      using linked_code.hyps i unfolding operation_linked_def by (intro exI [of _ "length pss"]) simp
  qed
qed (auto intro: operation_linked_line)

text \<open>Every header line and every code line is referred to by its cheat, its operation.\<close>

lemma linked_lines:
  "linked ls hs pss \<Longrightarrow> j < length ls \<Longrightarrow>
    (line_kind (ls ! j) = VC_PSV_LINE_CHEAT_HEADER \<longrightarrow>
      (\<exists>c < length hs. line_cheat (ls ! j) = Some c \<and> hs ! c = j)) \<and>
    (line_kind (ls ! j) = VC_PSV_LINE_CODE \<longrightarrow>
      (\<exists>i < length (concat pss). line_operation (ls ! j) = Some i \<and> operation_line (concat pss ! i) = j))"
proof (induction arbitrary: j rule: linked.induct)
  case (linked_plain ls hs pss l)
  then show ?case
    by (cases "j < length ls") (auto simp: nth_append less_Suc_eq)
next
  case (linked_header ls hs pss l)
  then show ?case
    by (cases "j < length ls") (fastforce simp: nth_append less_Suc_eq)+
next
  case (linked_code ls hs pss ps l p)
  show ?case
  proof (cases "j < length ls")
    case True
    with linked_code.IH [OF True] show ?thesis
      by (fastforce simp: nth_append)
  next
    case False
    with linked_code.prems have "j = length ls"
      by simp
    with linked_code.hyps show ?thesis
      by (intro conjI impI exI [of _ "length (concat (pss @ [ps]))"]) (auto simp: nth_append)
  qed
qed simp

section \<open>Documents are linked\<close>

definition document_linked :: "psv_document \<Rightarrow> bool" where
  "document_linked d \<longleftrightarrow> open_ok d \<and>
     linked (document_lines d) (map block_header (document_blocks d)) (map block_operations (document_blocks d))"

text \<open>Only a header line and a code line change what the links depend on.\<close>

lemma map_update_open:
  assumes "open_ok d" and "\<And>k. g (f k) = g k"
  shows "map g (document_blocks (update_open f d)) = map g (document_blocks d)"
proof (cases "document_open d")
  case True
  with assms(1) obtain bs k where "document_blocks d = bs @ [k]"
    by (rule open_blocks)
  then show ?thesis
    by (simp add: update_open_def assms(2))
next
  case False
  then show ?thesis
    by (simp add: update_open_def)
qed

lemma taint_skeleton:
  assumes "open_ok d"
  shows "map block_header (document_blocks (taint state d)) = map block_header (document_blocks d)"
    and "map block_operations (document_blocks (taint state d)) = map block_operations (document_blocks d)"
    and "document_lines (taint state d) = document_lines d"
    and "document_open (taint state d) = document_open d"
    and "length (document_blocks (taint state d)) = length (document_blocks d)"
proof -
  show "map block_header (document_blocks (taint state d)) = map block_header (document_blocks d)"
    and "map block_operations (document_blocks (taint state d)) = map block_operations (document_blocks d)"
    unfolding taint_def by (rule map_update_open [OF assms], simp)+
  then show "length (document_blocks (taint state d)) = length (document_blocks d)"
    using map_eq_imp_length_eq by blast
qed (simp_all add: taint_def update_open_def)

lemma close_skeleton:
  assumes "open_ok d"
  shows "map block_header (document_blocks (close_block d)) = map block_header (document_blocks d)"
    and "map block_operations (document_blocks (close_block d)) = map block_operations (document_blocks d)"
proof -
  have "open_ok (d\<lparr>document_invalid := n\<rparr>)" for n
    using assms by (simp add: open_ok_def)
  then show "map block_header (document_blocks (close_block d)) = map block_header (document_blocks d)"
    and "map block_operations (document_blocks (close_block d)) = map block_operations (document_blocks d)"
    by (simp_all add: close_block_def taint_skeleton)
qed

lemma document_linked_close: "document_linked d \<Longrightarrow> document_linked (close_block d)"
  by (simp add: document_linked_def close_skeleton)

lemma document_linked_plain:
  assumes "document_linked d" and "line_kind l \<notin> {VC_PSV_LINE_CHEAT_HEADER, VC_PSV_LINE_CODE}"
  shows "document_linked (add_line l (taint state d))" and "document_linked (add_line l d)"
  using assms linked_plain by (simp_all add: document_linked_def taint_skeleton)

lemma document_linked_malformed: "document_linked d \<Longrightarrow> document_linked (document_malformed x d)"
  unfolding document_malformed_def by (rule document_linked_plain) (simp_all add: line_of_def)

lemma document_linked_code:
  assumes "document_linked d" and "document_open d"
  shows "document_linked (document_code x code address val d)"
proof -
  obtain bs k where d: "document_blocks d = bs @ [k]"
    using open_blocks [of d] assms unfolding document_linked_def by blast
  let ?p = "code_operation d code address val"
  let ?e = "document_code x code address val d"
  let ?l = "line_of x VC_PSV_LINE_CODE (open_index d) (Some (length (all_operations d)))"
  have index: "open_index d = Some (length bs)"
    using assms(2) d by (simp add: open_index_def)
  have e: "document_lines ?e = document_lines d @ [?l]" "open_ok ?e"
    "map block_header (document_blocks ?e) = map block_header (document_blocks d)"
    "map block_operations (document_blocks ?e) = map block_operations bs @ [block_operations k @ [?p]]"
    using assms d by (auto simp: document_code_def Let_def update_open_def open_ok_def document_linked_def)
  have "linked (document_lines d @ [?l]) (map block_header (document_blocks d))
      (map block_operations bs @ [block_operations k @ [?p]])"
    using assms(1) d index
    by (intro linked_code) (auto simp: document_linked_def line_of_def all_operations_def code_operation_def Let_def)
  with e show ?thesis
    by (simp add: document_linked_def)
qed

lemma document_linked_step:
  assumes "document_linked d"
  shows "document_linked (document_step d x)"
proof (cases "item x")
  case (Item_Header act start stop)
  have "open_ok (document_step d x)"
    using assms by (intro open_ok_step) (simp add: document_linked_def)
  moreover have "linked (document_lines d @ [line_of x VC_PSV_LINE_CHEAT_HEADER (Some (length (document_blocks d))) None])
      (map block_header (document_blocks d) @ [length (document_lines d)])
      (map block_operations (document_blocks d) @ [[]])"
    using assms by (intro linked_header) (auto simp: document_linked_def line_of_def)
  ultimately show ?thesis
    using Item_Header assms by (simp add: document_step_def Let_def document_linked_def close_skeleton)
next
  case Item_Bad_Header
  have "document_linked (document_malformed x (close_block d))"
    by (intro document_linked_malformed document_linked_close assms)
  with Item_Bad_Header show ?thesis
    by (simp add: document_step_def document_linked_def open_ok_def)
next
  case (Item_Code code address val)
  with assms show ?thesis
    by (simp add: document_step_def document_linked_code document_linked_malformed)
next
  case Item_Bad_Code
  with assms show ?thesis
    by (simp add: document_step_def document_linked_malformed)
next
  case Item_Other
  with assms show ?thesis
    by (simp add: document_step_def) (rule document_linked_plain, simp_all add: line_of_def)
qed (use assms in \<open>simp_all add: document_step_def document_linked_plain line_of_def\<close>)

interpretation psv_links: invariant_machine document_step document_linked
  by unfold_locales (rule document_linked_step)

lemma document_linked_document: "document_linked (document source)"
  unfolding document_def
  by (intro document_linked_close psv_links.inv_run)
    (simp add: document_linked_def empty_document_def open_ok_def linked_empty)

section \<open>What the state of a block says\<close>

definition block_classified :: "psv_block \<Rightarrow> bool" where
  "block_classified b \<longleftrightarrow>
     (\<forall>k < length (block_operations b).
        let p = block_operations b ! k in
        operation_kind_of p = operation_kind (legacy_code p) \<and>
        address_mode p =
          (if \<not> writes p then VC_PSV_ADDRESS_NOT_APPLICABLE
           else if has_base (block_operations b) then VC_PSV_ADDRESS_SELECTED_MODULE_RELATIVE
           else VC_PSV_ADDRESS_ABSOLUTE) \<and>
        operation_state (take k (block_operations b)) p \<le> block_state b) \<and>
     (block_state b = VC_PSV_TRANSLATION_MODULE_RELATIVE \<longrightarrow> has_base (block_operations b))"

text \<open>A base that no write follows.\<close>

definition base_used :: "psv_block \<Rightarrow> bool" where
  "base_used b \<longleftrightarrow> (dangling_base (block_operations b) \<longrightarrow> block_state b = VC_PSV_TRANSLATION_MALFORMED)"

definition closed_blocks :: "psv_document \<Rightarrow> psv_block list" where
  "closed_blocks d = (if document_open d then butlast (document_blocks d) else document_blocks d)"

definition document_classified :: "psv_document \<Rightarrow> bool" where
  "document_classified d \<longleftrightarrow> open_ok d \<and>
     (\<forall>b \<in> set (document_blocks d). block_classified b) \<and> (\<forall>b \<in> set (closed_blocks d). base_used b)"

lemma max_state_relative:
  "max s t = VC_PSV_TRANSLATION_MODULE_RELATIVE \<Longrightarrow>
    s = VC_PSV_TRANSLATION_MODULE_RELATIVE \<or> t = VC_PSV_TRANSLATION_MODULE_RELATIVE"
  by (auto simp: max_def split: if_splits)

lemma malformed_greatest: "s \<le> VC_PSV_TRANSLATION_MALFORMED"
  by (cases s) (simp_all add: less_eq_vc_psv_translation_state_def)

lemma max_malformed [simp]:
  "max s VC_PSV_TRANSLATION_MALFORMED = VC_PSV_TRANSLATION_MALFORMED"
  "max VC_PSV_TRANSLATION_MALFORMED s = VC_PSV_TRANSLATION_MALFORMED"
  using malformed_greatest [of s] by (simp_all add: max_absorb1 max_absorb2)

lemma classified_taint:
  assumes "block_classified b" and "state \<noteq> VC_PSV_TRANSLATION_MODULE_RELATIVE"
  shows "block_classified (b\<lparr>block_state := max state (block_state b)\<rparr>)"
  using assms max_state_relative [of state "block_state b"]
  by (auto simp: block_classified_def Let_def le_max_iff_disj)

lemma classified_code:
  assumes b: "block_classified b" and ps: "open_operations d = block_operations b"
    and p: "p = code_operation d code address val"
  shows "block_classified (b\<lparr>block_state := max (operation_state (block_operations b) p) (block_state b),
    block_operations := block_operations b @ [p]\<rparr>)"
proof -
  let ?ps = "block_operations b"
  have writes: "writes p \<longleftrightarrow> \<not> (operation_kind code = VC_PSV_OPERATION_OPAQUE \<or>
      operation_kind code = VC_PSV_OPERATION_SELECT_MODULE_BASE)"
    by (cases "operation_kind code") (simp_all add: p code_operation_def Let_def writes_def)
  have snoc: "has_base (?ps @ [p]) \<longleftrightarrow> has_base ?ps" if "?ps \<noteq> [] \<or> writes p"
    using that selects_not_writes by (auto simp: has_base_snoc relative_state)
  have old: "\<forall>k < length ?ps. let q = (?ps @ [p]) ! k in
      operation_kind_of q = operation_kind (legacy_code q) \<and>
      address_mode q = (if \<not> writes q then VC_PSV_ADDRESS_NOT_APPLICABLE
        else if has_base (?ps @ [p]) then VC_PSV_ADDRESS_SELECTED_MODULE_RELATIVE
        else VC_PSV_ADDRESS_ABSOLUTE) \<and>
      operation_state (take k (?ps @ [p])) q \<le> max (operation_state ?ps p) (block_state b)"
  proof (intro allI impI)
    fix k
    assume k: "k < length ?ps"
    then have "has_base (?ps @ [p]) \<longleftrightarrow> has_base ?ps"
      by (intro snoc) auto
    with b k show "let q = (?ps @ [p]) ! k in
      operation_kind_of q = operation_kind (legacy_code q) \<and>
      address_mode q = (if \<not> writes q then VC_PSV_ADDRESS_NOT_APPLICABLE
        else if has_base (?ps @ [p]) then VC_PSV_ADDRESS_SELECTED_MODULE_RELATIVE
        else VC_PSV_ADDRESS_ABSOLUTE) \<and>
      operation_state (take k (?ps @ [p])) q \<le> max (operation_state ?ps p) (block_state b)"
      by (simp add: block_classified_def Let_def nth_append le_max_iff_disj)
  qed
  have new: "operation_kind_of p = operation_kind (legacy_code p)"
    "address_mode p = (if \<not> writes p then VC_PSV_ADDRESS_NOT_APPLICABLE
        else if has_base (?ps @ [p]) then VC_PSV_ADDRESS_SELECTED_MODULE_RELATIVE
        else VC_PSV_ADDRESS_ABSOLUTE)"
    using snoc writes ps by (auto simp: p code_operation_def Let_def)
  have "has_base (?ps @ [p])"
    if "max (operation_state ?ps p) (block_state b) = VC_PSV_TRANSLATION_MODULE_RELATIVE"
    using max_state_relative [OF that] b by (auto simp: has_base_snoc block_classified_def)
  with old new show ?thesis
    by (auto simp: block_classified_def Let_def less_Suc_eq)
qed

lemma ball_update_open:
  assumes "open_ok d" and "\<forall>b \<in> set (document_blocks d). P b"
    and "\<And>bs k. document_open d \<Longrightarrow> document_blocks d = bs @ [k] \<Longrightarrow> P k \<Longrightarrow> P (f k)"
  shows "\<forall>b \<in> set (document_blocks (update_open f d)). P b"
proof (cases "document_open d")
  case True
  with assms(1) obtain bs k where "document_blocks d = bs @ [k]"
    by (rule open_blocks)
  with True assms(2,3) show ?thesis
    by (simp add: update_open_def)
next
  case False
  with assms(2) show ?thesis
    by (simp add: update_open_def)
qed

lemma closed_update_open [simp]:
  "closed_blocks (update_open f d) = closed_blocks d" "closed_blocks (taint state d) = closed_blocks d"
  "closed_blocks (add_line l d) = closed_blocks d"
  "closed_blocks (d\<lparr>document_invalid := n\<rparr>) = closed_blocks d"
  by (simp_all add: closed_blocks_def update_open_def taint_def add_line_def)

lemma classified_taint_document:
  assumes "document_classified d" and "state \<noteq> VC_PSV_TRANSLATION_MODULE_RELATIVE"
  shows "document_classified (taint state d)"
proof -
  have "\<forall>b \<in> set (document_blocks (taint state d)). block_classified b"
    using assms unfolding taint_def
    by (intro ball_update_open classified_taint) (simp_all add: document_classified_def)
  with assms(1) show ?thesis
    by (simp add: document_classified_def)
qed

lemma classified_simps [simp]:
  "document_classified (add_line l d) \<longleftrightarrow> document_classified d"
  "document_classified (d\<lparr>document_invalid := n\<rparr>) \<longleftrightarrow> document_classified d"
  by (simp_all add: document_classified_def)

text \<open>Closing a block settles a base that no write followed.\<close>

lemma classified_close:
  assumes "document_classified d"
  shows "document_classified (close_block d)" and "\<forall>b \<in> set (document_blocks (close_block d)). base_used b"
proof -
  show "document_classified (close_block d)"
    using assms by (simp add: close_block_def classified_taint_document)
  show "\<forall>b \<in> set (document_blocks (close_block d)). base_used b"
  proof (cases "document_open d")
    case True
    with assms obtain bs k where "document_blocks d = bs @ [k]"
      using open_blocks [of d] by (auto simp: document_classified_def)
    with True assms show ?thesis
      by (auto simp: close_block_def taint_def update_open_def document_classified_def closed_blocks_def
          base_used_def open_operations_def)
  next
    case False
    with assms show ?thesis
      by (simp add: close_block_def open_operations_def dangling_base_def has_base_def document_classified_def
          closed_blocks_def)
  qed
qed

lemma classified_code_document:
  assumes "document_classified d" and "document_open d"
  shows "document_classified (document_code x code address val d)"
proof -
  let ?p = "code_operation d code address val"
  let ?f = "\<lambda>b. b\<lparr>block_state := max (operation_state (open_operations d) ?p) (block_state b),
      block_operations := block_operations b @ [?p]\<rparr>"
  have blocks: "\<forall>b \<in> set (document_blocks (update_open ?f e)). block_classified b"
    if "document_blocks e = document_blocks d" "document_open e = document_open d" for e
  proof (rule ball_update_open)
    fix bs k
    assume "document_blocks e = bs @ [k]" and k: "block_classified k"
    then have "last (document_blocks d) = k"
      by (simp add: that)
    with assms(2) have "open_operations d = block_operations k"
      by (simp add: open_operations_def)
    with classified_code [OF k this refl] show "block_classified (?f k)"
      by simp
  qed (use assms that in \<open>simp_all add: document_classified_def open_ok_def\<close>)
  have ok: "open_ok (update_open ?f e)"
    if "document_blocks e = document_blocks d" "document_open e = document_open d" for e
    using that assms by (simp add: open_ok_def update_open_def)
  define e where "e = (if operation_state (open_operations d) ?p = VC_PSV_TRANSLATION_MALFORMED
      then d\<lparr>document_invalid := Suc (document_invalid d)\<rparr> else d)"
  have e: "document_blocks e = document_blocks d" "document_open e = document_open d"
    "closed_blocks e = closed_blocks d"
    by (simp_all add: e_def)
  have "document_code x code address val d =
      add_line (line_of x VC_PSV_LINE_CODE (open_index d) (Some (length (all_operations d)))) (update_open ?f e)"
    by (simp add: document_code_def Let_def e_def)
  with assms(1) blocks [OF e(1,2)] ok [OF e(1,2)] e(3) show ?thesis
    by (simp add: document_classified_def)
qed

lemma classified_malformed: "document_classified d \<Longrightarrow> document_classified (document_malformed x d)"
  by (simp add: document_malformed_def classified_taint_document)

lemma classified_step:
  assumes "document_classified d"
  shows "document_classified (document_step d x)"
proof (cases "item x")
  case (Item_Header act start stop)
  have "block_classified \<lparr>block_activation = act, block_description = s, block_long = l, block_header = h,
      block_state = VC_PSV_TRANSLATION_DIRECT_ONLY, block_operations = []\<rparr>" for s l h
    by (simp add: block_classified_def)
  then have "document_classified (d1\<lparr>document_blocks := document_blocks d1 @
      [\<lparr>block_activation = act, block_description = s, block_long = l, block_header = h,
        block_state = VC_PSV_TRANSLATION_DIRECT_ONLY, block_operations = []\<rparr>], document_open := True\<rparr>)"
    if "document_classified d1" "\<forall>b \<in> set (document_blocks d1). base_used b" for d1 s l h
    using that by (simp add: document_classified_def closed_blocks_def open_ok_def)
  from this [OF classified_close [OF assms]] Item_Header show ?thesis
    by (simp add: document_step_def Let_def)
next
  case Item_Bad_Header
  have "document_classified (document_malformed x (close_block d))"
    by (intro classified_malformed classified_close assms)
  moreover have "\<forall>b \<in> set (document_blocks (taint VC_PSV_TRANSLATION_MALFORMED (close_block d))). base_used b"
    unfolding taint_def
    by (rule ball_update_open)
      (use classified_close [OF assms] in \<open>simp_all add: document_classified_def base_used_def\<close>)
  then have "\<forall>b \<in> set (document_blocks (document_malformed x (close_block d))). base_used b"
    by (simp add: document_malformed_def)
  ultimately show ?thesis
    using Item_Bad_Header by (simp add: document_step_def document_classified_def closed_blocks_def)
next
  case (Item_Code code address val)
  with assms show ?thesis
    by (simp add: document_step_def classified_code_document classified_malformed)
qed (use assms in \<open>simp_all add: document_step_def classified_malformed classified_taint_document\<close>)

interpretation psv_states: invariant_machine document_step document_classified
  by unfold_locales (rule classified_step)

lemma document_blocks_classified:
  "\<forall>b \<in> set (document_blocks (document source)). block_classified b \<and> base_used b"
proof -
  let ?d = "foldl document_step empty_document (source_lines source 0 0)"
  have "document_classified ?d"
    by (rule psv_states.inv_run) (simp add: document_classified_def empty_document_def open_ok_def closed_blocks_def)
  from classified_close [OF this] show ?thesis
    by (simp add: document_def document_classified_def)
qed

section \<open>A bad line taints its cheat\<close>

text \<open>What a line demands of the state of the cheat it stands in.\<close>

definition taints :: "vc_psv_line \<Rightarrow> vc_psv_translation_state \<Rightarrow> bool" where
  "taints l state \<longleftrightarrow>
     (line_kind l = VC_PSV_LINE_OPAQUE \<longrightarrow> VC_PSV_TRANSLATION_REQUIRES_UNSUPPORTED \<le> state) \<and>
     (line_kind l = VC_PSV_LINE_MALFORMED \<longrightarrow> state = VC_PSV_TRANSLATION_MALFORMED)"

text \<open>\<open>in_section hs c j\<close>: line \<open>j\<close> stands after the header of cheat \<open>c\<close> and before the next header.\<close>

definition in_section :: "nat list \<Rightarrow> nat \<Rightarrow> nat \<Rightarrow> bool" where
  "in_section hs c j \<longleftrightarrow> hs ! c < j \<and> (Suc c < length hs \<longrightarrow> j < hs ! Suc c)"

definition sections_tainted ::
  "vc_psv_line list \<Rightarrow> nat list \<Rightarrow> vc_psv_translation_state list \<Rightarrow> bool" where
  "sections_tainted ls hs sts \<longleftrightarrow>
     (\<forall>c < length hs. \<forall>j < length ls. in_section hs c j \<longrightarrow> taints (ls ! j) (sts ! c))"

lemma taints_mono: "taints l s \<Longrightarrow> s \<le> t \<Longrightarrow> taints l t"
  using malformed_greatest [of t] by (auto simp: taints_def intro: order_trans order_antisym)

lemma sections_tainted_line:
  assumes "sections_tainted ls hs sts" and "length sts' = length hs"
    and "\<And>c. c < length hs \<Longrightarrow> hs ! c < length ls"
    and "\<And>c. c < length hs \<Longrightarrow> sts ! c \<le> sts' ! c" and "hs \<noteq> [] \<Longrightarrow> taints l (last sts')"
  shows "sections_tainted (ls @ [l]) hs sts'"
  unfolding sections_tainted_def
proof (intro allI impI)
  fix c j
  assume c: "c < length hs" and j: "j < length (ls @ [l])" and inside: "in_section hs c j"
  show "taints ((ls @ [l]) ! j) (sts' ! c)"
  proof (cases "j < length ls")
    case True
    with assms(1) c inside have "taints (ls ! j) (sts ! c)"
      by (simp add: sections_tainted_def)
    with True assms(4) [OF c] show ?thesis
      by (simp add: nth_append taints_mono)
  next
    case False
    with j have "j = length ls"
      by simp
    with inside assms(3) [of "Suc c"] have "\<not> Suc c < length hs"
      by (auto simp: in_section_def)
    with c have "c = length hs - 1" "hs \<noteq> []"
      by auto
    with assms(2,5) \<open>j = length ls\<close> show ?thesis
      by (metis last_conv_nth length_0_conv nth_append_length)
  qed
qed

lemma sections_tainted_header:
  assumes "sections_tainted ls hs sts" and "line_kind l = VC_PSV_LINE_CHEAT_HEADER" and "length sts = length hs"
    and "\<And>c. c < length hs \<Longrightarrow> hs ! c < length ls"
  shows "sections_tainted (ls @ [l]) (hs @ [length ls]) (sts @ [st])"
  unfolding sections_tainted_def
proof (intro allI impI)
  fix c j
  assume c: "c < length (hs @ [length ls])" and j: "j < length (ls @ [l])"
    and inside: "in_section (hs @ [length ls]) c j"
  show "taints ((ls @ [l]) ! j) ((sts @ [st]) ! c)"
  proof (cases "j < length ls")
    case True
    with inside c have "c < length hs" "in_section hs c j"
      by (auto simp: in_section_def nth_append less_Suc_eq split: if_splits)
    with assms(1,3) True show ?thesis
      by (simp add: sections_tainted_def nth_append)
  next
    case False
    with j have "j = length ls"
      by simp
    with assms(2) show ?thesis
      by (simp add: taints_def)
  qed
qed

definition document_tainted :: "psv_document \<Rightarrow> bool" where
  "document_tainted d \<longleftrightarrow> document_linked d \<and>
     (document_blocks d \<noteq> [] \<and> \<not> document_open d \<longrightarrow>
        block_state (last (document_blocks d)) = VC_PSV_TRANSLATION_MALFORMED) \<and>
     sections_tainted (document_lines d) (map block_header (document_blocks d)) (map block_state (document_blocks d))"

text \<open>Tainting and closing raise states, and a tainted document has a tainted last block.\<close>

lemma state_update_open:
  assumes "open_ok d" and "\<And>k. block_state k \<le> block_state (f k)" and "c < length (document_blocks d)"
  shows "block_state (document_blocks d ! c) \<le> block_state (document_blocks (update_open f d) ! c)"
proof (cases "document_open d")
  case True
  with assms(1) obtain bs k where "document_blocks d = bs @ [k]"
    by (rule open_blocks)
  with assms(2,3) True show ?thesis
    by (auto simp: update_open_def nth_append)
next
  case False
  then show ?thesis
    by (simp add: update_open_def)
qed

lemma last_taint:
  "document_open d \<Longrightarrow> last (document_blocks (taint state d)) =
    (last (document_blocks d))\<lparr>block_state := max state (block_state (last (document_blocks d)))\<rparr>"
  by (simp add: taint_def update_open_def)

lemma tainted_line:
  assumes d: "document_tainted d" and l: "line_kind l \<notin> {VC_PSV_LINE_CHEAT_HEADER, VC_PSV_LINE_CODE}"
    and state: "document_open d \<Longrightarrow> taints l (max state (block_state (last (document_blocks d))))"
  shows "document_tainted (add_line l (taint state d))"
proof -
  have linked: "document_linked d" and ok: "open_ok d"
    using d by (auto simp: document_tainted_def document_linked_def)
  note taint = taint_skeleton [OF ok, of state]
  have last: "document_blocks d \<noteq> [] \<Longrightarrow> taints l (block_state (last (document_blocks (taint state d))))"
  proof (cases "document_open d")
    case True
    with state show ?thesis
      by (simp add: last_taint)
  next
    case False
    assume "document_blocks d \<noteq> []"
    with False d show ?thesis
      by (simp add: taint_closed document_tainted_def taints_def malformed_greatest)
  qed
  have "sections_tainted (document_lines d @ [l]) (map block_header (document_blocks d))
      (map block_state (document_blocks (taint state d)))"
  proof (rule sections_tainted_line)
    show "sections_tainted (document_lines d) (map block_header (document_blocks d)) (map block_state (document_blocks d))"
      using d by (simp add: document_tainted_def)
    show "map block_header (document_blocks d) ! c < length (document_lines d)"
      if "c < length (map block_header (document_blocks d))" for c
      using linked_headers that linked unfolding document_linked_def by blast
    show "map block_state (document_blocks d) ! c \<le> map block_state (document_blocks (taint state d)) ! c"
      if "c < length (map block_header (document_blocks d))" for c
      using that state_update_open [OF ok, of "\<lambda>b. b\<lparr>block_state := max state (block_state b)\<rparr>" c] taint(5)
      by (simp add: taint_def)
    show "taints l (last (map block_state (document_blocks (taint state d))))"
      if "map block_header (document_blocks d) \<noteq> []"
      using that last taint(5) by (cases "document_blocks (taint state d) = []") (simp_all add: last_map)
  qed (simp add: taint)
  moreover have "document_linked (add_line l (taint state d))"
    using linked l by (rule document_linked_plain)
  ultimately show ?thesis
    using d by (auto simp: document_tainted_def taint taint_closed)
qed

lemma tainted_simps [simp]:
  "document_tainted (d\<lparr>document_invalid := n\<rparr>) \<longleftrightarrow> document_tainted d"
  by (simp add: document_tainted_def document_linked_def)

lemma tainted_raise:
  assumes "document_tainted d"
  shows "document_tainted (taint state d)"
proof -
  have linked: "document_linked d" and ok: "open_ok d"
    using assms by (auto simp: document_tainted_def document_linked_def)
  note taint = taint_skeleton [OF ok, of state]
  have "map block_state (document_blocks d) ! c \<le> map block_state (document_blocks (taint state d)) ! c"
    if "c < length (document_blocks d)" for c
    using that state_update_open [OF ok, of "\<lambda>b. b\<lparr>block_state := max state (block_state b)\<rparr>" c] taint(5)
    by (simp add: taint_def)
  then have "sections_tainted (document_lines d) (map block_header (document_blocks d))
      (map block_state (document_blocks (taint state d)))"
    using assms by (auto simp: document_tainted_def sections_tainted_def intro: taints_mono)
  then show ?thesis
    using assms linked ok by (auto simp: document_tainted_def document_linked_def taint taint_closed)
qed

lemma tainted_close: "document_tainted d \<Longrightarrow> document_tainted (close_block d)"
  by (simp add: close_block_def tainted_raise)

lemma tainted_malformed: "document_tainted d \<Longrightarrow> document_tainted (document_malformed x d)"
  unfolding document_malformed_def by (rule tainted_line) (simp_all add: line_of_def taints_def)

lemma taint_direct: "open_ok d \<Longrightarrow> taint VC_PSV_TRANSLATION_DIRECT_ONLY d = d"
  by (simp add: taint_def update_open_def open_ok_def max_absorb2 direct_least)

lemma tainted_quiet:
  assumes "document_tainted d" and "line_kind l \<in> {VC_PSV_LINE_BLANK, VC_PSV_LINE_COMMENT}"
  shows "document_tainted (add_line l d)"
proof -
  have "open_ok d"
    using assms(1) by (simp add: document_tainted_def document_linked_def)
  moreover have "document_tainted (add_line l (taint VC_PSV_TRANSLATION_DIRECT_ONLY d))"
    using assms by (intro tainted_line) (auto simp: taints_def)
  ultimately show ?thesis
    by (simp add: taint_direct)
qed

lemma tainted_code:
  assumes "document_tainted d" and "document_open d"
  shows "document_tainted (document_code x code address val d)"
proof -
  have linked: "document_linked d" and ok: "open_ok d"
    using assms by (auto simp: document_tainted_def document_linked_def)
  obtain bs k where bs: "document_blocks d = bs @ [k]"
    using open_blocks [OF ok assms(2)] .
  let ?p = "code_operation d code address val"
  let ?l = "line_of x VC_PSV_LINE_CODE (open_index d) (Some (length (all_operations d)))"
  let ?s = "max (operation_state (open_operations d) ?p) (block_state k)"
  let ?e = "document_code x code address val d"
  have e: "document_lines ?e = document_lines d @ [?l]" "document_open ?e"
    "map block_header (document_blocks ?e) = map block_header (document_blocks d)"
    "map block_state (document_blocks ?e) = map block_state bs @ [?s]"
    using assms(2) bs by (simp_all add: document_code_def Let_def update_open_def)
  have "sections_tainted (document_lines d @ [?l]) (map block_header (document_blocks d)) (map block_state bs @ [?s])"
  proof (rule sections_tainted_line)
    show "sections_tainted (document_lines d) (map block_header (document_blocks d)) (map block_state (document_blocks d))"
      using assms by (simp add: document_tainted_def)
    show "map block_header (document_blocks d) ! c < length (document_lines d)"
      if "c < length (map block_header (document_blocks d))" for c
      using linked_headers that linked unfolding document_linked_def by blast
    show "map block_state (document_blocks d) ! c \<le> (map block_state bs @ [?s]) ! c"
      if "c < length (map block_header (document_blocks d))" for c
      using that by (auto simp: bs nth_append less_Suc_eq)
  qed (simp_all add: bs taints_def line_of_def)
  moreover have "document_linked ?e"
    using linked assms(2) by (rule document_linked_code)
  ultimately show ?thesis
    using e by (simp add: document_tainted_def)
qed

lemma tainted_step:
  assumes "document_tainted d"
  shows "document_tainted (document_step d x)"
proof (cases "item x")
  case (Item_Header act start stop)
  have d: "document_tainted (close_block d)"
    using assms by (rule tainted_close)
  have ok: "open_ok d"
    using assms by (simp add: document_tainted_def document_linked_def)
  let ?l = "line_of x VC_PSV_LINE_CHEAT_HEADER (Some (length (document_blocks d))) None"
  have "sections_tainted (document_lines d @ [?l]) (map block_header (document_blocks (close_block d)) @ [length (document_lines d)])
      (map block_state (document_blocks (close_block d)) @ [VC_PSV_TRANSLATION_DIRECT_ONLY])"
  proof (rule sections_tainted_header)
    show "map block_header (document_blocks (close_block d)) ! c < length (document_lines d)"
      if "c < length (map block_header (document_blocks (close_block d)))" for c
      using linked_headers that d unfolding document_tainted_def document_linked_def by fastforce
  qed (use d in \<open>simp_all add: document_tainted_def line_of_def\<close>)
  moreover have "document_linked (document_step d x)"
    using assms by (intro document_linked_step) (simp add: document_tainted_def)
  ultimately show ?thesis
    using Item_Header by (simp add: document_step_def Let_def document_tainted_def)
next
  case Item_Bad_Header
  let ?d = "close_block d"
  have malformed: "document_tainted (document_malformed x ?d)"
    by (intro tainted_malformed tainted_close assms)
  have "block_state (last (document_blocks (document_malformed x ?d))) = VC_PSV_TRANSLATION_MALFORMED"
    if "document_blocks (document_malformed x ?d) \<noteq> []"
  proof (cases "document_open ?d")
    case True
    then show ?thesis
      by (simp add: document_malformed_def last_taint)
  next
    case False
    with that tainted_close [OF assms] show ?thesis
      by (simp add: document_malformed_def taint_closed document_tainted_def)
  qed
  with malformed Item_Bad_Header show ?thesis
    by (simp add: document_step_def document_tainted_def document_linked_def)
next
  case (Item_Code code address val)
  with assms show ?thesis
    by (simp add: document_step_def tainted_code tainted_malformed)
next
  case Item_Other
  have "document_tainted (add_line (line_of x VC_PSV_LINE_OPAQUE (open_index d) None)
      (taint VC_PSV_TRANSLATION_REQUIRES_UNSUPPORTED d))"
    using assms by (intro tainted_line) (simp_all add: line_of_def taints_def)
  with Item_Other show ?thesis
    by (simp add: document_step_def)
qed (use assms in \<open>simp_all add: document_step_def tainted_malformed tainted_quiet line_of_def\<close>)

interpretation psv_taints: invariant_machine document_step document_tainted
  by unfold_locales (rule tainted_step)

lemma document_tainted_document: "document_tainted (document source)"
  unfolding document_def
  by (intro tainted_close psv_taints.inv_run)
    (simp add: document_tainted_def document_linked_def empty_document_def open_ok_def linked_empty sections_tainted_def)

end
