(* ===== verification/VC_Psv_Text.thy ===== *)
theory VC_Psv_Text
  imports VC_Psv_Invariant
begin

unbundle bit_operations_syntax

text \<open>
  Lines as text: what an item says of the bytes of its line, without any position. The text of a line is
  its content without the blanks around it.
\<close>

section \<open>Trimmed text\<close>

definition trimmed :: "uint8_t list \<Rightarrow> uint8_t list" where
  "trimmed xs = rev (dropWhile blank (rev (dropWhile blank xs)))"

lemma trimmed_spaces: "trimmed xs = rev (dropWhile ascii_space (rev (dropWhile ascii_space xs)))"
  by (simp add: trimmed_def ascii_space_blank)

lemma segment_snoc:
  assumes "start < stop" and "stop \<le> length source"
  shows "segment source start stop = segment source start (stop - 1) @ [source ! (stop - 1)]"
proof -
  have "segment source start stop = segment source start (stop - 1) @ segment source (stop - 1) stop"
    using assms by (intro segment_append) simp_all
  moreover have "segment source (stop - 1) stop = [source ! (stop - 1)]"
    using assms segment_Cons [of "stop - 1" stop source] by (simp add: segment_empty)
  ultimately show ?thesis
    by simp
qed

lemma drop_spaces_text:
  assumes "start \<le> stop" and "stop \<le> length source"
  shows "segment source start (drop_spaces source start stop) =
    rev (dropWhile ascii_space (rev (segment source start stop)))"
  using assms
proof (induction source start stop rule: drop_spaces.induct)
  case (1 source start stop)
  show ?case
  proof (cases "stop > start \<and> ascii_space (source ! (stop - 1))")
    case True
    then have "drop_spaces source start stop = drop_spaces source start (stop - 1)"
      by (subst drop_spaces.simps) simp
    moreover have "start \<le> stop - 1" "stop - 1 \<le> length source"
      using True 1 by auto
    ultimately show ?thesis
      using 1 True segment_snoc [of start stop source] by simp
  next
    case False
    then have same: "drop_spaces source start stop = stop"
      by (subst drop_spaces.simps) auto
    show ?thesis
    proof (cases "start < stop")
      case True
      with False 1 segment_snoc [of start stop source] show ?thesis
        by (simp add: same)
    next
      case False
      with same show ?thesis
        by (simp add: segment_empty)
    qed
  qed
qed

lemma skip_spaces_text:
  assumes "start \<le> stop" and "stop \<le> length source"
  shows "segment source (skip_spaces source start stop) stop = dropWhile ascii_space (segment source start stop)"
  by (simp add: skip_spaces_segment [OF assms] segment_drop dropWhile_eq_drop)

lemma trim_span_text:
  assumes "start \<le> stop" and "stop \<le> length source" and "trim_span source start stop = (b, e)"
  shows "segment source b e = trimmed (segment source start stop)"
  using assms skip_spaces_bounds [OF assms(1), of source]
  by (auto simp: trim_span_def Let_def trimmed_spaces drop_spaces_text skip_spaces_text)

lemma trimmed_ends:
  assumes "trimmed xs \<noteq> []"
  shows "\<not> ascii_space (hd (trimmed xs))" "\<not> ascii_space (last (trimmed xs))"
proof -
  let ?ys = "dropWhile ascii_space xs"
  have "dropWhile ascii_space (rev ?ys) \<noteq> []"
    using assms by (simp add: trimmed_spaces)
  then show "\<not> ascii_space (last (trimmed xs))"
    by (simp add: trimmed_spaces last_rev hd_dropWhile)
  have "?ys = trimmed xs @ rev (takeWhile ascii_space (rev ?ys))"
    unfolding trimmed_spaces by (metis rev_append rev_rev_ident takeWhile_dropWhile_id)
  then have "hd ?ys = hd (trimmed xs)"
    using assms by (metis hd_append2)
  moreover have "?ys \<noteq> []"
    using assms unfolding trimmed_spaces by (metis dropWhile.simps(1) rev.simps(1))
  ultimately show "\<not> ascii_space (hd (trimmed xs))"
    by (metis hd_dropWhile)
qed

section \<open>The item of a text\<close>

definition header_text :: "vc_psv_activation \<Rightarrow> uint8_t list \<Rightarrow> bool" where
  "header_text act t \<longleftrightarrow>
     length t \<ge> 3 \<and> t ! 0 = ascii CHR ''_'' \<and> t ! 1 = ascii CHR ''V'' \<and>
     t ! 2 = (if act = VC_PSV_ACTIVATION_AUTOSTART then ascii CHR ''1'' else ascii CHR ''0'') \<and>
     (length t > 3 \<longrightarrow> blank (t ! 3))"

definition looks_like_header :: "uint8_t list \<Rightarrow> bool" where
  "looks_like_header t \<longleftrightarrow> length t \<ge> 3 \<and> t ! 0 = ascii CHR ''_'' \<and> t ! 1 = ascii CHR ''V''"

definition description_text :: "uint8_t list \<Rightarrow> uint8_t list" where
  "description_text t = dropWhile blank (drop 3 t)"

text \<open>What the item of a line of trimmed text \<open>t\<close> tells.\<close>

fun item_text :: "uint8_t list \<Rightarrow> psv_item \<Rightarrow> uint8_t list \<Rightarrow> bool" where
  "item_text source Item_Blank t \<longleftrightarrow> t = []"
| "item_text source Item_Comment t \<longleftrightarrow> t \<noteq> [] \<and> hd t = ascii CHR ''#''"
| "item_text source (Item_Header act start stop) t \<longleftrightarrow>
     header_text act t \<and> start \<le> stop \<and> stop \<le> length source \<and> segment source start stop = description_text t"
| "item_text source Item_Bad_Header t \<longleftrightarrow> looks_like_header t \<and> (\<forall>act. \<not> header_text act t)"
| "item_text source (Item_Code code address val) t \<longleftrightarrow> code_text t code address val"
| "item_text source Item_Bad_Code t \<longleftrightarrow>
     t \<noteq> [] \<and> hd t = ascii CHR ''$'' \<and> (\<forall>code address val. \<not> code_text t code address val)"
| "item_text source Item_Other t \<longleftrightarrow>
     t \<noteq> [] \<and> hd t \<notin> {ascii CHR ''#'', ascii CHR ''$''} \<and> \<not> looks_like_header t"

lemma nth_segment: "start + i < stop \<Longrightarrow> stop \<le> length source \<Longrightarrow> segment source start stop ! i = source ! (start + i)"
  by (simp add: segment_def)

lemma header_item_text:
  assumes "start + 3 \<le> stop" and "stop \<le> length source"
    and "looks_like_header (segment source start stop)"
  shows "item_text source (header_item source start stop) (segment source start stop)"
proof -
  let ?t = "segment source start stop"
  have t: "length ?t = stop - start" "?t ! 2 = source ! (start + 2)"
    "start + 3 < stop \<Longrightarrow> ?t ! 3 = source ! (start + 3)"
    using assms(1,2) by (simp_all add: length_segment nth_segment)
  have distinct: "ascii CHR ''0'' \<noteq> ascii CHR ''1''"
    by (simp add: ascii_def)
  have described: "segment source (skip_spaces source (start + 3) stop) stop = description_text ?t"
    using assms(1,2) by (simp add: skip_spaces_text description_text_def ascii_space_blank segment_drop)
  have bound: "skip_spaces source (start + 3) stop \<le> stop"
    using assms(1) by (rule skip_spaces_bounds)
  show ?thesis
  proof (cases "(source ! (start + 2) \<noteq> ascii CHR ''0'' \<and> source ! (start + 2) \<noteq> ascii CHR ''1'') \<or>
      (start + 3 < stop \<and> \<not> ascii_space (source ! (start + 3)))")
    case True
    have "\<not> header_text act ?t" for act
      using True t assms(1) by (auto simp: header_text_def ascii_space_blank split: if_splits)
    with True assms(3) show ?thesis
      by (simp add: header_item_def Let_def)
  next
    case False
    with assms t distinct described bound show ?thesis
      by (auto simp: header_item_def Let_def header_text_def ascii_space_blank looks_like_header_def)
  qed
qed

lemma code_text_starts: "code_text t code address val \<Longrightarrow> t \<noteq> [] \<and> hd t = ascii CHR ''$''"
  by (auto simp: code_text_def)

lemma psv_item_text:
  assumes "start \<le> stop" and "stop \<le> length source"
  shows "item_text source (psv_item source start stop) (trimmed (segment source start stop))"
proof -
  obtain b e where trim: "trim_span source start stop = (b, e)"
    by (cases "trim_span source start stop")
  note bounds = trim_span_bounds [OF assms(1) trim]
  let ?t = "trimmed (segment source start stop)"
  have t: "?t = segment source b e"
    using trim_span_text [OF assms trim] by simp
  have len: "e \<le> length source" "length ?t = e - b"
    using bounds assms by (simp_all add: t length_segment)
  have at: "?t ! i = source ! (b + i)" if "b + i < e" for i
    using that len(1) by (simp add: t nth_segment)
  show ?thesis
  proof (cases "b = e")
    case True
    then show ?thesis
      by (simp add: psv_item_def trim t segment_empty)
  next
    case False
    with bounds len have "?t \<noteq> []"
      by auto
    then have first: "hd ?t = source ! b" "?t \<noteq> []"
      using at [of 0] False bounds by (simp_all add: hd_conv_nth)
    have looks: "looks_like_header ?t \<longleftrightarrow>
        e - b \<ge> 3 \<and> source ! b = ascii CHR ''_'' \<and> source ! (b + 1) = ascii CHR ''V''"
      using at [of 0] at [of 1] len(2) bounds by (auto simp: looks_like_header_def)
    have distinct: "ascii CHR ''#'' \<noteq> ascii CHR ''_''" "ascii CHR ''#'' \<noteq> ascii CHR ''$''" "ascii CHR ''_'' \<noteq> ascii CHR ''$''"
      by (simp_all add: ascii_def)
    have header: "item_text source (header_item source b e) ?t" if "looks_like_header ?t"
      using that looks bounds len(1) unfolding t by (intro header_item_text) auto
    have code: "parse_code source b e = Some (code, address, val) \<longleftrightarrow> code_text ?t code address val" for code address val
      unfolding t using bounds len(1) by (intro parse_code_iff) simp_all
    show ?thesis
    proof (cases "parse_code source b e")
      case None
      with code have "\<not> code_text ?t code address val" for code address val
        by (metis option.distinct(1))
      with None False first looks header distinct show ?thesis
        by (simp add: psv_item_def trim)
    next
      case (Some r)
      have "code_text ?t (fst r) (fst (snd r)) (snd (snd r))"
        using Some by (simp add: code [symmetric])
      with Some False first looks header distinct show ?thesis
        by (cases r) (simp add: psv_item_def trim)
    qed
  qed
qed

section \<open>The lines of a source\<close>

text \<open>What every line of \<open>source_lines\<close> is.\<close>

definition line_of_source :: "uint8_t list \<Rightarrow> psv_source_line \<Rightarrow> bool" where
  "line_of_source source x \<longleftrightarrow>
     raw_from x \<le> content_from x \<and> content_from x \<le> content_to x \<and> content_to x \<le> raw_to x \<and>
     raw_to x \<le> length source \<and>
     item_text source (item x) (trimmed (segment source (content_from x) (content_to x)))"

lemma skip_byte_order_mark_bounds:
  "start \<le> stop \<Longrightarrow> start \<le> skip_byte_order_mark source index start stop \<and>
    skip_byte_order_mark source index start stop \<le> stop"
  by (auto simp: skip_byte_order_mark_def)

lemma source_line_ok:
  assumes "pos < length source"
  shows "line_of_source source (source_line source index pos)"
proof -
  let ?stop = "find_line_end source pos"
  have stop: "pos \<le> ?stop" "?stop \<le> length source" "?stop \<le> next_line source pos"
    using assms find_line_end_ge find_line_end_le skip_line_break_bounds(1)
    by (auto simp: less_imp_le next_line_def)
  with skip_byte_order_mark_bounds [OF stop(1), of source index] next_line_bounds [OF assms] show ?thesis
    by (auto simp: line_of_source_def source_line_def Let_def intro!: psv_item_text)
qed

lemma source_lines_ok: "x \<in> set (source_lines source index pos) \<Longrightarrow> line_of_source source x"
proof (induction source index pos rule: source_lines.induct)
  case (1 source index pos)
  then show ?case
    by (subst (asm) source_lines.simps [of source index pos]) (auto simp: source_line_ok split: if_splits)
qed

section \<open>Spans\<close>

definition span_text :: "uint8_t list \<Rightarrow> vc_psv_span \<Rightarrow> uint8_t list" where
  "span_text source s = take (unat (span_length s)) (drop (unat (span_offset s)) source)"

lemma span_of_unat:
  assumes "start \<le> stop" and "stop \<le> VC_PSV_MAX_SOURCE_BYTES"
  shows "unat (span_offset (span_of start stop)) = start" "unat (span_length (span_of start stop)) = stop - start"
proof -
  have "start < 2 ^ 32" "stop - start < 2 ^ 32"
    using assms by (simp_all add: VC_PSV_MAX_SOURCE_BYTES_def)
  then show "unat (span_offset (span_of start stop)) = start" "unat (span_length (span_of start stop)) = stop - start"
    by (simp_all add: span_of_def unat_of_nat_small)
qed

lemma span_text_of:
  assumes "start \<le> stop" and "stop \<le> length source" and "length source \<le> VC_PSV_MAX_SOURCE_BYTES"
  shows "span_text source (span_of start stop) = segment source start stop"
  using assms by (simp add: span_text_def span_of_unat segment_def)

section \<open>Lines, cheats and operations say what their text says\<close>

definition line_text :: "uint8_t list \<Rightarrow> vc_psv_line \<Rightarrow> uint8_t list" where
  "line_text source l = trimmed (span_text source (content l))"

definition line_says :: "uint8_t list \<Rightarrow> vc_psv_line \<Rightarrow> bool" where
  "line_says source l \<longleftrightarrow>
     (let t = line_text source l in
      case line_kind l of
        VC_PSV_LINE_BLANK \<Rightarrow> t = []
      | VC_PSV_LINE_COMMENT \<Rightarrow> t \<noteq> [] \<and> hd t = ascii CHR ''#''
      | VC_PSV_LINE_CHEAT_HEADER \<Rightarrow> (\<exists>act. header_text act t)
      | VC_PSV_LINE_CODE \<Rightarrow> (\<exists>code address val. code_text t code address val)
      | VC_PSV_LINE_OPAQUE \<Rightarrow>
          t \<noteq> [] \<and> hd t \<notin> {ascii CHR ''#'', ascii CHR ''$''} \<and> \<not> looks_like_header t
      | VC_PSV_LINE_MALFORMED \<Rightarrow>
          looks_like_header t \<and> (\<forall>act. \<not> header_text act t) \<or> t \<noteq> [] \<and> hd t = ascii CHR ''$'')"

definition operation_says :: "uint8_t list \<Rightarrow> vc_psv_line list \<Rightarrow> vc_psv_operation \<Rightarrow> bool" where
  "operation_says source ls p \<longleftrightarrow> operation_line p < length ls \<and>
     code_text (line_text source (ls ! operation_line p)) (legacy_code p) (operation_address p) (operation_value p)"

definition block_says :: "uint8_t list \<Rightarrow> vc_psv_line list \<Rightarrow> psv_block \<Rightarrow> bool" where
  "block_says source ls b \<longleftrightarrow> block_header b < length ls \<and>
     header_text (block_activation b) (line_text source (ls ! block_header b)) \<and>
     span_text source (block_description b) = description_text (line_text source (ls ! block_header b)) \<and>
     (block_long b \<longleftrightarrow> unat (span_length (block_description b)) > VC_PSV_LEGACY_MAX_DESCRIPTION_BYTES) \<and>
     (\<forall>p \<in> set (block_operations b). operation_says source ls p)"

definition document_says :: "uint8_t list \<Rightarrow> psv_document \<Rightarrow> bool" where
  "document_says source d \<longleftrightarrow> open_ok d \<and>
     (\<forall>l \<in> set (document_lines d). line_says source l) \<and>
     (\<forall>b \<in> set (document_blocks d). block_says source (document_lines d) b)"

lemma block_says_line: "block_says source ls b \<Longrightarrow> block_says source (ls @ [l]) b"
  by (auto simp: block_says_def operation_says_def nth_append)

lemma block_says_state [simp]: "block_says source ls (b\<lparr>block_state := st\<rparr>) = block_says source ls b"
  by (simp add: block_says_def)

lemma document_says_line:
  assumes "document_says source d" and "line_says source l"
  shows "document_says source (add_line l d)"
  using assms by (auto simp: document_says_def intro: block_says_line)

lemma document_says_taint:
  assumes "document_says source d"
  shows "document_says source (taint state d)"
proof -
  have "\<forall>b \<in> set (document_blocks (taint state d)). block_says source (document_lines d) b"
    unfolding taint_def using assms by (intro ball_update_open) (simp_all add: document_says_def)
  with assms show ?thesis
    by (simp add: document_says_def taint_skeleton)
qed

lemma document_says_invalid [simp]:
  "document_says source (d\<lparr>document_invalid := n\<rparr>) \<longleftrightarrow> document_says source d"
  by (simp add: document_says_def)

lemma document_says_close: "document_says source d \<Longrightarrow> document_says source (close_block d)"
  by (simp add: close_block_def document_says_taint)

lemma line_of_text:
  assumes "line_of_source source x" and "length source \<le> VC_PSV_MAX_SOURCE_BYTES"
  shows "line_text source (line_of x kind cheat operation) = trimmed (segment source (content_from x) (content_to x))"
  using assms by (simp add: line_text_def line_of_def line_of_source_def span_text_of)

lemma document_says_malformed:
  assumes "document_says source d" and "line_says source (line_of x VC_PSV_LINE_MALFORMED None None)"
  shows "document_says source (document_malformed x d)"
  unfolding document_malformed_def using assms by (intro document_says_line document_says_taint)

lemma document_says_code:
  assumes d: "document_says source d" "document_open d"
    and t: "code_text (line_text source (line_of x VC_PSV_LINE_CODE c i)) code address val"
    and c: "c = open_index d" "i = Some (length (all_operations d))"
  shows "document_says source (document_code x code address val d)"
proof -
  let ?p = "code_operation d code address val"
  let ?l = "line_of x VC_PSV_LINE_CODE c i"
  let ?f = "\<lambda>b. b\<lparr>block_state := max (operation_state (open_operations d) ?p) (block_state b),
      block_operations := block_operations b @ [?p]\<rparr>"
  define e where "e = (if operation_state (open_operations d) ?p = VC_PSV_TRANSLATION_MALFORMED
      then d\<lparr>document_invalid := Suc (document_invalid d)\<rparr> else d)"
  have e: "document_blocks e = document_blocks d" "open_ok e \<longleftrightarrow> open_ok d"
    by (simp_all add: e_def)
  have code: "document_code x code address val d = add_line ?l (update_open ?f e)"
    by (simp add: document_code_def Let_def e_def c)
  have lines: "document_lines (update_open ?f e) = document_lines d" and ok: "open_ok (update_open ?f e)"
    using d by (simp_all add: update_open_def e_def document_says_def open_ok_def)
  have p: "operation_says source (document_lines d @ [?l]) ?p"
    using t by (simp add: operation_says_def code_operation_def Let_def)
  have "block_says source (document_lines d @ [?l]) (?f k)" if "block_says source (document_lines d @ [?l]) k" for k
    using that p by (simp add: block_says_def)
  then have "\<forall>b \<in> set (document_blocks (update_open ?f e)). block_says source (document_lines d @ [?l]) b"
    using d e by (intro ball_update_open) (simp_all add: document_says_def block_says_line)
  moreover have "line_says source ?l"
    using t by (auto simp: line_says_def Let_def) (auto simp: line_of_def)
  ultimately show ?thesis
    using d(1) lines ok by (simp add: code document_says_def)
qed

lemma document_says_step:
  assumes d: "document_says source d" and x: "line_of_source source x"
    and small: "length source \<le> VC_PSV_MAX_SOURCE_BYTES"
  shows "document_says source (document_step d x)"
proof -
  let ?t = "trimmed (segment source (content_from x) (content_to x))"
  note line_text = line_of_text [OF x small]
  have kind [simp]: "line_kind (line_of x kind c i) = kind" for kind c i
    by (simp add: line_of_def)
  have it: "item_text source (item x) ?t"
    using x by (simp add: line_of_source_def)
  show ?thesis
  proof (cases "item x")
    case (Item_Header act start stop)
    with it have h: "header_text act ?t" "start \<le> stop" "stop \<le> length source"
      "segment source start stop = description_text ?t"
      by simp_all
    let ?l = "line_of x VC_PSV_LINE_CHEAT_HEADER (Some (length (document_blocks d))) None"
    let ?b = "\<lparr>block_activation = act, block_description = span_of start stop,
        block_long = (stop - start > VC_PSV_LEGACY_MAX_DESCRIPTION_BYTES),
        block_header = length (document_lines d),
        block_state = VC_PSV_TRANSLATION_DIRECT_ONLY, block_operations = []\<rparr>"
    have "block_says source (document_lines d @ [?l]) ?b"
      using h small by (simp add: block_says_def line_text span_text_of span_of_unat)
    moreover have "line_says source ?l"
      using h(1) by (auto simp: line_says_def line_text)
    moreover have "\<forall>b \<in> set (document_blocks (close_block d)). block_says source (document_lines d @ [?l]) b"
      using document_says_close [OF d] by (simp add: document_says_def block_says_line)
    ultimately show ?thesis
      using d Item_Header by (simp add: document_step_def Let_def document_says_def) (simp add: open_ok_def)
  next
    case Item_Bad_Header
    have "line_says source (line_of x VC_PSV_LINE_MALFORMED None None)"
      using it Item_Bad_Header by (simp add: line_says_def line_text)
    then have "document_says source (document_malformed x (close_block d))"
      by (intro document_says_malformed document_says_close d)
    with Item_Bad_Header show ?thesis
      by (simp add: document_step_def document_says_def)
  next
    case (Item_Code code address val)
    with it have t: "code_text ?t code address val"
      by simp
    then have "line_says source (line_of x VC_PSV_LINE_MALFORMED None None)"
      using code_text_starts by (simp add: line_says_def line_text)
    with Item_Code t d show ?thesis
      by (simp add: document_step_def document_says_malformed)
        (auto intro!: document_says_code simp: line_text)
  next
    case Item_Bad_Code
    have "line_says source (line_of x VC_PSV_LINE_MALFORMED None None)"
      using it Item_Bad_Code by (simp add: line_says_def line_text)
    with Item_Bad_Code d show ?thesis
      by (simp add: document_step_def document_says_malformed)
  next
    case Item_Other
    have "line_says source (line_of x VC_PSV_LINE_OPAQUE (open_index d) None)"
      using it Item_Other by (simp add: line_says_def line_text)
    with Item_Other d show ?thesis
      by (simp add: document_step_def document_says_line document_says_taint)
  qed (use it d in \<open>simp_all add: document_step_def document_says_line line_says_def line_text\<close>)
qed

lemma document_says_document:
  assumes "length source \<le> VC_PSV_MAX_SOURCE_BYTES"
  shows "document_says source (document source)"
proof -
  have "document_says source (foldl document_step d xs)"
    if "document_says source d" "\<forall>x \<in> set xs. line_of_source source x" for d xs
    using that by (induction xs arbitrary: d) (simp_all add: document_says_step assms)
  moreover have "document_says source empty_document"
    by (simp add: document_says_def empty_document_def open_ok_def)
  ultimately have "document_says source (foldl document_step empty_document (source_lines source 0 0))"
    using source_lines_ok by blast
  then show ?thesis
    unfolding document_def by (rule document_says_close)
qed

end
