(* ===== verification/VC_Psv_Props.thy ===== *)
theory VC_Psv_Props
  imports VC_Psv_Text VC_Search_Correct
begin

unbundle bit_operations_syntax

text \<open>
  What documents guarantee: raw spans tile the source, indices are consistent, the translation state of a
  block describes its operations, counters stay small.
\<close>

section \<open>Raw spans\<close>

lemma raw_step:
  "map raw (document_lines (document_step d x)) = map raw (document_lines d) @ [span_of (raw_from x) (raw_to x)]"
proof -
  have lines: "document_lines (update_open f d) = document_lines d" for f d
    by (simp add: update_open_def)
  have "raw (line_of x kind cheat operation) = span_of (raw_from x) (raw_to x)" for kind cheat operation
    by (simp add: line_of_def)
  then show ?thesis
    by (cases "item x")
      (auto simp: document_step_def document_malformed_def document_code_def taint_def Let_def lines)
qed

lemma document_lines_close [simp]: "document_lines (close_block d) = document_lines d"
  by (simp add: close_block_def taint_def update_open_def)

lemma raw_document:
  "map raw (document_lines (document source)) =
    map (\<lambda>x. span_of (raw_from x) (raw_to x)) (source_lines source 0 0)"
proof -
  have "map raw (document_lines (foldl document_step d xs)) =
      map raw (document_lines d) @ map (\<lambda>x. span_of (raw_from x) (raw_to x)) xs" for d xs
    by (induction xs arbitrary: d) (simp_all add: raw_step)
  then show ?thesis
    by (simp add: document_def) (simp add: empty_document_def)
qed

text \<open>Consecutive lines from a position to the end of the source.\<close>

fun tiles :: "nat \<Rightarrow> psv_source_line list \<Rightarrow> nat \<Rightarrow> bool" where
  "tiles start [] stop \<longleftrightarrow> start = stop"
| "tiles start (x # xs) stop \<longleftrightarrow> raw_from x = start \<and> start < raw_to x \<and> tiles (raw_to x) xs stop"

lemma tiles_le: "tiles start xs stop \<Longrightarrow> start + length xs \<le> stop"
  by (induction xs arbitrary: start) fastforce+

lemma source_lines_tile: "pos \<le> length source \<Longrightarrow> tiles pos (source_lines source index pos) (length source)"
proof (induction source index pos rule: source_lines.induct)
  case (1 source index pos)
  show ?case
  proof (cases "pos < length source")
    case True
    with 1 next_line_bounds [OF True] show ?thesis
      by (subst source_lines.simps) (simp add: source_line_def Let_def)
  next
    case False
    with 1 show ?thesis
      by (subst source_lines.simps) simp
  qed
qed

lemma tiles_spans:
  assumes "tiles start xs stop" and "stop \<le> length source" and "length source \<le> VC_PSV_MAX_SOURCE_BYTES"
  shows "concat (map (\<lambda>x. span_text source (span_of (raw_from x) (raw_to x))) xs) = segment source start stop"
  using assms(1)
proof (induction xs arbitrary: start)
  case Nil
  then show ?case
    by (simp add: segment_empty)
next
  case (Cons x xs)
  have bounds: "raw_from x = start" "start < raw_to x" "raw_to x \<le> stop"
    using Cons.prems tiles_le [of "raw_to x" xs stop] by auto
  then have "span_text source (span_of (raw_from x) (raw_to x)) = segment source start (raw_to x)"
    using assms(2,3) by (simp add: span_text_def span_of_unat segment_def)
  moreover have "segment source start stop = segment source start (raw_to x) @ segment source (raw_to x) stop"
    using bounds by (intro segment_append) simp_all
  ultimately show ?case
    using Cons by simp
qed

lemma tiles_contiguous:
  assumes "tiles start xs stop" and "stop \<le> VC_PSV_MAX_SOURCE_BYTES"
    and "spans = map (\<lambda>x. span_of (raw_from x) (raw_to x)) xs"
  shows "(spans \<noteq> [] \<longrightarrow> unat (span_offset (hd spans)) = start) \<and>
    (\<forall>i. Suc i < length spans \<longrightarrow> unat (span_offset (spans ! Suc i)) =
      unat (span_offset (spans ! i)) + unat (span_length (spans ! i)))"
  using assms(1) unfolding assms(3)
proof (induction xs arbitrary: start)
  case Nil
  then show ?case by simp
next
  case (Cons x xs)
  have x: "raw_from x = start" "start < raw_to x" "raw_to x \<le> stop" "tiles (raw_to x) xs stop"
    using Cons.prems tiles_le [of "raw_to x" xs stop] by auto
  let ?spans = "map (\<lambda>x. span_of (raw_from x) (raw_to x)) xs"
  note ih = Cons.IH [OF x(4)]
  have head: "unat (span_offset (span_of (raw_from x) (raw_to x))) = start"
    "unat (span_length (span_of (raw_from x) (raw_to x))) = raw_to x - start"
    using x assms(2) by (simp_all add: span_of_unat)
  have "unat (span_offset ((span_of (raw_from x) (raw_to x) # ?spans) ! Suc i)) =
      unat (span_offset ((span_of (raw_from x) (raw_to x) # ?spans) ! i)) +
      unat (span_length ((span_of (raw_from x) (raw_to x) # ?spans) ! i))" if "Suc i < Suc (length xs)" for i
  proof (cases i)
    case 0
    then have "?spans \<noteq> []"
      using that by auto
    with ih head x 0 show ?thesis
      by (simp add: hd_conv_nth)
  next
    case (Suc j)
    with ih that show ?thesis
      by simp
  qed
  with head show ?case
    by simp
qed

section \<open>Successful and truncated calls\<close>

text \<open>What a call left in its arrays, as its report counts it.\<close>

definition parsed_lines :: "psv_buffers \<Rightarrow> vc_psv_line list" where
  "parsed_lines b = take (stored_lines (report_buffer b)) (line_buffer b)"

definition parsed_cheats :: "psv_buffers \<Rightarrow> vc_psv_cheat list" where
  "parsed_cheats b = take (stored_cheats (report_buffer b)) (cheat_buffer b)"

definition parsed_operations :: "psv_buffers \<Rightarrow> vc_psv_operation list" where
  "parsed_operations b = take (stored_operations (report_buffer b)) (operation_buffer b)"

lemmas parsed_defs = parsed_lines_def parsed_cheats_def parsed_operations_def

lemma psv_check_status: "psv_check_arguments a \<noteq> Some VC_PSV_STATUS_OK" "psv_check_arguments a \<noteq> Some VC_PSV_STATUS_TRUNCATED"
  by (simp_all add: psv_check_arguments_def split: option.splits)

lemma psv_parse_ok:
  assumes "vc_psv_parse a source b = (VC_PSV_STATUS_OK, b')"
  shows "psv_check_arguments a = None" "document_fits (document source) b"
    "b' = written_buffers source (document source) b"
proof -
  show "psv_check_arguments a = None"
    using assms psv_check_status(1) [of a] by (auto simp: vc_psv_parse_def split: option.splits)
  with assms show "document_fits (document source) b" "b' = written_buffers source (document source) b"
    by (simp_all add: vc_psv_parse_def psv_run_document split: if_splits)
qed

lemma psv_parse_truncated:
  assumes "vc_psv_parse a source b = (VC_PSV_STATUS_TRUNCATED, b')"
  shows "psv_check_arguments a = None" "\<not> document_fits (document source) b"
    "b' = cleared_buffers source (document source) b"
proof -
  show "psv_check_arguments a = None"
    using assms psv_check_status(2) [of a] by (auto simp: vc_psv_parse_def split: option.splits)
  with assms show "\<not> document_fits (document source) b" "b' = cleared_buffers source (document source) b"
    by (simp_all add: vc_psv_parse_def psv_run_document split: if_splits)
qed

text \<open>The arrays of a complete call are those of the document.\<close>

lemma written_parsed:
  assumes "document_fits d b" and "b' = written_buffers source d b"
  shows "parsed_lines b' = document_lines d" "parsed_cheats b' = flat_cheats 0 (document_blocks d)"
    "parsed_operations b' = all_operations d"
    "report_buffer b' = (document_report source d)
       \<lparr>stored_lines := length (document_lines d), stored_cheats := length (document_blocks d),
        stored_operations := length (all_operations d)\<rparr>"
  using assms overlay_all [of "flat_cheats 0 (document_blocks d)" "cheat_buffer b"]
  by (simp_all add: parsed_defs written_buffers_def document_fits_def overlay_all)

lemmas psv_ok = written_parsed [OF psv_parse_ok(2,3)]

lemma psv_check_source:
  "psv_check_arguments a = None \<Longrightarrow> unat (source_length a) \<le> VC_PSV_MAX_SOURCE_BYTES"
  by (simp add: psv_check_arguments_def split: if_splits)

text \<open>C1. The parser implements its specification. A call whose arguments are rejected returns the error
  and writes nothing. Any other call computes the document of its source: when the three arrays can hold
  it, the status is OK, the arrays hold the document's lines, cheats and operations followed by what they
  held before, and the report counts them; otherwise the status is TRUNCATED, the parts of the arrays that
  were written are zeroed, and the report still holds the document's totals.\<close>

theorem psv_parse_document:
  "vc_psv_parse a source b =
    (case psv_check_arguments a of
       Some status \<Rightarrow> (status, b)
     | None \<Rightarrow>
         if document_fits (document source) b
         then (VC_PSV_STATUS_OK, written_buffers source (document source) b)
         else (VC_PSV_STATUS_TRUNCATED, cleared_buffers source (document source) b))"
  by (simp only: vc_psv_parse_def psv_run_document)

text \<open>C6. Parsing loses no byte. The raw spans of the stored lines, in order, are adjacent, start at
  offset \<open>0\<close> and their texts put together are the source.\<close>

theorem psv_lines_reconstruct:
  assumes "vc_psv_parse a source b = (VC_PSV_STATUS_OK, b')"
    and "length source = unat (source_length a)"
  shows "concat (map (\<lambda>l. span_text source (raw l)) (parsed_lines b')) = source \<and>
    (parsed_lines b' \<noteq> [] \<longrightarrow> span_offset (raw (hd (parsed_lines b'))) = 0) \<and>
    (\<forall>i. Suc i < length (parsed_lines b') \<longrightarrow>
      unat (span_offset (raw (parsed_lines b' ! Suc i))) =
      unat (span_offset (raw (parsed_lines b' ! i))) + unat (span_length (raw (parsed_lines b' ! i))))"
proof (intro conjI)
  have small: "length source \<le> VC_PSV_MAX_SOURCE_BYTES"
    using psv_check_source [OF psv_parse_ok(1) [OF assms(1)]] assms(2) by simp
  let ?xs = "source_lines source 0 0"
  have tiled: "tiles 0 ?xs (length source)"
    by (rule source_lines_tile) simp
  have spans: "map raw (parsed_lines b') = map (\<lambda>x. span_of (raw_from x) (raw_to x)) ?xs"
    by (simp add: psv_ok [OF assms(1) assms(1)] raw_document)
  have "concat (map (span_text source) (map raw (parsed_lines b'))) = source"
    using tiles_spans [OF tiled order_refl small] unfolding spans by (simp add: segment_all o_def)
  then show "concat (map (\<lambda>l. span_text source (raw l)) (parsed_lines b')) = source"
    by (simp add: o_def)
  note contiguous = tiles_contiguous [OF tiled small spans]
  then show "parsed_lines b' \<noteq> [] \<longrightarrow> span_offset (raw (hd (parsed_lines b'))) = 0"
    by (simp add: hd_map unat_eq_0)
  from contiguous show "\<forall>i. Suc i < length (parsed_lines b') \<longrightarrow>
      unat (span_offset (raw (parsed_lines b' ! Suc i))) =
      unat (span_offset (raw (parsed_lines b' ! i))) + unat (span_length (raw (parsed_lines b' ! i)))"
    by simp
qed

text \<open>C27. A truncated call tells how much room is needed. Whatever arrays it had, its totals are enough:
  a second call on the same source, with valid arguments and arrays at least as long as the totals,
  succeeds, stores everything and reports the same counts.\<close>

theorem psv_retry_succeeds:
  assumes "vc_psv_parse a source b = (VC_PSV_STATUS_TRUNCATED, b1)"
    and "psv_check_arguments a2 = None"
    and "total_lines (report_buffer b1) \<le> length (line_buffer b2)"
    and "total_cheats (report_buffer b1) \<le> length (cheat_buffer b2)"
    and "total_operations (report_buffer b1) \<le> length (operation_buffer b2)"
  shows "\<exists>b3. vc_psv_parse a2 source b2 = (VC_PSV_STATUS_OK, b3) \<and>
    report_buffer b3 = (report_buffer b1)
      \<lparr>stored_lines := total_lines (report_buffer b1), stored_cheats := total_cheats (report_buffer b1),
       stored_operations := total_operations (report_buffer b1)\<rparr>"
proof -
  let ?d = "document source"
  have b1: "report_buffer b1 = document_report source ?d"
    using psv_parse_truncated(3) [OF assms(1)] by (simp add: cleared_buffers_def)
  then have fits: "document_fits ?d b2"
    using assms(3-5) by (simp add: document_fits_def document_report_def)
  then have "vc_psv_parse a2 source b2 = (VC_PSV_STATUS_OK, written_buffers source ?d b2)"
    using assms(2) by (simp add: vc_psv_parse_def psv_run_document)
  moreover have "report_buffer (written_buffers source ?d b2) = (report_buffer b1)
      \<lparr>stored_lines := total_lines (report_buffer b1), stored_cheats := total_cheats (report_buffer b1),
       stored_operations := total_operations (report_buffer b1)\<rparr>"
    by (simp add: b1 written_parsed(4) [OF fits refl]) (simp add: document_report_def)
  ultimately show ?thesis
    by blast
qed

text \<open>C28. A truncated call leaves no partial result: the report stores nothing, some total exceeds its
  capacity, every array element below the total is zero and every other element is unchanged.\<close>

theorem psv_truncated_discards:
  assumes "vc_psv_parse a source b = (VC_PSV_STATUS_TRUNCATED, b1)"
  shows "(parsed_lines b1 = [] \<and> parsed_cheats b1 = [] \<and> parsed_operations b1 = []) \<and>
    (length (line_buffer b) < total_lines (report_buffer b1) \<or>
      length (cheat_buffer b) < total_cheats (report_buffer b1) \<or>
      length (operation_buffer b) < total_operations (report_buffer b1)) \<and>
    line_buffer b1 = map (\<lambda>i. if i < total_lines (report_buffer b1) then zero_line else line_buffer b ! i)
      [0..<length (line_buffer b)] \<and>
    cheat_buffer b1 = map (\<lambda>i. if i < total_cheats (report_buffer b1) then zero_cheat else cheat_buffer b ! i)
      [0..<length (cheat_buffer b)] \<and>
    operation_buffer b1 = map (\<lambda>i. if i < total_operations (report_buffer b1) then zero_operation
        else operation_buffer b ! i) [0..<length (operation_buffer b)]"
proof (intro conjI)
  note b1 = psv_parse_truncated(3) [OF assms]
  have zeroed: "overlay (replicate n z) buffer = map (\<lambda>i. if i < n then z else buffer ! i) [0..<length buffer]"
    for n and z :: 'x and buffer
    by (rule nth_equalityI) (auto simp: overlay_def nth_append)
  show "parsed_lines b1 = []" "parsed_cheats b1 = []" "parsed_operations b1 = []"
    by (simp_all add: b1 parsed_defs cleared_buffers_def document_report_def)
  show "length (line_buffer b) < total_lines (report_buffer b1) \<or>
      length (cheat_buffer b) < total_cheats (report_buffer b1) \<or>
      length (operation_buffer b) < total_operations (report_buffer b1)"
    using psv_parse_truncated(2) [OF assms] 
    by (auto simp: b1 cleared_buffers_def document_report_def document_fits_def)
  show "line_buffer b1 = map (\<lambda>i. if i < total_lines (report_buffer b1) then zero_line else line_buffer b ! i)
      [0..<length (line_buffer b)]"
    and "cheat_buffer b1 = map (\<lambda>i. if i < total_cheats (report_buffer b1) then zero_cheat else cheat_buffer b ! i)
      [0..<length (cheat_buffer b)]"
    and "operation_buffer b1 = map (\<lambda>i. if i < total_operations (report_buffer b1) then zero_operation
        else operation_buffer b ! i) [0..<length (operation_buffer b)]"
    by (simp_all add: b1 cleared_buffers_def document_report_def zeroed)
qed

section \<open>Indices\<close>

lemma nth_flat_cheats:
  "c < length bs \<Longrightarrow>
    flat_cheats n bs ! c = block_cheat (n + length (concat (map block_operations (take c bs)))) (bs ! c)"
proof (induction bs arbitrary: n c)
  case (Cons b bs)
  then show ?case
    by (cases c) (simp_all add: block_cheat_def add.assoc)
qed simp

lemma operation_counts:
  "map operation_count (flat_cheats n bs) = map (\<lambda>b. length (block_operations b)) bs"
  by (induction bs arbitrary: n) simp_all

lemma sum_operation_counts:
  "sum_list (map operation_count (take c (flat_cheats n bs))) = length (concat (map block_operations (take c bs)))"
  by (simp add: take_map [symmetric] operation_counts length_concat o_def)

text \<open>The three arrays refer to each other consistently.\<close>

definition cheat_at_home :: "vc_psv_line list \<Rightarrow> vc_psv_cheat list \<Rightarrow> nat \<Rightarrow> bool" where
  "cheat_at_home ls cs c \<longleftrightarrow>
     (let k = cs ! c in
      header_line_index k < length ls \<and>
      line_kind (ls ! header_line_index k) = VC_PSV_LINE_CHEAT_HEADER \<and>
      line_cheat (ls ! header_line_index k) = Some c \<and>
      first_operation_index k = sum_list (map operation_count (take c cs)) \<and>
      (Suc c < length cs \<longrightarrow> header_line_index k < header_line_index (cs ! Suc c)))"

definition operation_at_home ::
  "vc_psv_line list \<Rightarrow> vc_psv_cheat list \<Rightarrow> vc_psv_operation list \<Rightarrow> nat \<Rightarrow> bool" where
  "operation_at_home ls cs ps i \<longleftrightarrow>
     (\<exists>c < length cs. let k = cs ! c; j = operation_line (ps ! i) in
        operation_cheat (ps ! i) = Some c \<and>
        first_operation_index k \<le> i \<and> i < first_operation_index k + operation_count k \<and>
        j < length ls \<and> header_line_index k < j \<and>
        (Suc c < length cs \<longrightarrow> j < header_line_index (cs ! Suc c)) \<and>
        line_kind (ls ! j) = VC_PSV_LINE_CODE \<and> line_cheat (ls ! j) = Some c \<and>
        line_operation (ls ! j) = Some i)"

definition line_at_home ::
  "vc_psv_line list \<Rightarrow> vc_psv_cheat list \<Rightarrow> vc_psv_operation list \<Rightarrow> nat \<Rightarrow> bool" where
  "line_at_home ls cs ps j \<longleftrightarrow>
     (line_kind (ls ! j) = VC_PSV_LINE_CHEAT_HEADER \<longrightarrow>
       (\<exists>c < length cs. line_cheat (ls ! j) = Some c \<and> header_line_index (cs ! c) = j)) \<and>
     (line_kind (ls ! j) = VC_PSV_LINE_CODE \<longrightarrow>
       (\<exists>i < length ps. line_operation (ls ! j) = Some i \<and> operation_line (ps ! i) = j))"

definition indices_consistent ::
  "vc_psv_line list \<Rightarrow> vc_psv_cheat list \<Rightarrow> vc_psv_operation list \<Rightarrow> bool" where
  "indices_consistent ls cs ps \<longleftrightarrow>
     (\<forall>c < length cs. cheat_at_home ls cs c) \<and>
     sum_list (map operation_count cs) = length ps \<and>
     (\<forall>i < length ps. operation_at_home ls cs ps i) \<and>
     (\<forall>j < length ls. line_at_home ls cs ps j)"

lemma document_indices:
  assumes "document_linked d"
  shows "indices_consistent (document_lines d) (flat_cheats 0 (document_blocks d)) (all_operations d)"
proof -
  let ?bs = "document_blocks d"
  let ?hs = "map block_header ?bs"
  let ?pss = "map block_operations ?bs"
  let ?cs = "flat_cheats 0 ?bs"
  have linked: "linked (document_lines d) ?hs ?pss"
    using assms by (simp add: document_linked_def)
  have cheat: "header_line_index (?cs ! c) = ?hs ! c" "operation_count (?cs ! c) = length (?pss ! c)"
    "first_operation_index (?cs ! c) = length (concat (take c ?pss))" if "c < length ?bs" for c
    using that by (simp_all add: nth_flat_cheats block_cheat_def take_map)
  have cheats: "cheat_at_home (document_lines d) ?cs c" if "c < length ?cs" for c
  proof -
    have c: "c < length ?hs"
      using that by simp
    have "Suc c < length ?bs \<Longrightarrow> ?hs ! c < ?hs ! Suc c"
      using linked_sorted [OF linked] by (intro sorted_wrt_nth_less) auto
    then show ?thesis
      using linked_headers [OF linked c] c cheat [of c] cheat(1) [of "Suc c"]
      by (simp add: cheat_at_home_def Let_def sum_operation_counts take_map)
  qed
  have operations: "operation_at_home (document_lines d) ?cs (all_operations d) i"
    if i: "i < length (all_operations d)" for i
  proof -
    have "operation_linked (document_lines d) ?hs ?pss i (all_operations d ! i)"
      using linked_operations [OF linked] i by (simp add: all_operations_def)
    then obtain c where c: "c < length ?bs" "operation_cheat (all_operations d ! i) = Some c"
      "length (concat (take c ?pss)) \<le> i" "i < length (concat (take c ?pss)) + length (?pss ! c)"
      "operation_line (all_operations d ! i) < length (document_lines d)"
      "?hs ! c < operation_line (all_operations d ! i)"
      "Suc c < length ?bs \<longrightarrow> operation_line (all_operations d ! i) < ?hs ! Suc c"
      "line_kind (document_lines d ! operation_line (all_operations d ! i)) = VC_PSV_LINE_CODE"
      "line_cheat (document_lines d ! operation_line (all_operations d ! i)) = Some c"
      "line_operation (document_lines d ! operation_line (all_operations d ! i)) = Some i"
      unfolding operation_linked_def length_map by blast
    then show ?thesis
      unfolding operation_at_home_def Let_def
      by (intro exI [of _ c]) (simp add: cheat [OF c(1)] cheat(1) [of "Suc c"])
  qed
  have lines: "line_at_home (document_lines d) ?cs (all_operations d) j" if "j < length (document_lines d)" for j
    using linked_lines [OF linked that] cheat(1) by (auto simp: line_at_home_def all_operations_def)
  have "sum_list (map operation_count ?cs) = length (all_operations d)"
    by (simp add: operation_counts all_operations_def length_concat o_def)
  with cheats operations lines show ?thesis
    by (simp add: indices_consistent_def)
qed

text \<open>C10. The arrays of a successful call refer to each other consistently. The cheats partition the
  operations into consecutive ranges and their header lines ascend; every operation belongs to the cheat
  whose range holds it and names the code line it came from, which lies between that cheat's header and the
  next one and names the cheat and the operation in turn; every header line and every code line is the line
  of exactly the cheat or operation it names.\<close>

theorem psv_indices_consistent:
  assumes "vc_psv_parse a source b = (VC_PSV_STATUS_OK, b')"
  shows "indices_consistent (parsed_lines b') (parsed_cheats b') (parsed_operations b')"
  using document_indices [OF document_linked_document] by (simp add: psv_ok [OF assms assms])

section \<open>States and address modes\<close>

text \<open>The operations a cheat refers to.\<close>

definition cheat_operations :: "vc_psv_operation list \<Rightarrow> vc_psv_cheat \<Rightarrow> vc_psv_operation list" where
  "cheat_operations ps k = take (operation_count k) (drop (first_operation_index k) ps)"

lemma flat_cheat_operations:
  "c < length bs \<Longrightarrow>
    cheat_operations (concat (map block_operations bs)) (flat_cheats 0 bs ! c) = block_operations (bs ! c)"
proof -
  assume c: "c < length bs"
  then have "concat (map block_operations bs) = concat (map block_operations (take c bs)) @
      block_operations (bs ! c) @ concat (map block_operations (drop (Suc c) bs))"
    by (metis append.assoc concat.simps(2) concat_append id_take_nth_drop list.simps(9) map_append)
  with c show ?thesis
    by (simp add: cheat_operations_def nth_flat_cheats block_cheat_def)
qed

text \<open>A claim about every block of the document is one about every cheat of a successful call.\<close>

lemma psv_ok_blocks:
  assumes "vc_psv_parse a source b = (VC_PSV_STATUS_OK, b')" and "c < length (parsed_cheats b')"
  obtains k where "k \<in> set (document_blocks (document source))"
    and "k = document_blocks (document source) ! c"
    and "cheat_operations (parsed_operations b') (parsed_cheats b' ! c) = block_operations k"
    and "parsed_cheats b' ! c =
      block_cheat (length (concat (map block_operations (take c (document_blocks (document source)))))) k"
proof
  let ?bs = "document_blocks (document source)"
  have c: "c < length ?bs"
    using assms(2) by (simp add: psv_ok [OF assms(1) assms(1)])
  then show "?bs ! c \<in> set ?bs" "?bs ! c = ?bs ! c"
    by simp_all
  show "cheat_operations (parsed_operations b') (parsed_cheats b' ! c) = block_operations (?bs ! c)"
    by (simp add: psv_ok [OF assms(1) assms(1)] all_operations_def flat_cheat_operations c)
  show "parsed_cheats b' ! c = block_cheat (length (concat (map block_operations (take c ?bs)))) (?bs ! c)"
    by (simp add: psv_ok [OF assms(1) assms(1)] nth_flat_cheats c)
qed

lemma classified_operation:
  assumes "block_classified k" and "i < length (block_operations k)" and "p = block_operations k ! i"
  shows "operation_kind_of p = operation_kind (legacy_code p)"
    and "address_mode p = (if \<not> writes p then VC_PSV_ADDRESS_NOT_APPLICABLE
      else if has_base (block_operations k) then VC_PSV_ADDRESS_SELECTED_MODULE_RELATIVE
      else VC_PSV_ADDRESS_ABSOLUTE)"
    and "operation_state (take i (block_operations k)) p \<le> block_state k"
  using assms unfolding block_classified_def Let_def by blast+

lemma direct_block:
  assumes "block_classified k" and "block_state k = VC_PSV_TRANSLATION_DIRECT_ONLY" and "p \<in> set (block_operations k)"
  shows "writes p \<and> address_mode p = VC_PSV_ADDRESS_ABSOLUTE"
proof -
  have direct: "s \<le> VC_PSV_TRANSLATION_DIRECT_ONLY \<longleftrightarrow> s = VC_PSV_TRANSLATION_DIRECT_ONLY" for s
    using direct_least [of s] by auto
  have all: "writes (block_operations k ! i)" if "i < length (block_operations k)" for i
    using classified_operation(3) [OF assms(1) that refl] assms(2) by (simp add: direct writes_state)
  then have "\<not> has_base (block_operations k)"
    using selects_not_writes all unfolding has_base_def by (metis hd_conv_nth length_greater_0_conv)
  moreover obtain i where "i < length (block_operations k)" "p = block_operations k ! i"
    using assms(3) by (auto simp: in_set_conv_nth)
  ultimately show ?thesis
    using classified_operation(2) [OF assms(1), of i p] all [of i] by simp
qed

lemma relative_block:
  assumes "block_classified k" and "base_used k" and "block_state k = VC_PSV_TRANSLATION_MODULE_RELATIVE"
  shows "\<exists>p qs. block_operations k = p # qs \<and> selects_base p \<and> qs \<noteq> [] \<and>
    (\<forall>q \<in> set qs. writes q \<and> address_mode q = VC_PSV_ADDRESS_SELECTED_MODULE_RELATIVE)"
proof -
  have base: "has_base (block_operations k)"
    using assms by (simp add: block_classified_def)
  then obtain p qs where ps: "block_operations k = p # qs" "selects_base p"
    by (cases "block_operations k") (auto simp: has_base_def)
  have relative: "s \<le> VC_PSV_TRANSLATION_MODULE_RELATIVE \<longleftrightarrow>
      s = VC_PSV_TRANSLATION_DIRECT_ONLY \<or> s = VC_PSV_TRANSLATION_MODULE_RELATIVE" for s
    by (cases s) (simp_all add: less_eq_vc_psv_translation_state_def)
  have tail: "writes q \<and> address_mode q = VC_PSV_ADDRESS_SELECTED_MODULE_RELATIVE" if "q \<in> set qs" for q
  proof -
    from that obtain i where i: "i < length qs" "q = qs ! i"
      unfolding in_set_conv_nth by blast
    then have "Suc i < length (block_operations k)" "q = block_operations k ! Suc i"
      by (simp_all add: ps)
    from classified_operation(2,3) [OF assms(1) this] base assms(3) ps show ?thesis
      by (auto simp: relative writes_state relative_state)
  qed
  have "qs \<noteq> []"
  proof
    assume "qs = []"
    with ps have "dangling_base (block_operations k)"
      using selects_not_writes by (simp add: dangling_base_def has_base_def)
    with assms(2,3) show False
      by (simp add: base_used_def)
  qed
  with ps tail show ?thesis
    by blast
qed

text \<open>C5. The translation states can be trusted. The operations of a cheat marked as direct are all writes
  to absolute addresses. The operations of a cheat marked as module relative are one selection of a module
  base, with a module serial of at most \<open>0xff\<close> and segment \<open>0\<close> or \<open>1\<close>, followed by at least one operation, and
  all those are writes relative to the selected module.\<close>

theorem psv_states_sound:
  assumes "vc_psv_parse a source b = (VC_PSV_STATUS_OK, b')" and "c < length (parsed_cheats b')"
  shows "(translation_state (parsed_cheats b' ! c) = VC_PSV_TRANSLATION_DIRECT_ONLY \<longrightarrow>
      (\<forall>p \<in> set (cheat_operations (parsed_operations b') (parsed_cheats b' ! c)).
        writes p \<and> address_mode p = VC_PSV_ADDRESS_ABSOLUTE)) \<and>
    (translation_state (parsed_cheats b' ! c) = VC_PSV_TRANSLATION_MODULE_RELATIVE \<longrightarrow>
      (\<exists>p qs. cheat_operations (parsed_operations b') (parsed_cheats b' ! c) = p # qs \<and> selects_base p \<and> qs \<noteq> [] \<and>
        (\<forall>q \<in> set qs. writes q \<and> address_mode q = VC_PSV_ADDRESS_SELECTED_MODULE_RELATIVE)))"
proof -
  from psv_ok_blocks [OF assms] obtain k where k: "k \<in> set (document_blocks (document source))"
    "cheat_operations (parsed_operations b') (parsed_cheats b' ! c) = block_operations k"
    "translation_state (parsed_cheats b' ! c) = block_state k"
    by (metis block_cheat_def vc_psv_cheat.select_convs(2))
  then have "block_classified k" "base_used k"
    using document_blocks_classified by blast+
  then show ?thesis
    using direct_block relative_block unfolding k by blast
qed

section \<open>What was read\<close>

lemma operation_kind_code:
  "operation_kind code = VC_PSV_OPERATION_WRITE_U8 \<longleftrightarrow> code = 0x0000"
  "operation_kind code = VC_PSV_OPERATION_WRITE_U16 \<longleftrightarrow> code = 0x0100"
  "operation_kind code = VC_PSV_OPERATION_WRITE_U32 \<longleftrightarrow> code = 0x0200"
  "operation_kind code = VC_PSV_OPERATION_SELECT_MODULE_BASE \<longleftrightarrow> code = 0xb200"
  "operation_kind code = VC_PSV_OPERATION_OPAQUE \<longleftrightarrow> code \<notin> {0x0000, 0x0100, 0x0200, 0xb200}"
  by (auto simp: operation_kind_def)

text \<open>C9. Everything a successful call returns says what the source says. Every line has the kind its text
  has (a malformed line holds a broken header or starts with a dollar sign). Every cheat has the activation
  its header line gives and its description span is the rest of that line. Every operation has the code,
  address and value written in its code line, and the kind of its code: \<open>0000\<close>, \<open>0100\<close> and \<open>0200\<close> write 8, 16
  and 32 bits, \<open>b200\<close> selects a module base, and every other code is opaque.\<close>

theorem psv_contents_decoded:
  assumes "vc_psv_parse a source b = (VC_PSV_STATUS_OK, b')"
    and "length source = unat (source_length a)"
  shows "(\<forall>l \<in> set (parsed_lines b'). line_says source l) \<and>
    (\<forall>k \<in> set (parsed_cheats b'). let t = line_text source (parsed_lines b' ! header_line_index k) in
       header_text (activation k) t \<and> span_text source (description k) = description_text t) \<and>
    (\<forall>p \<in> set (parsed_operations b').
       operation_says source (parsed_lines b') p \<and> operation_kind_of p = operation_kind (legacy_code p) \<and>
       (operation_kind_of p = VC_PSV_OPERATION_WRITE_U8 \<longleftrightarrow> legacy_code p = 0x0000) \<and>
       (operation_kind_of p = VC_PSV_OPERATION_WRITE_U16 \<longleftrightarrow> legacy_code p = 0x0100) \<and>
       (operation_kind_of p = VC_PSV_OPERATION_WRITE_U32 \<longleftrightarrow> legacy_code p = 0x0200) \<and>
       (operation_kind_of p = VC_PSV_OPERATION_SELECT_MODULE_BASE \<longleftrightarrow> legacy_code p = 0xb200) \<and>
       (operation_kind_of p = VC_PSV_OPERATION_OPAQUE \<longleftrightarrow>
         legacy_code p \<notin> {0x0000, 0x0100, 0x0200, 0xb200}))"
proof -
  let ?d = "document source"
  have small: "length source \<le> VC_PSV_MAX_SOURCE_BYTES"
    using psv_check_source [OF psv_parse_ok(1) [OF assms(1)]] assms(2) by simp
  note says = document_says_document [OF small, unfolded document_says_def]
  have "operation_says source (document_lines ?d) p \<and> operation_kind_of p = operation_kind (legacy_code p)"
    if "p \<in> set (all_operations ?d)" for p
  proof -
    from that obtain k where k: "k \<in> set (document_blocks ?d)" "p \<in> set (block_operations k)"
      by (auto simp: all_operations_def)
    then obtain i where "i < length (block_operations k)" "p = block_operations k ! i"
      by (auto simp: in_set_conv_nth)
    with k classified_operation(1) says document_blocks_classified [of source] show ?thesis
      unfolding block_says_def by blast
  qed
  moreover have "let t = line_text source (document_lines ?d ! header_line_index k) in
      header_text (activation k) t \<and> span_text source (description k) = description_text t"
    if "k \<in> set (flat_cheats 0 (document_blocks ?d))" for k
  proof -
    from that obtain c where "c < length (document_blocks ?d)" "k = flat_cheats 0 (document_blocks ?d) ! c"
      by (auto simp: in_set_conv_nth)
    with says show ?thesis
      by (simp add: nth_flat_cheats block_cheat_def block_says_def Let_def)
  qed
  ultimately show ?thesis
    using says by (simp add: psv_ok [OF assms(1) assms(1)] operation_kind_code)
qed

lemma filter_flat_cheats:
  "(\<And>n k. P (block_cheat n k) \<longleftrightarrow> Q k) \<Longrightarrow> length (filter P (flat_cheats n bs)) = length (filter Q bs)"
proof (induction bs arbitrary: n)
  case (Cons k bs)
  then have "P (block_cheat n k) \<longleftrightarrow> Q k"
    by blast
  with Cons show ?case
    by (simp add: block_cheat_def)
qed simp

text \<open>
  The invalid sequences of a cheat: every selection of a module base that is not its first operation or has a
  serial or segment out of range, and one more when a base is selected and nothing is written with it.
\<close>

definition bad_selections :: "vc_psv_operation list \<Rightarrow> nat" where
  "bad_selections ps =
     length (filter (\<lambda>i. operation_kind_of (ps ! i) = VC_PSV_OPERATION_SELECT_MODULE_BASE \<and>
       \<not> (i = 0 \<and> operation_address (ps ! i) \<le> 0xff \<and> operation_value (ps ! i) \<le> 1)) [0..<length ps])"

definition invalid_sequences :: "vc_psv_operation list \<Rightarrow> nat" where
  "invalid_sequences ps = bad_selections ps +
     (if ps \<noteq> [] \<and> selects_base (hd ps) \<and> (\<forall>p \<in> set ps. \<not> writes p) then 1 else 0)"

lemma bad_selections_Nil [simp]: "bad_selections [] = 0"
  by (simp add: bad_selections_def)

lemma bad_selections_snoc:
  "bad_selections (ps @ [p]) =
    bad_selections ps + (if operation_state ps p = VC_PSV_TRANSLATION_MALFORMED then 1 else 0)"
proof -
  have "filter (\<lambda>i. operation_kind_of ((ps @ [p]) ! i) = VC_PSV_OPERATION_SELECT_MODULE_BASE \<and>
      \<not> (i = 0 \<and> operation_address ((ps @ [p]) ! i) \<le> 0xff \<and> operation_value ((ps @ [p]) ! i) \<le> 1)) [0..<length ps] =
    filter (\<lambda>i. operation_kind_of (ps ! i) = VC_PSV_OPERATION_SELECT_MODULE_BASE \<and>
      \<not> (i = 0 \<and> operation_address (ps ! i) \<le> 0xff \<and> operation_value (ps ! i) \<le> 1)) [0..<length ps]"
    by (intro filter_cong) (simp_all add: nth_append)
  then show ?thesis
    by (auto simp: bad_selections_def operation_state_def selects_base_def)
qed

lemma invalid_sequences_dangling:
  "invalid_sequences ps = bad_selections ps + (if dangling_base ps then 1 else 0)"
  by (simp add: invalid_sequences_def dangling_base_def has_base_def)

text \<open>The document counts the invalid sequences of its closed blocks, and so far those of the open one.\<close>

definition invalid_counted :: "psv_document \<Rightarrow> bool" where
  "invalid_counted d \<longleftrightarrow> open_ok d \<and>
     document_invalid d = sum_list (map (invalid_sequences \<circ> block_operations) (closed_blocks d)) +
       bad_selections (open_operations d)"

lemma invalid_counted_line [simp]: "invalid_counted (add_line l d) = invalid_counted d"
  by (simp add: invalid_counted_def)

lemma invalid_counted_taint: "invalid_counted d \<Longrightarrow> invalid_counted (taint state d)"
  by (simp add: invalid_counted_def) (simp add: taint_def update_open_def open_operations_def)

lemma invalid_counted_malformed: "invalid_counted d \<Longrightarrow> invalid_counted (document_malformed x d)"
  by (simp add: document_malformed_def invalid_counted_taint)

lemma invalid_close:
  assumes "invalid_counted d"
  shows "document_invalid (close_block d) =
    sum_list (map invalid_sequences (map block_operations (document_blocks (close_block d))))"
proof (cases "document_open d")
  case True
  with assms obtain bs k where "document_blocks d = bs @ [k]"
    using open_blocks [of d] unfolding invalid_counted_def by blast
  with True assms show ?thesis
    by (simp add: invalid_counted_def closed_blocks_def open_operations_def close_block_def taint_def
        update_open_def invalid_sequences_dangling)
next
  case False
  with assms show ?thesis
    by (simp add: invalid_counted_def closed_blocks_def open_operations_def close_block_def
        dangling_base_def has_base_def)
qed

lemma invalid_counted_step:
  assumes "invalid_counted d"
  shows "invalid_counted (document_step d x)"
proof (cases "item x")
  case (Item_Header act start stop)
  have "open_ok d"
    using assms by (simp add: invalid_counted_def)
  with Item_Header invalid_close [OF assms] show ?thesis
    by (simp add: document_step_def Let_def invalid_counted_def closed_blocks_def open_operations_def)
      (simp add: open_ok_def)
next
  case Item_Bad_Header
  have ok: "open_ok (close_block d)"
    using assms by (simp add: invalid_counted_def)
  have invalid: "document_invalid (taint st (close_block d)) = document_invalid (close_block d)" for st
    by (simp add: taint_def update_open_def)
  with Item_Bad_Header invalid_close [OF assms] taint_skeleton(2) [OF ok] ok show ?thesis
    by (simp add: document_step_def document_malformed_def invalid_counted_def closed_blocks_def
        open_operations_def open_ok_def add_line_def flip: map_map)
next
  case (Item_Code code address val)
  have "invalid_counted (document_code x code address val d)" if "document_open d"
  proof -
    obtain bs k where "document_blocks d = bs @ [k]"
      using open_blocks [of d] assms \<open>document_open d\<close> unfolding invalid_counted_def by blast
    with that assms show ?thesis
      by (simp add: document_code_def Let_def invalid_counted_def update_open_def closed_blocks_def
          open_operations_def open_ok_def bad_selections_snoc)
  qed
  with Item_Code assms show ?thesis
    by (simp add: document_step_def invalid_counted_malformed)
qed (use assms in \<open>simp_all add: document_step_def invalid_counted_taint invalid_counted_malformed\<close>)

interpretation psv_invalid: invariant_machine document_step invalid_counted
  by unfold_locales (rule invalid_counted_step)

lemma document_invalid_sequences:
  "document_invalid (document source) =
    sum_list (map invalid_sequences (map block_operations (document_blocks (document source))))"
  unfolding document_def
  by (intro invalid_close psv_invalid.inv_run)
    (simp add: invalid_counted_def empty_document_def open_ok_def closed_blocks_def open_operations_def)

lemma flat_cheat_operation_lists:
  "map (cheat_operations (concat (map block_operations bs))) (flat_cheats 0 bs) = map block_operations bs"
  by (rule nth_equalityI) (simp_all add: flat_cheat_operations)

text \<open>C30. Every counter of a report counts what the arrays hold. Every stored count is the total. The report
  counts the malformed lines, the opaque operations, the cheats that are not direct, the invalid operation
  sequences of the cheats (selections of a module base that are not first or out of range, and bases that no
  write follows), and the violations of the limits of the old plugin: descriptions over 65 bytes, cheats
  with more than 200 operations, and one more if there are over 50 cheats.\<close>

theorem psv_report_counts:
  assumes "vc_psv_parse a source b = (VC_PSV_STATUS_OK, b')"
    and "length source = unat (source_length a)"
  shows "let r = report_buffer b'; ls = parsed_lines b'; cs = parsed_cheats b'; ps = parsed_operations b' in
    schema_version r = 2 \<and> source_size r = length source \<and>
    total_lines r = stored_lines r \<and> total_cheats r = stored_cheats r \<and>
    total_operations r = stored_operations r \<and>
    length ls = stored_lines r \<and> length cs = stored_cheats r \<and> length ps = stored_operations r \<and>
    malformed_lines r = length (filter (\<lambda>l. line_kind l = VC_PSV_LINE_MALFORMED) ls) \<and>
    unsupported_operations r = length (filter (\<lambda>p. operation_kind_of p = VC_PSV_OPERATION_OPAQUE) ps) \<and>
    non_direct_cheats r = length (filter (\<lambda>k. translation_state k \<noteq> VC_PSV_TRANSLATION_DIRECT_ONLY) cs) \<and>
    invalid_operation_sequences r = sum_list (map (\<lambda>k. invalid_sequences (cheat_operations ps k)) cs) \<and>
    legacy_limit_violations r =
      length (filter (\<lambda>k. unat (span_length (description k)) > 65) cs) +
      (if length cs > 50 then 1 else 0) + length (filter (\<lambda>k. operation_count k > 200) cs)"
proof -
  let ?d = "document source"
  have small: "length source \<le> VC_PSV_MAX_SOURCE_BYTES"
    using psv_check_source [OF psv_parse_ok(1) [OF assms(1)]] assms(2) by simp
  note says = document_says_document [OF small, unfolded document_says_def]
  have state: "length (filter (\<lambda>k. translation_state k \<noteq> VC_PSV_TRANSLATION_DIRECT_ONLY) (flat_cheats 0 bs)) =
      length (filter (\<lambda>k. block_state k \<noteq> VC_PSV_TRANSLATION_DIRECT_ONLY) bs)" for bs
    by (rule filter_flat_cheats) (simp add: block_cheat_def)
  have count: "length (filter (\<lambda>k. operation_count k > 200) (flat_cheats 0 bs)) =
      length (filter (\<lambda>k. length (block_operations k) > VC_PSV_LEGACY_MAX_CODES_PER_CHEAT) bs)" for bs
    by (rule filter_flat_cheats) (simp add: block_cheat_def VC_PSV_LEGACY_MAX_CODES_PER_CHEAT_def)
  have "length (filter (\<lambda>k. unat (span_length (description k)) > 65) (flat_cheats 0 bs)) =
      length (filter (\<lambda>k. unat (span_length (block_description k)) > VC_PSV_LEGACY_MAX_DESCRIPTION_BYTES) bs)" for bs
    by (rule filter_flat_cheats) (simp add: block_cheat_def VC_PSV_LEGACY_MAX_DESCRIPTION_BYTES_def)
  moreover have "filter (\<lambda>k. unat (span_length (block_description k)) > VC_PSV_LEGACY_MAX_DESCRIPTION_BYTES)
      (document_blocks ?d) = filter block_long (document_blocks ?d)"
    using says by (intro filter_cong) (simp_all add: block_says_def)
  ultimately have long: "length (filter (\<lambda>k. unat (span_length (description k)) > 65)
      (flat_cheats 0 (document_blocks ?d))) = length (filter block_long (document_blocks ?d))"
    by simp
  have "map (\<lambda>k. invalid_sequences (cheat_operations (all_operations ?d) k)) (flat_cheats 0 (document_blocks ?d)) =
      map invalid_sequences (map (cheat_operations (all_operations ?d)) (flat_cheats 0 (document_blocks ?d)))"
    by simp
  then have invalid: "sum_list (map (\<lambda>k. invalid_sequences (cheat_operations (all_operations ?d) k))
      (flat_cheats 0 (document_blocks ?d))) = document_invalid ?d"
    by (simp only: all_operations_def flat_cheat_operation_lists document_invalid_sequences)
  show ?thesis
    unfolding Let_def psv_ok [OF assms(1) assms(1)] state count long invalid
    by (simp add: document_report_def VC_PSV_IMPORT_SCHEMA_VERSION_def VC_PSV_LEGACY_MAX_CHEATS_def)
qed

section \<open>Bounds\<close>

lemma linked_bound:
  "linked ls hs pss \<Longrightarrow>
    length hs + length (concat pss) + length (filter (\<lambda>l. line_kind l = VC_PSV_LINE_MALFORMED) ls) \<le> length ls"
  by (induction rule: linked.induct) auto

text \<open>Every invalid sequence is an operation or the base of a closed block.\<close>

definition document_bounded :: "psv_document \<Rightarrow> bool" where
  "document_bounded d \<longleftrightarrow> open_ok d \<and>
     document_invalid d \<le> length (closed_blocks d) + length (all_operations d)"

lemma all_operations_taint: "open_ok d \<Longrightarrow> all_operations (taint state d) = all_operations d"
  by (simp add: all_operations_def taint_skeleton)

lemma bounded_taint: "document_bounded d \<Longrightarrow> document_bounded (taint state d)"
  by (simp add: document_bounded_def all_operations_taint) (simp add: taint_def update_open_def)

lemma bounded_line: "document_bounded (add_line l d) \<longleftrightarrow> document_bounded d"
  by (simp add: document_bounded_def)

lemma bounded_close:
  assumes "document_bounded d"
  shows "open_ok (close_block d)" "length (document_blocks (close_block d)) = length (document_blocks d)"
    "all_operations (close_block d) = all_operations d"
    "document_invalid (close_block d) \<le> length (document_blocks d) + length (all_operations d)"
proof -
  have ok: "open_ok d"
    using assms by (simp add: document_bounded_def)
  then show "open_ok (close_block d)"
    by simp
  show "length (document_blocks (close_block d)) = length (document_blocks d)"
    using close_skeleton(1) [OF ok, THEN map_eq_imp_length_eq] .
  show "all_operations (close_block d) = all_operations d"
    by (simp add: all_operations_def close_skeleton ok)
  have "dangling_base (open_operations d) \<Longrightarrow> length (document_blocks d) = Suc (length (closed_blocks d))"
    using ok by (auto simp: open_operations_def dangling_base_def has_base_def closed_blocks_def open_ok_def
        split: if_splits)
  moreover have "length (closed_blocks d) \<le> length (document_blocks d)"
    by (simp add: closed_blocks_def)
  ultimately show "document_invalid (close_block d) \<le> length (document_blocks d) + length (all_operations d)"
    using assms by (auto simp: close_block_def taint_def update_open_def document_bounded_def)
qed

lemma bounded_malformed: "document_bounded d \<Longrightarrow> document_bounded (document_malformed x d)"
  by (simp add: document_malformed_def bounded_line bounded_taint)

lemma bounded_step:
  assumes "document_bounded d"
  shows "document_bounded (document_step d x)"
proof (cases "item x")
  case (Item_Header act start stop)
  with bounded_close [OF assms] show ?thesis
    by (simp add: document_step_def Let_def document_bounded_def closed_blocks_def open_ok_def)
      (simp add: all_operations_def)
next
  case Item_Bad_Header
  have "open_ok (taint st (close_block d))" "document_invalid (taint st (close_block d)) = document_invalid (close_block d)"
    "length (document_blocks (taint st (close_block d))) = length (document_blocks d)"
    "all_operations (taint st (close_block d)) = all_operations d" for st
    using bounded_close [OF assms] by (simp_all add: taint_skeleton all_operations_taint)
      (simp add: taint_def update_open_def)
  with Item_Bad_Header bounded_close(4) [OF assms] show ?thesis
    by (simp add: document_step_def document_malformed_def document_bounded_def closed_blocks_def
        all_operations_def)
next
  case (Item_Code code address val)
  have "document_bounded (document_code x code address val d)" if "document_open d"
  proof -
    obtain bs k where "document_blocks d = bs @ [k]"
      using open_blocks [of d] assms \<open>document_open d\<close> unfolding document_bounded_def by blast
    with that assms show ?thesis
      by (auto simp: document_code_def Let_def document_bounded_def update_open_def all_operations_def
          closed_blocks_def open_ok_def)
  qed
  with Item_Code assms show ?thesis
    by (simp add: document_step_def bounded_malformed)
qed (use assms in \<open>simp_all add: document_step_def bounded_line bounded_taint bounded_malformed\<close>)

interpretation psv_bounds: invariant_machine document_step document_bounded
  by unfold_locales (rule bounded_step)

lemma document_invalid_bound:
  "document_invalid (document source) \<le>
    length (document_blocks (document source)) + length (all_operations (document source))"
proof -
  let ?d = "foldl document_step empty_document (source_lines source 0 0)"
  have "document_bounded ?d"
    by (rule psv_bounds.inv_run) (simp add: document_bounded_def empty_document_def open_ok_def)
  from bounded_close [OF this] show ?thesis
    by (simp add: document_def)
qed

lemma document_lines_bound: "length (document_lines (document source)) \<le> length source"
proof -
  have "length (document_lines (document source)) = length (source_lines source 0 0)"
    using raw_document [of source, THEN map_eq_imp_length_eq] .
  with tiles_le [OF source_lines_tile, of 0 source 0] show ?thesis
    by simp
qed

lemma filters_bound:
  "length (filter P xs) + length (filter Q xs) \<le> 2 * length xs"
  using length_filter_le [of P xs] length_filter_le [of Q xs] by linarith

text \<open>C31. No counter overflows. Whatever the arrays, every counter of the report of a call that parsed its
  source is bounded by the source: lines by its bytes, cheats, operations and malformed lines together by the
  lines, the others by those; the stored counts are the totals, within the capacities, or zero if the call is
  truncated. On a 32-bit or 64-bit target they all stay below \<^verbatim>\<open>SIZE_MAX\<close>, which is
  also \<^verbatim>\<open>VC_PSV_NO_INDEX\<close>.\<close>

theorem psv_counters_bounded:
  fixes a :: "('s::len, 'x) psv_args_scheme"
  assumes "supported_target TYPE('s)" and "vc_psv_parse a source b = (status, b')"
    and "status \<in> {VC_PSV_STATUS_OK, VC_PSV_STATUS_TRUNCATED}" and "length source = unat (source_length a)"
  shows "let r = report_buffer b' in
    total_lines r \<le> length source \<and>
    total_cheats r + total_operations r + malformed_lines r \<le> total_lines r \<and>
    unsupported_operations r \<le> total_operations r \<and> non_direct_cheats r \<le> total_cheats r \<and>
    invalid_operation_sequences r \<le> total_cheats r + total_operations r \<and>
    legacy_limit_violations r \<le> 2 * total_cheats r + 1 \<and>
    stored_lines r = (if status = VC_PSV_STATUS_OK then total_lines r else 0) \<and>
    stored_cheats r = (if status = VC_PSV_STATUS_OK then total_cheats r else 0) \<and>
    stored_operations r = (if status = VC_PSV_STATUS_OK then total_operations r else 0) \<and>
    stored_lines r \<le> length (line_buffer b) \<and> stored_cheats r \<le> length (cheat_buffer b) \<and>
    stored_operations r \<le> length (operation_buffer b) \<and>
    2 * length source + 1 < unat (- 1 :: 's word)"
proof -
  let ?d = "document source"
  let ?r = "document_report source ?d"
  have accepted: "psv_check_arguments a = None"
    using assms(2,3) psv_parse_ok(1) psv_parse_truncated(1) by blast
  have "length source \<le> 2 ^ 20"
    using psv_check_source [OF accepted] assms(4) by (simp add: VC_PSV_MAX_SOURCE_BYTES_def)
  moreover have "(2::nat) ^ 32 \<le> 2 ^ LENGTH('s)"
    using supported_targetD(1) [OF assms(1)] by (rule power_increasing) simp
  ultimately have room: "2 * length source + 1 < unat (- 1 :: 's word)"
    by (simp add: word_max_unat)
  have ok: "document_fits ?d b" "report_buffer b' = ?r\<lparr>stored_lines := length (document_lines ?d),
      stored_cheats := length (document_blocks ?d), stored_operations := length (all_operations ?d)\<rparr>"
    if "status = VC_PSV_STATUS_OK"
    using psv_parse_ok(2) psv_ok(4) assms(2) unfolding that by blast+
  have cut: "report_buffer b' = ?r" if "status = VC_PSV_STATUS_TRUNCATED"
    using assms(2) psv_parse_truncated(3) unfolding that by (fastforce simp: cleared_buffers_def document_report_def)
  obtain n1 n2 n3 where r: "report_buffer b' = ?r\<lparr>stored_lines := n1, stored_cheats := n2, stored_operations := n3\<rparr>"
      "n1 = (if status = VC_PSV_STATUS_OK then length (document_lines ?d) else 0)"
      "n2 = (if status = VC_PSV_STATUS_OK then length (document_blocks ?d) else 0)"
      "n3 = (if status = VC_PSV_STATUS_OK then length (all_operations ?d) else 0)"
      "n1 \<le> length (line_buffer b)" "n2 \<le> length (cheat_buffer b)" "n3 \<le> length (operation_buffer b)"
    using assms(3) ok cut by (fastforce simp: document_fits_def document_report_def)
  have "length (document_blocks ?d) + length (all_operations ?d) +
      length (filter (\<lambda>l. line_kind l = VC_PSV_LINE_MALFORMED) (document_lines ?d)) \<le> length (document_lines ?d)"
    using linked_bound document_linked_document [of source]
    by (fastforce simp: document_linked_def all_operations_def)
  then show ?thesis
    using room filters_bound [of block_long "document_blocks ?d" "\<lambda>b. VC_PSV_LEGACY_MAX_CODES_PER_CHEAT < length (block_operations b)"]
      document_lines_bound [of source] document_invalid_bound [of source] r(2-7)
    by (cases "status = VC_PSV_STATUS_OK") (simp_all add: r(1) Let_def document_report_def)
qed

section \<open>Arguments\<close>

text \<open>What the parser requires of its arguments: the pointers, the sizes and the placement of the arrays.\<close>

definition psv_pointers :: "('s::len, 'x) psv_args_scheme \<Rightarrow> bool" where
  "psv_pointers a \<longleftrightarrow>
     report_address a \<noteq> 0 \<and> (source_address a = 0 \<longrightarrow> source_length a = 0) \<and>
     (lines_address a = 0 \<longrightarrow> line_capacity a = 0) \<and> (cheats_address a = 0 \<longrightarrow> cheat_capacity a = 0) \<and>
     (operations_address a = 0 \<longrightarrow> operation_capacity a = 0)"

text \<open>The four objects of a call besides the source, as pairs of an address and a number of bytes.\<close>

definition psv_ranges :: "('s::len, 'x) psv_args_scheme \<Rightarrow> ('s word \<times> nat) list" where
  "psv_ranges a =
     [(source_address a, unat (source_length a)),
      (lines_address a, unat (line_capacity a) * unat (sizeof_line a)),
      (cheats_address a, unat (cheat_capacity a) * unat (sizeof_cheat a)),
      (operations_address a, unat (operation_capacity a) * unat (sizeof_operation a)),
      (report_address a, unat (sizeof_report a))]"

definition psv_placed :: "('s::len, 'x) psv_args_scheme \<Rightarrow> bool" where
  "psv_placed a \<longleftrightarrow>
     (\<forall>(p, n) \<in> set (psv_ranges a). n < 2 ^ LENGTH('s)) \<and>
     sorted_wrt (\<lambda>(p, n) (q, k). apart p n q k) (psv_ranges a)"

lemma psv_apart: "ranges_overlap l ls r rs \<longleftrightarrow> \<not> apart l (unat ls) r (unat rs)"
  using not_overlap_iff_apart [of l ls r rs] unfolding ranges_overlap_eq by blast

lemma multiply_cases:
  fixes a b :: "'s::len word"
  obtains (wraps) "multiply_size a b = None" "2 ^ LENGTH('s) \<le> unat a * unat b"
  | (fits) c where "multiply_size a b = Some c" "unat a * unat b < 2 ^ LENGTH('s)" "unat c = unat a * unat b"
proof (cases "multiply_size a b")
  case None
  with psv_guard.mult_None_iff [of a b] wraps show ?thesis
    by simp
next
  case (Some c)
  with psv_guard.mult_iff [of a b c] psv_guard.mult_Some_iff [of a b c] fits show ?thesis
    by simp
qed

lemma unat_lt: "unat (w :: 's::len word) < 2 ^ LENGTH('s)"
  by (rule unsigned_less)

text \<open>C29. The argument check is exact. A call is rejected as invalid when a pointer is null that must not be,
  or when the source is not too long and an array's size overflows, reaches the end of the address space or
  shares a byte with another object; it is rejected as too large when the pointers are valid and the source
  is longer than 1 MiB; every other call is parsed.\<close>

theorem psv_arguments_exact:
  "psv_check_arguments a =
    (if \<not> psv_pointers a then Some VC_PSV_STATUS_INVALID_ARGUMENT
     else if unat (source_length a) > 2 ^ 20 then Some VC_PSV_STATUS_SOURCE_TOO_LARGE
     else if \<not> psv_placed a then Some VC_PSV_STATUS_INVALID_ARGUMENT
     else None)"
  (is "_ = (if _ then _ else if _ then _ else ?tail)")
proof -
  have pointers: "report_address a = 0 \<or> (source_address a = 0 \<and> source_length a \<noteq> 0) \<or>
      (lines_address a = 0 \<and> line_capacity a \<noteq> 0) \<or> (cheats_address a = 0 \<and> cheat_capacity a \<noteq> 0) \<or>
      (operations_address a = 0 \<and> operation_capacity a \<noteq> 0) \<longleftrightarrow> \<not> psv_pointers a"
    by (auto simp: psv_pointers_def)
  have placed: "(case (multiply_size (line_capacity a) (sizeof_line a),
              multiply_size (cheat_capacity a) (sizeof_cheat a),
              multiply_size (operation_capacity a) (sizeof_operation a)) of
          (Some line_bytes, Some cheat_bytes, Some operation_bytes) \<Rightarrow>
            if ranges_overlap (source_address a) (source_length a) (lines_address a) line_bytes \<or>
               ranges_overlap (source_address a) (source_length a) (cheats_address a) cheat_bytes \<or>
               ranges_overlap (source_address a) (source_length a) (operations_address a) operation_bytes \<or>
               ranges_overlap (source_address a) (source_length a) (report_address a) (sizeof_report a) \<or>
               ranges_overlap (lines_address a) line_bytes (cheats_address a) cheat_bytes \<or>
               ranges_overlap (lines_address a) line_bytes (operations_address a) operation_bytes \<or>
               ranges_overlap (lines_address a) line_bytes (report_address a) (sizeof_report a) \<or>
               ranges_overlap (cheats_address a) cheat_bytes (operations_address a) operation_bytes \<or>
               ranges_overlap (cheats_address a) cheat_bytes (report_address a) (sizeof_report a) \<or>
               ranges_overlap (operations_address a) operation_bytes (report_address a) (sizeof_report a)
            then Some VC_PSV_STATUS_INVALID_ARGUMENT
            else None
        | _ \<Rightarrow> Some VC_PSV_STATUS_INVALID_ARGUMENT) = ?tail"
    by (cases "line_capacity a" "sizeof_line a" rule: multiply_cases;
        cases "cheat_capacity a" "sizeof_cheat a" rule: multiply_cases;
        cases "operation_capacity a" "sizeof_operation a" rule: multiply_cases)
      (simp_all add: psv_placed_def psv_ranges_def unat_lt psv_apart)
  show ?thesis
    unfolding psv_check_arguments_def pointers placed VC_PSV_MAX_SOURCE_BYTES_def by simp
qed

section \<open>A sample call\<close>

definition sample_psv_source :: "uint8_t list" where
  "sample_psv_source =
     map ascii ''_V1 Lives'' @ [13, 10] @ map ascii ''$B200 00000001 00000000'' @ [10] @
     map ascii ''$0200 0000F000 00000063'' @ [10] @ map ascii ''# end''"

definition sample_psv_args :: "32 psv_args" where
  "sample_psv_args =
     \<lparr>source_address = 0x1000, source_length = 64, lines_address = 0x2000, line_capacity = 4,
      cheats_address = 0x3000, cheat_capacity = 1, operations_address = 0x4000,
      operation_capacity = 2, report_address = 0x5000, sizeof_line = 28, sizeof_cheat = 28,
      sizeof_operation = 28, sizeof_report = 52\<rparr>"

text \<open>Arrays as the caller finds them, with room for some lines, one cheat and two operations.\<close>

definition sample_psv_buffers :: "nat \<Rightarrow> psv_buffers" where
  "sample_psv_buffers n =
     \<lparr>line_buffer = replicate n zero_line, cheat_buffer = [zero_cheat],
      operation_buffer = replicate 2 zero_operation, report_buffer = zero_report\<rparr>"

lemma sample_psv_accepted: "psv_check_arguments sample_psv_args = None"
  by (simp add: psv_check_arguments_def sample_psv_args_def multiply_size_def ranges_overlap_def
      VC_PSV_MAX_SOURCE_BYTES_def)

lemma sample_psv_length: "length sample_psv_source = 64" "unat (source_length sample_psv_args) = 64"
  by code_simp+

lemma sample_psv_document:
  "(let d = document sample_psv_source in
     (map line_kind (document_lines d), map block_state (document_blocks d),
      map (map operation_kind_of) (map block_operations (document_blocks d)))) =
   ([VC_PSV_LINE_CHEAT_HEADER, VC_PSV_LINE_CODE, VC_PSV_LINE_CODE, VC_PSV_LINE_COMMENT],
    [VC_PSV_TRANSLATION_MODULE_RELATIVE],
    [[VC_PSV_OPERATION_SELECT_MODULE_BASE, VC_PSV_OPERATION_WRITE_U32]])"
  by code_simp

lemma sample_psv_lengths:
  "length (document_lines (document sample_psv_source)) = 4"
  "length (document_blocks (document sample_psv_source)) = 1"
  "length (all_operations (document sample_psv_source)) = 2"
proof -
  let ?d = "document sample_psv_source"
  note parts = sample_psv_document [unfolded Let_def prod.inject]
  show "length (document_lines ?d) = 4" "length (document_blocks ?d) = 1"
    using arg_cong [OF conjunct1 [OF parts], of length]
      arg_cong [OF conjunct1 [OF conjunct2 [OF parts]], of length] by simp_all
  show "length (all_operations ?d) = 2"
    using arg_cong [OF conjunct2 [OF conjunct2 [OF parts]], of "\<lambda>xs. length (concat xs)"]
    by (simp add: all_operations_def length_concat o_def)
qed

lemma sample_psv_fits: "document_fits (document sample_psv_source) (sample_psv_buffers n) \<longleftrightarrow> 4 \<le> n"
  by (simp add: document_fits_def sample_psv_lengths) (simp add: sample_psv_buffers_def)

lemma sample_psv_run:
  "4 \<le> n \<Longrightarrow> vc_psv_parse sample_psv_args sample_psv_source (sample_psv_buffers n) =
    (VC_PSV_STATUS_OK, written_buffers sample_psv_source (document sample_psv_source) (sample_psv_buffers n))"
  "n < 4 \<Longrightarrow> vc_psv_parse sample_psv_args sample_psv_source (sample_psv_buffers n) =
    (VC_PSV_STATUS_TRUNCATED, cleared_buffers sample_psv_source (document sample_psv_source) (sample_psv_buffers n))"
  by (simp_all add: vc_psv_parse_def psv_run_document sample_psv_accepted sample_psv_fits)

theorem psv_lines_reconstruct_witness:
  "\<exists>b'. vc_psv_parse sample_psv_args sample_psv_source (sample_psv_buffers 4) = (VC_PSV_STATUS_OK, b') \<and>
    concat (map (\<lambda>l. span_text sample_psv_source (raw l)) (parsed_lines b')) = sample_psv_source"
proof -
  have run: "vc_psv_parse sample_psv_args sample_psv_source (sample_psv_buffers 4) =
      (VC_PSV_STATUS_OK, written_buffers sample_psv_source (document sample_psv_source) (sample_psv_buffers 4))"
    by (rule sample_psv_run) simp
  then show ?thesis
    using psv_lines_reconstruct [OF run] sample_psv_length by simp
qed

theorem psv_retry_succeeds_witness:
  "\<exists>b3. vc_psv_parse sample_psv_args sample_psv_source (sample_psv_buffers 4) = (VC_PSV_STATUS_OK, b3) \<and>
    stored_lines (report_buffer b3) = 4"
proof -
  have run: "vc_psv_parse sample_psv_args sample_psv_source (sample_psv_buffers 3) =
      (VC_PSV_STATUS_TRUNCATED, cleared_buffers sample_psv_source (document sample_psv_source) (sample_psv_buffers 3))"
    by (rule sample_psv_run) simp
  have totals: "total_lines (report_buffer (cleared_buffers sample_psv_source (document sample_psv_source) b)) = 4"
    "total_cheats (report_buffer (cleared_buffers sample_psv_source (document sample_psv_source) b)) = 1"
    "total_operations (report_buffer (cleared_buffers sample_psv_source (document sample_psv_source) b)) = 2" for b
    by (simp_all add: cleared_buffers_def document_report_def sample_psv_lengths)
  have room: "length (line_buffer (sample_psv_buffers 4)) = 4" "length (cheat_buffer (sample_psv_buffers 4)) = 1"
    "length (operation_buffer (sample_psv_buffers 4)) = 2"
    by (simp_all add: sample_psv_buffers_def)
  show ?thesis
    using psv_retry_succeeds [OF run sample_psv_accepted, of "sample_psv_buffers 4"] totals room by auto
qed

theorem psv_truncated_discards_witness:
  "\<exists>b1. vc_psv_parse sample_psv_args sample_psv_source (sample_psv_buffers 3) = (VC_PSV_STATUS_TRUNCATED, b1) \<and>
    parsed_lines b1 = [] \<and> parsed_operations b1 = []"
proof -
  have run: "vc_psv_parse sample_psv_args sample_psv_source (sample_psv_buffers 3) =
      (VC_PSV_STATUS_TRUNCATED, cleared_buffers sample_psv_source (document sample_psv_source) (sample_psv_buffers 3))"
    by (rule sample_psv_run) simp
  then show ?thesis
    using psv_truncated_discards [OF run] by blast
qed

abbreviation sample_psv_result :: psv_buffers where
  "sample_psv_result \<equiv>
     written_buffers sample_psv_source (document sample_psv_source) (sample_psv_buffers 4)"

lemma sample_psv_ok:
  "vc_psv_parse sample_psv_args sample_psv_source (sample_psv_buffers 4) = (VC_PSV_STATUS_OK, sample_psv_result)"
  by (rule sample_psv_run) simp

lemma sample_psv_parsed:
  "length (parsed_lines sample_psv_result) = 4" "length (parsed_cheats sample_psv_result) = 1"
  "length (parsed_operations sample_psv_result) = 2"
  "map line_kind (parsed_lines sample_psv_result) =
    [VC_PSV_LINE_CHEAT_HEADER, VC_PSV_LINE_CODE, VC_PSV_LINE_CODE, VC_PSV_LINE_COMMENT]"
  "map translation_state (parsed_cheats sample_psv_result) = [VC_PSV_TRANSLATION_MODULE_RELATIVE]"
proof -
  have state: "map translation_state (flat_cheats n bs) = map block_state bs" for n bs
    by (induction bs arbitrary: n) simp_all
  show "length (parsed_lines sample_psv_result) = 4" "length (parsed_cheats sample_psv_result) = 1"
    "length (parsed_operations sample_psv_result) = 2"
    "map line_kind (parsed_lines sample_psv_result) =
      [VC_PSV_LINE_CHEAT_HEADER, VC_PSV_LINE_CODE, VC_PSV_LINE_CODE, VC_PSV_LINE_COMMENT]"
    "map translation_state (parsed_cheats sample_psv_result) = [VC_PSV_TRANSLATION_MODULE_RELATIVE]"
    using sample_psv_document [unfolded Let_def prod.inject]
    by (simp_all add: psv_ok [OF sample_psv_ok sample_psv_ok] sample_psv_lengths state)
qed

theorem psv_indices_consistent_witness:
  "indices_consistent (parsed_lines sample_psv_result) (parsed_cheats sample_psv_result)
     (parsed_operations sample_psv_result) \<and>
   length (parsed_operations sample_psv_result) = 2"
  using psv_indices_consistent [OF sample_psv_ok] by (simp add: sample_psv_parsed)

theorem psv_states_sound_witness:
  "\<exists>p qs. cheat_operations (parsed_operations sample_psv_result) (parsed_cheats sample_psv_result ! 0) = p # qs \<and>
    selects_base p \<and> writes (hd qs) \<and> address_mode (hd qs) = VC_PSV_ADDRESS_SELECTED_MODULE_RELATIVE"
proof -
  have "translation_state (parsed_cheats sample_psv_result ! 0) = VC_PSV_TRANSLATION_MODULE_RELATIVE"
    using arg_cong [OF sample_psv_parsed(5), of "\<lambda>xs. xs ! 0"] sample_psv_parsed(2) by simp
  then show ?thesis
    using psv_states_sound [OF sample_psv_ok, of 0] sample_psv_parsed(2) by (auto dest: hd_in_set)
qed

theorem psv_contents_decoded_witness:
  "operation_says sample_psv_source (parsed_lines sample_psv_result) (parsed_operations sample_psv_result ! 1)"
  using psv_contents_decoded [OF sample_psv_ok] sample_psv_length sample_psv_parsed(3) by simp

theorem psv_report_counts_witness:
  "malformed_lines (report_buffer sample_psv_result) = 0 \<and>
   non_direct_cheats (report_buffer sample_psv_result) = 1"
proof -
  have "length (filter (\<lambda>l. line_kind l = VC_PSV_LINE_MALFORMED) (parsed_lines sample_psv_result)) =
      length (filter (\<lambda>k. k = VC_PSV_LINE_MALFORMED) (map line_kind (parsed_lines sample_psv_result)))"
    "length (filter (\<lambda>k. translation_state k \<noteq> VC_PSV_TRANSLATION_DIRECT_ONLY) (parsed_cheats sample_psv_result)) =
      length (filter (\<lambda>s. s \<noteq> VC_PSV_TRANSLATION_DIRECT_ONLY)
        (map translation_state (parsed_cheats sample_psv_result)))"
    by (simp_all only: filter_map length_map o_def)
  then have "length (filter (\<lambda>l. line_kind l = VC_PSV_LINE_MALFORMED) (parsed_lines sample_psv_result)) = 0"
    "length (filter (\<lambda>k. translation_state k \<noteq> VC_PSV_TRANSLATION_DIRECT_ONLY)
      (parsed_cheats sample_psv_result)) = 1"
    unfolding sample_psv_parsed by simp_all
  then show ?thesis
    using psv_report_counts [OF sample_psv_ok] sample_psv_length by (simp add: Let_def)
qed

theorem psv_counters_bounded_witness:
  "total_lines (report_buffer sample_psv_result) \<le> 64 \<and> 2 * 64 + 1 < unat (- 1 :: 32 word)"
  using psv_counters_bounded [OF _ sample_psv_ok] sample_psv_length
  by (simp add: Let_def supported_target_def)

text \<open>C32. The code line grammar. The parser of code lines accepts exactly a dollar sign, four hexadecimal
  digits, blanks, eight digits, blanks, eight digits and optional blanks, and the three results are the
  numbers the digits write.\<close>

theorem psv_code_line_exact:
  assumes "start \<le> stop" and "stop \<le> length source"
  shows "parse_code source start stop = Some (code, address, val) \<longleftrightarrow>
    (\<exists>h1 s1 h2 s2 h3 s3.
       segment source start stop = ascii CHR ''$'' # h1 @ s1 @ h2 @ s2 @ h3 @ s3 \<and>
       length h1 = 4 \<and> length h2 = 8 \<and> length h3 = 8 \<and> s1 \<noteq> [] \<and> s2 \<noteq> [] \<and>
       (\<forall>d \<in> set (h1 @ h2 @ h3). hex_digit d) \<and> (\<forall>x \<in> set (s1 @ s2 @ s3). blank x) \<and>
       code = of_nat (hex_number h1) \<and> address = of_nat (hex_number h2) \<and>
       val = of_nat (hex_number h3))"
  using parse_code_iff [OF assms] unfolding code_text_def .

theorem psv_code_line_exact_witness:
  "parse_code (map ascii ''$0200 0000F000 00000063'') 0 23 = Some (0x200, 0xf000, 0x63)"
proof -
  let ?t = "map ascii ''$0200 0000F000 00000063''"
  have line: "segment ?t 0 23 = ascii CHR ''$'' # map ascii ''0200'' @ [ascii CHR '' ''] @ map ascii ''0000F000'' @
      [ascii CHR '' ''] @ map ascii ''00000063'' @ []"
    by (simp add: segment_def)
  have digits: "\<forall>d \<in> set (map ascii ''0200'' @ map ascii ''0000F000'' @ map ascii ''00000063''). hex_digit d"
    by (simp add: hex_digit_def digit_weight_def ascii_def upt_rec)
  have blanks: "\<forall>x \<in> set ([ascii CHR '' ''] @ [ascii CHR '' ''] @ []). blank x"
    by (simp add: blank_def ascii_def)
  have numbers: "(0x200 :: uint16_t) = of_nat (hex_number (map ascii ''0200''))"
    "(0xf000 :: uint32_t) = of_nat (hex_number (map ascii ''0000F000''))"
    "(0x63 :: uint32_t) = of_nat (hex_number (map ascii ''00000063''))"
    by (simp_all add: hex_number_def digit_weight_def ascii_def upt_rec)
  have sizes: "length (map ascii ''0200'') = 4" "length (map ascii ''0000F000'') = 8"
    "length (map ascii ''00000063'') = 8" "[ascii CHR '' ''] \<noteq> []" "23 \<le> length ?t" "0 \<le> (23::nat)"
    by simp_all
  show ?thesis
    by (rule psv_code_line_exact [OF sizes(6,5), THEN iffD2], intro exI conjI)
      (rule line sizes digits blanks numbers)+
qed

section \<open>Bad lines\<close>

lemma opaque_block:
  assumes "block_classified k" and "p \<in> set (block_operations k)" and "operation_kind_of p = VC_PSV_OPERATION_OPAQUE"
  shows "VC_PSV_TRANSLATION_REQUIRES_UNSUPPORTED \<le> block_state k"
proof -
  from assms(2) obtain i where i: "i < length (block_operations k)" "p = block_operations k ! i"
    by (auto simp: in_set_conv_nth)
  have "operation_state (take i (block_operations k)) p = VC_PSV_TRANSLATION_REQUIRES_UNSUPPORTED"
    using assms(3) by (simp add: operation_state_def)
  with classified_operation(3) [OF assms(1) i] show ?thesis
    by simp
qed

text \<open>C7. One bad line taints its whole cheat. When any line between the header of a cheat and the next header
  is opaque, or any operation of the cheat has an unknown code, the cheat's state says that it needs
  unsupported features or is malformed; when any such line is malformed, the state is malformed. So a direct
  write next to something unknown is never offered on its own.\<close>

theorem psv_bad_line_taints:
  assumes "vc_psv_parse a source b = (VC_PSV_STATUS_OK, b')" and "c < length (parsed_cheats b')"
    and "j < length (parsed_lines b')" and "header_line_index (parsed_cheats b' ! c) < j"
    and "Suc c < length (parsed_cheats b') \<Longrightarrow> j < header_line_index (parsed_cheats b' ! Suc c)"
  shows "(line_kind (parsed_lines b' ! j) = VC_PSV_LINE_OPAQUE \<or>
      (\<exists>p \<in> set (cheat_operations (parsed_operations b') (parsed_cheats b' ! c)).
         operation_kind_of p = VC_PSV_OPERATION_OPAQUE) \<longrightarrow>
      VC_PSV_TRANSLATION_REQUIRES_UNSUPPORTED \<le> translation_state (parsed_cheats b' ! c)) \<and>
    (line_kind (parsed_lines b' ! j) = VC_PSV_LINE_MALFORMED \<longrightarrow>
      translation_state (parsed_cheats b' ! c) = VC_PSV_TRANSLATION_MALFORMED)"
proof -
  let ?d = "document source"
  let ?bs = "document_blocks ?d"
  have c: "c < length ?bs" and j: "j < length (document_lines ?d)"
    using assms(2,3) by (simp_all add: psv_ok [OF assms(1) assms(1)])
  have cheat: "header_line_index (parsed_cheats b' ! i) = block_header (?bs ! i)"
    "translation_state (parsed_cheats b' ! i) = block_state (?bs ! i)" if "i < length ?bs" for i
    using that by (simp_all add: psv_ok [OF assms(1) assms(1)] nth_flat_cheats block_cheat_def)
  have "in_section (map block_header ?bs) c j"
    using assms(4,5) c cheat(1) [of c] cheat(1) [of "Suc c"]
    by (auto simp: in_section_def psv_ok [OF assms(1) assms(1)])
  then have "taints (document_lines ?d ! j) (block_state (?bs ! c))"
    using document_tainted_document [of source] c j
    by (simp add: document_tainted_def sections_tainted_def)
  moreover have "VC_PSV_TRANSLATION_REQUIRES_UNSUPPORTED \<le> block_state (?bs ! c)"
    if "p \<in> set (cheat_operations (parsed_operations b') (parsed_cheats b' ! c))"
      "operation_kind_of p = VC_PSV_OPERATION_OPAQUE" for p
    using opaque_block [OF _ _ that(2), of "?bs ! c"] that(1) document_blocks_classified [of source] c
    by (simp add: psv_ok [OF assms(1) assms(1)] flat_cheat_operations all_operations_def)
  ultimately show ?thesis
    unfolding cheat(2) [OF c] psv_ok(1) [OF assms(1) assms(1)] taints_def by blast
qed

definition sample_bad_source :: "uint8_t list" where
  "sample_bad_source = map ascii ''_V0'' @ [10] @ map ascii ''x''"

lemma sample_bad_document:
  "(let d = document sample_bad_source in
     (map line_kind (document_lines d), map block_header (document_blocks d), all_operations d)) =
   ([VC_PSV_LINE_CHEAT_HEADER, VC_PSV_LINE_OPAQUE], [0], [])"
  by code_simp

theorem psv_bad_line_taints_witness:
  "\<exists>b'. vc_psv_parse (sample_psv_args\<lparr>source_length := 5\<rparr>) sample_bad_source (sample_psv_buffers 2) =
      (VC_PSV_STATUS_OK, b') \<and>
    VC_PSV_TRANSLATION_REQUIRES_UNSUPPORTED \<le> translation_state (parsed_cheats b' ! 0)"
proof -
  let ?d = "document sample_bad_source"
  let ?b' = "written_buffers sample_bad_source ?d (sample_psv_buffers 2)"
  have parts: "map line_kind (document_lines ?d) = [VC_PSV_LINE_CHEAT_HEADER, VC_PSV_LINE_OPAQUE]"
    "map block_header (document_blocks ?d) = [0]" "all_operations ?d = []"
    using sample_bad_document [unfolded Let_def prod.inject] by simp_all
  have lengths: "length (document_lines ?d) = 2" "length (document_blocks ?d) = 1"
    using arg_cong [OF parts(1), of length] arg_cong [OF parts(2), of length] by simp_all
  have accepted: "psv_check_arguments (sample_psv_args\<lparr>source_length := 5\<rparr>) = None"
    by (simp add: psv_check_arguments_def sample_psv_args_def multiply_size_def ranges_overlap_def
        VC_PSV_MAX_SOURCE_BYTES_def)
  have "document_fits ?d (sample_psv_buffers 2)"
    by (simp add: document_fits_def lengths parts(3)) (simp add: sample_psv_buffers_def)
  with accepted have run: "vc_psv_parse (sample_psv_args\<lparr>source_length := 5\<rparr>) sample_bad_source
      (sample_psv_buffers 2) = (VC_PSV_STATUS_OK, ?b')"
    by (simp add: vc_psv_parse_def psv_run_document)
  note ok = psv_ok [OF run run]
  obtain k where k: "document_blocks ?d = [k]" "block_header k = 0"
    using parts(2) by auto
  have "line_kind (parsed_lines ?b' ! 1) = VC_PSV_LINE_OPAQUE"
    using arg_cong [OF parts(1), of "\<lambda>xs. xs ! 1"] lengths by (simp add: ok)
  with psv_bad_line_taints [OF run, of 0 1]
  have "VC_PSV_TRANSLATION_REQUIRES_UNSUPPORTED \<le> translation_state (parsed_cheats ?b' ! 0)"
    by (simp add: ok lengths k)
  with run show ?thesis
    by blast
qed

end
