(* ===== verification/VC_Psv_Print.thy ===== *)
theory VC_Psv_Print
  imports VC_Psv_Props
begin

unbundle bit_operations_syntax

text \<open>
  A printer for cheat files and the round trip: parsing what was printed gives back the cheats. The printer
  is no part of the program; it is a source of valid files, so the theorem says that the parser accepts
  all of them and reads them as they were meant.
\<close>

section \<open>Printing\<close>

definition hex_char :: "nat \<Rightarrow> uint8_t" where
  "hex_char d = (if d < 10 then of_nat (48 + d) else of_nat (55 + d))"

primrec print_hex :: "nat \<Rightarrow> nat \<Rightarrow> uint8_t list" where
  "print_hex 0 n = []"
| "print_hex (Suc k) n = print_hex k (n div 16) @ [hex_char (n mod 16)]"

definition print_code :: "uint16_t \<times> uint32_t \<times> uint32_t \<Rightarrow> uint8_t list" where
  "print_code = (\<lambda>(code, address, val).
     ascii CHR ''$'' # print_hex 4 (unat code) @ [ascii CHR '' ''] @ print_hex 8 (unat address) @
     [ascii CHR '' ''] @ print_hex 8 (unat val))"

definition print_header :: "vc_psv_activation \<Rightarrow> uint8_t list \<Rightarrow> uint8_t list" where
  "print_header act title =
     map ascii ''_V'' @ [if act = VC_PSV_ACTIVATION_AUTOSTART then ascii CHR ''1'' else ascii CHR ''0''] @
     (if title = [] then [] else ascii CHR '' '' # title)"

type_synonym printed_cheat =
  "vc_psv_activation \<times> uint8_t list \<times> (uint16_t \<times> uint32_t \<times> uint32_t) list"

definition cheat_lines :: "printed_cheat \<Rightarrow> uint8_t list list" where
  "cheat_lines = (\<lambda>(act, title, codes). print_header act title # map print_code codes)"

definition print_lines :: "uint8_t list list \<Rightarrow> uint8_t list" where
  "print_lines ts = concat (map (\<lambda>t. t @ [ascii CHR 0x0A]) ts)"

definition print_psv :: "printed_cheat list \<Rightarrow> uint8_t list" where
  "print_psv cs = print_lines (concat (map cheat_lines cs))"

text \<open>A title that is not changed by reading it: one line, no blanks around it.\<close>

definition printable_title :: "uint8_t list \<Rightarrow> bool" where
  "printable_title title \<longleftrightarrow>
     set title \<inter> {ascii CHR 0x0D, ascii CHR 0x0A} = {} \<and>
     (title \<noteq> [] \<longrightarrow> \<not> ascii_space (hd title) \<and> \<not> ascii_space (last title))"

section \<open>Hexadecimal numbers\<close>

lemma hex_char_value: "d < 16 \<Longrightarrow> hex_value (hex_char d) = int d"
proof -
  have "\<forall>d \<in> {..<16}. hex_value (hex_char d) = int d"
    by (simp add: lessThan_nat_numeral lessThan_Suc hex_char_def hex_value_def ascii_def)
  then show "d < 16 \<Longrightarrow> ?thesis"
    by blast
qed

lemma length_print_hex [simp]: "length (print_hex k n) = k"
  by (induction k arbitrary: n) simp_all

lemma print_hex_digits: "d \<in> set (print_hex k n) \<Longrightarrow> hex_digit d"
  by (induction k arbitrary: n) (auto simp: hex_digit_value hex_char_value)

lemma hex_number_print: "n < 16 ^ k \<Longrightarrow> hex_number (print_hex k n) = n"
proof (induction k arbitrary: n)
  case 0
  then show ?case by (simp add: hex_number_def)
next
  case (Suc k)
  then have "n div 16 < 16 ^ k"
    by (simp add: less_mult_imp_div_less mult.commute)
  with Suc.IH show ?case
    by (simp add: hex_number_snoc hex_char_value)
qed

lemma print_code_text: "code_text (print_code (code, address, val)) code address val"
proof -
  let ?h1 = "print_hex 4 (unat code)" and ?h2 = "print_hex 8 (unat address)" and ?h3 = "print_hex 8 (unat val)"
  let ?s = "[ascii CHR '' '']"
  have "unat code < 16 ^ 4" "unat address < 16 ^ 8" "unat val < 16 ^ 8"
    using unsigned_less [of code] unsigned_less [of address] unsigned_less [of val] by simp_all
  then have numbers: "code = of_nat (hex_number ?h1)" "address = of_nat (hex_number ?h2)" "val = of_nat (hex_number ?h3)"
    by (simp_all only: hex_number_print of_nat_unat ucast_id)
  have digits: "\<forall>d \<in> set (?h1 @ ?h2 @ ?h3). hex_digit d"
    using print_hex_digits by (simp only: set_append) blast
  have blanks: "\<forall>x \<in> set (?s @ ?s @ []). ascii_space x" "?s \<noteq> []"
    by (simp_all add: ascii_space_def)
  have "print_code (code, address, val) = ascii CHR ''$'' # ?h1 @ ?s @ ?h2 @ ?s @ ?h3 @ []"
    by (simp only: print_code_def prod.case append_Nil2)
  with numbers digits blanks show ?thesis
    unfolding code_text_spaces using length_print_hex by blast
qed

section \<open>Printed lines have no line breaks and no blanks around them\<close>

definition one_line :: "uint8_t list \<Rightarrow> bool" where
  "one_line t \<longleftrightarrow> set t \<inter> {ascii CHR 0x0D, ascii CHR 0x0A} = {} \<and>
     t \<noteq> [] \<and> \<not> ascii_space (hd t) \<and> \<not> ascii_space (last t)"

lemma hex_digit_no_break: "hex_digit d \<Longrightarrow> d \<notin> {ascii CHR 0x0D, ascii CHR 0x0A}"
  by (auto simp: hex_digit_value hex_value_def ascii_def)

lemma one_line_code: "one_line (print_code c)"
proof -
  obtain code address val where c: "c = (code, address, val)"
    by (cases c)
  have hex: "print_hex 8 n \<noteq> []" "set (print_hex k n) \<inter> {ascii CHR 0x0D, ascii CHR 0x0A} = {}"
    "\<not> ascii_space (last (print_hex 8 n))" for k n
    using print_hex_digits hex_digit_no_break hex_digit_not_space last_in_set [of "print_hex 8 n"]
      length_print_hex [of 8 n]
    by (fastforce simp del: length_print_hex print_hex.simps)+
  have "ascii CHR '' '' \<notin> {ascii CHR 0x0D, ascii CHR 0x0A}" "ascii CHR ''$'' \<notin> {ascii CHR 0x0D, ascii CHR 0x0A}"
    "\<not> ascii_space (ascii CHR ''$'')"
    by (simp_all add: ascii_def ascii_space_def)
  with hex show ?thesis
    by (auto simp: one_line_def c print_code_def simp del: print_hex.simps)
qed

lemma one_line_header: "printable_title title \<Longrightarrow> one_line (print_header act title)"
  by (auto simp: one_line_def print_header_def printable_title_def ascii_def ascii_space_def)

lemma trimmed_one_line:
  assumes "one_line t"
  shows "trimmed t = t"
proof -
  have "dropWhile ascii_space xs = xs" if "xs \<noteq> []" "\<not> ascii_space (hd xs)" for xs
    using that by (cases xs) simp_all
  from this [of t] this [of "rev t"] assms show ?thesis
    by (simp add: trimmed_spaces one_line_def hd_rev)
qed

lemma header_text_print:
  "header_text act (print_header act title)"
  "printable_title title \<Longrightarrow> description_text (print_header act title) = title"
proof -
  show "header_text act (print_header act title)"
    by (simp add: header_text_def print_header_def blank_def ascii_def)
  show "printable_title title \<Longrightarrow> description_text (print_header act title) = title"
    by (cases title) (simp_all add: description_text_def print_header_def printable_title_def blank_def ascii_space_def ascii_def)
qed

section \<open>The lines of printed text\<close>

lemma printed_line:
  assumes "source = pre @ t @ [ascii CHR 0x0A] @ rest" and "one_line t" and "pos = length pre"
    and "index = 0 \<longrightarrow> hd t \<noteq> 0xef"
  shows "pos < length source" "next_line source pos = length (pre @ t @ [ascii CHR 0x0A])"
    "segment source (content_from (source_line source index pos)) (content_to (source_line source index pos)) = t"
proof -
  show "pos < length source"
    using assms by simp
  have "takeWhile (\<lambda>x. x \<notin> {ascii CHR 0x0D, ascii CHR 0x0A}) (t @ [ascii CHR 0x0A] @ rest) = t"
    using assms(2) by (subst takeWhile_append2) (auto simp: one_line_def)
  then have stop: "find_line_end source pos = pos + length t"
    by (simp add: find_line_end_takeWhile assms(1,3))
  have "source ! (pos + length t) = ascii CHR 0x0A"
    by (simp add: assms(1,3) nth_append)
  moreover have "ascii CHR 0x0A \<noteq> ascii CHR 0x0D"
    by (simp add: ascii_def)
  ultimately show "next_line source pos = length (pre @ t @ [ascii CHR 0x0A])"
    by (simp add: next_line_def stop skip_line_break_def) (simp add: assms(1,3))
  have "source ! pos = hd t"
    using assms(1-3) by (cases t) (simp_all add: one_line_def nth_append)
  then have "skip_byte_order_mark source index pos (pos + length t) = pos"
    using assms(4) by (auto simp: skip_byte_order_mark_def)
  then show "segment source (content_from (source_line source index pos))
      (content_to (source_line source index pos)) = t"
    by (simp add: source_line_def Let_def stop segment_def) (simp add: assms(1,3))
qed

lemma printed_source_lines:
  assumes "source = pre @ print_lines ts" and "\<forall>t \<in> set ts. one_line t \<and> hd t \<noteq> 0xef"
  shows "map (\<lambda>x. segment source (content_from x) (content_to x)) (source_lines source index (length pre)) = ts"
  using assms
proof (induction ts arbitrary: pre index)
  case Nil
  then show ?case
    by (subst source_lines.simps) (simp add: print_lines_def)
next
  case (Cons t ts)
  have source: "source = pre @ t @ [ascii CHR 0x0A] @ print_lines ts"
    "source = (pre @ t @ [ascii CHR 0x0A]) @ print_lines ts"
    using Cons.prems(1) by (simp_all add: print_lines_def)
  note line = printed_line [OF source(1) _ refl, of index]
  have t: "one_line t" "index = 0 \<longrightarrow> hd t \<noteq> 0xef"
    using Cons.prems(2) by simp_all
  have "map (\<lambda>x. segment source (content_from x) (content_to x))
      (source_lines source (Suc index) (length (pre @ t @ [ascii CHR 0x0A]))) = ts"
    using Cons.prems(2) by (intro Cons.IH source(2)) simp
  with line(1-3) [OF t] show ?case
    by (subst source_lines.simps) simp
qed


section \<open>The document of a printed file\<close>

definition code_of :: "vc_psv_operation \<Rightarrow> uint16_t \<times> uint32_t \<times> uint32_t" where
  "code_of p = (legacy_code p, operation_address p, operation_value p)"

definition block_view :: "uint8_t list \<Rightarrow> psv_block \<Rightarrow> printed_cheat" where
  "block_view source k =
     (block_activation k, span_text source (block_description k), map code_of (block_operations k))"

definition document_view :: "uint8_t list \<Rightarrow> psv_document \<Rightarrow> printed_cheat list" where
  "document_view source d = map (block_view source) (document_blocks d)"

definition well_read :: "psv_document \<Rightarrow> bool" where
  "well_read d \<longleftrightarrow> open_ok d \<and> (\<forall>l \<in> set (document_lines d). line_kind l \<noteq> VC_PSV_LINE_MALFORMED)"

lemma taint_view: "open_ok d \<Longrightarrow> document_view source (taint state d) = document_view source d"
  unfolding document_view_def taint_def by (rule map_update_open) (simp_all add: block_view_def)

lemma close_view: "open_ok d \<Longrightarrow> document_view source (close_block d) = document_view source d"
  using taint_view [of "d\<lparr>document_invalid := n\<rparr>" for n]
  by (simp add: close_block_def) (simp add: document_view_def)

lemma code_text_unique:
  assumes "code_text t c a v" and "code_text t c' a' v'"
  shows "c = c' \<and> a = a' \<and> v = v'"
proof -
  have t: "segment t 0 (length t) = t"
    by (rule segment_all)
  have "parse_code t 0 (length t) = Some (c, a, v)" "parse_code t 0 (length t) = Some (c', a', v')"
    using assms by (simp_all add: parse_code_iff t)
  then show ?thesis
    by simp
qed

lemma header_text_unique: "header_text act t \<Longrightarrow> header_text act' t \<Longrightarrow> act = act'"
  by (cases act; cases act') (simp_all add: header_text_def ascii_def)

lemma header_starts: "header_text act t \<Longrightarrow> t \<noteq> [] \<and> hd t = ascii CHR ''_'' \<and> looks_like_header t"
  by (cases t) (simp_all add: header_text_def looks_like_header_def)

text \<open>The item of a printed line is determined by its text.\<close>

lemma item_of_header:
  assumes "item_text source i t" and "header_text act t"
  obtains start stop where "i = Item_Header act start stop" "start \<le> stop" "stop \<le> length source"
    "segment source start stop = description_text t"
proof -
  have t: "t \<noteq> []" "hd t = ascii CHR ''_''" "looks_like_header t"
    using header_starts [OF assms(2)] by simp_all
  have distinct: "ascii CHR ''_'' \<noteq> ascii CHR ''#''" "ascii CHR ''_'' \<noteq> ascii CHR ''$''"
    by (simp_all add: ascii_def)
  have "\<exists>start stop. i = Item_Header act start stop \<and> start \<le> stop \<and> stop \<le> length source \<and>
      segment source start stop = description_text t"
  proof (cases i)
    case (Item_Header act' start stop)
    with assms have "header_text act' t"
      by simp
    then have "act' = act"
      using assms(2) by (rule header_text_unique)
    with Item_Header assms(1) show ?thesis
      by simp
  next
    case Item_Bad_Header
    with assms show ?thesis
      by simp
  next
    case (Item_Code code address val)
    with assms(1) have "hd t = ascii CHR ''$''"
      using code_text_starts by simp
    with t distinct show ?thesis
      by simp
  qed (use assms(1) t distinct in simp_all)
  with that show ?thesis
    by blast
qed

lemma item_of_code:
  assumes "item_text source i t" and "code_text t code address val"
  shows "i = Item_Code code address val"
proof -
  have t: "t \<noteq> []" "hd t = ascii CHR ''$''"
    using code_text_starts [OF assms(2)] by simp_all
  have distinct: "ascii CHR ''$'' \<noteq> ascii CHR ''_''" "ascii CHR ''$'' \<noteq> ascii CHR ''#''"
    by (simp_all add: ascii_def)
  then have looks: "\<not> looks_like_header t"
    using t by (auto simp: looks_like_header_def hd_conv_nth)
  show ?thesis
  proof (cases i)
    case (Item_Header act start stop)
    with assms(1) have "header_text act t"
      by simp
    with header_starts looks show ?thesis
      by blast
  next
    case (Item_Code code' address' val')
    with assms(1) have "code_text t code' address' val'"
      by simp
    with code_text_unique [OF assms(2)] Item_Code show ?thesis
      by blast
  next
    case Item_Bad_Code
    with assms show ?thesis
      by simp
  qed (use assms(1) t looks distinct in simp_all)
qed

lemma step_header:
  assumes d: "well_read d" and x: "line_of_source source x" and small: "length source \<le> VC_PSV_MAX_SOURCE_BYTES"
    and t: "segment source (content_from x) (content_to x) = print_header act title" "printable_title title"
  shows "well_read (document_step d x) \<and> document_open (document_step d x) \<and>
    document_view source (document_step d x) = document_view source d @ [(act, title, [])]"
proof -
  have "item_text source (item x) (print_header act title)"
    using x t by (simp add: line_of_source_def trimmed_one_line one_line_header)
  from item_of_header [OF this header_text_print(1)] obtain start stop
    where i: "item x = Item_Header act start stop" "start \<le> stop" "stop \<le> length source"
      "segment source start stop = title"
    using header_text_print(2) [OF t(2)] by metis
  let ?d = "document_step d x"
  have "document_view source ?d = document_view source (close_block d) @ [(act, title, [])]"
    using i small by (simp add: document_step_def Let_def document_view_def block_view_def span_text_of)
  moreover have "open_ok ?d" "document_open ?d" "document_lines ?d =
      document_lines d @ [line_of x VC_PSV_LINE_CHEAT_HEADER (Some (length (document_blocks d))) None]"
    using i by (simp_all add: document_step_def Let_def) (simp add: open_ok_def)
  ultimately show ?thesis
    using d by (auto simp: well_read_def close_view line_of_def)
qed

lemma step_code:
  assumes d: "well_read d" "document_open d" and x: "line_of_source source x"
    and t: "segment source (content_from x) (content_to x) = print_code c"
    and view: "document_view source d = vs @ [(act, title, codes)]"
  shows "well_read (document_step d x) \<and> document_open (document_step d x) \<and>
    document_view source (document_step d x) = vs @ [(act, title, codes @ [c])]"
proof -
  obtain code address val where c: "c = (code, address, val)"
    by (cases c)
  have "item_text source (item x) (print_code c)"
    using x t by (simp add: line_of_source_def trimmed_one_line one_line_code)
  from item_of_code [OF this [unfolded c] print_code_text]
  have i: "item x = Item_Code code address val" .
  obtain bs k where bs: "document_blocks d = bs @ [k]"
    using open_blocks [of d] d unfolding well_read_def by blast
  with view have k: "block_view source k = (act, title, codes)" "map (block_view source) bs = vs"
    by (simp_all add: document_view_def)
  let ?d = "document_code x code address val d"
  define e where "e = (if operation_state (open_operations d) (code_operation d code address val) =
      VC_PSV_TRANSLATION_MALFORMED then d\<lparr>document_invalid := Suc (document_invalid d)\<rparr> else d)"
  have e: "document_blocks e = bs @ [k]" "document_open e"
    using bs d(2) by (simp_all add: e_def)
  have "\<exists>st. document_blocks ?d = bs @ [k\<lparr>block_state := st,
      block_operations := block_operations k @ [code_operation d code address val]\<rparr>]"
    by (simp add: document_code_def Let_def e_def [symmetric] update_open_def e) blast
  then obtain st where "document_blocks ?d = bs @ [k\<lparr>block_state := st,
      block_operations := block_operations k @ [code_operation d code address val]\<rparr>]" ..
  then have "document_view source ?d = vs @ [(act, title, codes @ [c])]"
    using k by (simp add: document_view_def block_view_def code_of_def code_operation_def Let_def c)
  moreover have "document_open ?d" "open_ok ?d"
    "document_lines ?d = document_lines d @
      [line_of x VC_PSV_LINE_CODE (open_index d) (Some (length (all_operations d)))]"
    using d(2) by (simp_all add: document_code_def Let_def update_open_def open_ok_def)
  ultimately show ?thesis
    using d i by (auto simp: document_step_def well_read_def line_of_def)
qed

lemma fold_codes:
  assumes "well_read d" "document_open d" and "\<forall>x \<in> set xs. line_of_source source x"
    and "map (\<lambda>x. segment source (content_from x) (content_to x)) xs = map print_code cs"
    and "document_view source d = vs @ [(act, title, codes)]"
  shows "well_read (foldl document_step d xs) \<and>
    document_view source (foldl document_step d xs) = vs @ [(act, title, codes @ cs)]"
  using assms
proof (induction xs arbitrary: d codes cs)
  case Nil
  then show ?case by simp
next
  case (Cons x xs)
  then obtain c cs' where cs: "cs = c # cs'"
    by (cases cs) simp_all
  have "well_read (document_step d x) \<and> document_open (document_step d x) \<and>
      document_view source (document_step d x) = vs @ [(act, title, codes @ [c])]"
    using Cons.prems by (intro step_code) (simp_all add: cs)
  with Cons.IH [of "document_step d x" cs' "codes @ [c]"] Cons.prems show ?case
    by (simp add: cs)
qed

lemma fold_cheats:
  assumes "well_read d" and "\<forall>x \<in> set xs. line_of_source source x"
    and "length source \<le> VC_PSV_MAX_SOURCE_BYTES"
    and "map (\<lambda>x. segment source (content_from x) (content_to x)) xs = concat (map cheat_lines cs)"
    and "\<forall>(act, title, codes) \<in> set cs. printable_title title"
  shows "well_read (foldl document_step d xs) \<and>
    document_view source (foldl document_step d xs) = document_view source d @ cs"
  using assms
proof (induction cs arbitrary: d xs)
  case Nil
  then show ?case by simp
next
  case (Cons cheat cs)
  obtain act title codes where cheat: "cheat = (act, title, codes)"
    by (cases cheat)
  let ?text = "\<lambda>x. segment source (content_from x) (content_to x)"
  have "map ?text xs = print_header act title # map print_code codes @ concat (map cheat_lines cs)"
    using Cons.prems(4) by (simp add: cheat cheat_lines_def)
  then obtain x ys zs where xs: "xs = x # ys @ zs" "?text x = print_header act title"
    "map ?text ys = map print_code codes" "map ?text zs = concat (map cheat_lines cs)"
    by (auto simp: map_eq_Cons_conv map_eq_append_conv)
  have "well_read (document_step d x) \<and> document_open (document_step d x) \<and>
      document_view source (document_step d x) = document_view source d @ [(act, title, [])]"
    using Cons.prems xs by (intro step_header) (auto simp: cheat)
  with fold_codes [of "document_step d x" ys source codes "document_view source d" act title "[]"] xs Cons.prems
  have "well_read (foldl document_step (document_step d x) ys)"
    "document_view source (foldl document_step (document_step d x) ys) = document_view source d @ [cheat]"
    by (auto simp: cheat)
  with Cons.IH [of "foldl document_step (document_step d x) ys" zs] xs Cons.prems show ?case
    by simp
qed

lemma printed_document:
  assumes "\<forall>(act, title, codes) \<in> set cs. printable_title title"
    and "length (print_psv cs) \<le> VC_PSV_MAX_SOURCE_BYTES"
  shows "document_view (print_psv cs) (document (print_psv cs)) = cs"
    and "\<forall>l \<in> set (document_lines (document (print_psv cs))). line_kind l \<noteq> VC_PSV_LINE_MALFORMED"
    and "length (document_lines (document (print_psv cs))) = length (concat (map cheat_lines cs))"
proof -
  let ?s = "print_psv cs"
  let ?xs = "source_lines ?s 0 0"
  let ?d = "foldl document_step empty_document ?xs"
  have "one_line t \<and> hd t \<noteq> 0xef" if "t \<in> set (concat (map cheat_lines cs))" for t
  proof -
    from that obtain act title codes where "(act, title, codes) \<in> set cs"
      "t = print_header act title \<or> t \<in> print_code ` set codes"
      by (auto simp: cheat_lines_def)
    with assms(1) have "one_line t" "hd t \<in> {ascii CHR ''_'', ascii CHR ''$''}"
      using one_line_header one_line_code
      by (blast, auto simp: print_header_def print_code_def split: prod.splits)
    then show ?thesis
      by (auto simp: ascii_def)
  qed
  then have texts: "map (\<lambda>x. segment ?s (content_from x) (content_to x)) ?xs = concat (map cheat_lines cs)"
    using printed_source_lines [of ?s "[]" "concat (map cheat_lines cs)" 0] by (simp add: print_psv_def)
  have "well_read ?d \<and> document_view ?s ?d = document_view ?s empty_document @ cs"
    using assms texts source_lines_ok
    by (intro fold_cheats) (auto simp: well_read_def empty_document_def open_ok_def)
  then have d: "well_read ?d" "document_view ?s ?d = cs"
    by (simp_all add: document_view_def empty_document_def)
  then show "document_view ?s (document ?s) = cs"
    and "\<forall>l \<in> set (document_lines (document ?s)). line_kind l \<noteq> VC_PSV_LINE_MALFORMED"
    by (simp_all add: document_def close_view well_read_def)
  show "length (document_lines (document ?s)) = length (concat (map cheat_lines cs))"
    using raw_document [of ?s, THEN map_eq_imp_length_eq] texts [THEN arg_cong, of length] by simp
qed

section \<open>The round trip\<close>

definition printed_codes :: "printed_cheat list \<Rightarrow> (uint16_t \<times> uint32_t \<times> uint32_t) list" where
  "printed_codes cs = concat (map (\<lambda>(act, title, codes). codes) cs)"

lemma view_operations: "printed_codes (document_view source d) = map code_of (all_operations d)"
  by (simp add: printed_codes_def document_view_def all_operations_def block_view_def map_concat o_def)

text \<open>What a call stored of a cheat, in the form of the printer.\<close>

definition cheat_view :: "uint8_t list \<Rightarrow> vc_psv_operation list \<Rightarrow> vc_psv_cheat \<Rightarrow> printed_cheat" where
  "cheat_view source ps k =
     (activation k, span_text source (description k), map code_of (cheat_operations ps k))"

lemma view_cheats:
  "map (cheat_view source (all_operations d)) (flat_cheats 0 (document_blocks d)) = document_view source d"
proof (rule nth_equalityI)
  fix c
  assume "c < length (map (cheat_view source (all_operations d)) (flat_cheats 0 (document_blocks d)))"
  then have c: "c < length (document_blocks d)"
    by simp
  then show "map (cheat_view source (all_operations d)) (flat_cheats 0 (document_blocks d)) ! c =
      document_view source d ! c"
    using flat_cheat_operations [OF c]
    by (simp add: cheat_view_def document_view_def block_view_def all_operations_def)
      (simp add: nth_flat_cheats block_cheat_def)
qed (simp add: document_view_def)

text \<open>C8. Printing and parsing a list of cheats gives the list back. For any cheats with titles of one line
  and without blanks around them, printed in at most 1 MiB, a call with valid arguments and enough room for
  a line per cheat and per code succeeds, stores exactly these cheats with their activations, titles and
  codes in order, and finds no malformed line.\<close>

theorem psv_print_parse:
  assumes "\<forall>(act, title, codes) \<in> set cs. printable_title title"
    and "psv_check_arguments a = None" and "length (print_psv cs) = unat (source_length a)"
    and "length cs + length (printed_codes cs) \<le> length (line_buffer b)"
    and "length cs \<le> length (cheat_buffer b)" and "length (printed_codes cs) \<le> length (operation_buffer b)"
  shows "\<exists>b'. vc_psv_parse a (print_psv cs) b = (VC_PSV_STATUS_OK, b') \<and>
    map (cheat_view (print_psv cs) (parsed_operations b')) (parsed_cheats b') = cs \<and>
    malformed_lines (report_buffer b') = 0"
proof -
  let ?s = "print_psv cs"
  let ?d = "document ?s"
  have small: "length ?s \<le> VC_PSV_MAX_SOURCE_BYTES"
    using psv_check_source [OF assms(2)] assms(3) by simp
  note printed = printed_document [OF assms(1) small]
  have "length (concat (map cheat_lines cs)) = length cs + length (printed_codes cs)"
    by (induction cs) (auto simp: cheat_lines_def printed_codes_def)
  moreover have "length (document_blocks ?d) = length cs"
    using arg_cong [OF printed(1), of length] by (simp add: document_view_def)
  moreover have "length (all_operations ?d) = length (printed_codes cs)"
    using arg_cong [OF view_operations [of ?s ?d], of length] by (simp add: printed(1))
  ultimately have fits: "document_fits ?d b"
    using assms(4-6) printed(3) by (simp add: document_fits_def)
  then have run: "vc_psv_parse a ?s b = (VC_PSV_STATUS_OK, written_buffers ?s ?d b)"
    by (simp add: vc_psv_parse_def assms(2) psv_run_document)
  have "malformed_lines (report_buffer (written_buffers ?s ?d b)) = 0"
    using printed(2) by (simp add: written_parsed(4) [OF fits refl] document_report_def filter_empty_conv)
  with run show ?thesis
    by (auto simp: written_parsed [OF fits refl] view_cheats printed(1))
qed

definition sample_printed :: "printed_cheat list" where
  "sample_printed =
     [(VC_PSV_ACTIVATION_MANUAL, map ascii ''Gold'', [(0x200, 0x81000000, 99)]),
      (VC_PSV_ACTIVATION_AUTOSTART, [], [])]"

theorem psv_print_parse_witness:
  "\<exists>b'. vc_psv_parse (sample_psv_args\<lparr>source_length := 37\<rparr>) (print_psv sample_printed)
      ((sample_psv_buffers 3)\<lparr>cheat_buffer := [zero_cheat, zero_cheat]\<rparr>) = (VC_PSV_STATUS_OK, b') \<and>
    map (cheat_view (print_psv sample_printed) (parsed_operations b')) (parsed_cheats b') = sample_printed"
proof -
  have titles: "\<forall>(act, title, codes) \<in> set sample_printed. printable_title title"
    by (simp add: sample_printed_def printable_title_def ascii_def ascii_space_def)
  have accepted: "psv_check_arguments (sample_psv_args\<lparr>source_length := 37\<rparr>) = None"
    by (simp add: psv_check_arguments_def sample_psv_args_def multiply_size_def ranges_overlap_def
        VC_PSV_MAX_SOURCE_BYTES_def)
  have codes: "length sample_printed = 2" "length (printed_codes sample_printed) = 1"
    by (simp_all add: sample_printed_def printed_codes_def)
  have size: "length (print_psv sample_printed) = unat (source_length (sample_psv_args\<lparr>source_length := 37\<rparr>))"
    by (simp add: print_psv_def print_lines_def sample_printed_def cheat_lines_def print_header_def print_code_def)
  show ?thesis
    using psv_print_parse [OF titles accepted size, of "(sample_psv_buffers 3)\<lparr>cheat_buffer := [zero_cheat, zero_cheat]\<rparr>"]
      codes by (auto simp: sample_psv_buffers_def)
qed

end
