(* ===== verification/VC_Psv_Reads.thy ===== *)
theory VC_Psv_Reads
  imports VC_Psv "HOL-Library.Monad_Syntax"
begin

unbundle bit_operations_syntax

text \<open>
  The reads of the legacy parser. The routines of \<^verbatim>\<open>src/legacy_psv.c\<close> are written once more, in the order in which C
  evaluates them, over a reader that fails outside the bytes it may read, with a subtraction that fails where
  the one of \<^verbatim>\<open>size_t\<close> would wrap around, and with \<^verbatim>\<open>&&\<close> and \<^verbatim>\<open>||\<close> that evaluate their right operand only when C
  does. \<open>None\<close> is a read out of bounds or a difference that wraps. The loop of these routines never fails and
  does what the loop of \<open>VC_Psv\<close> does.
\<close>

section \<open>Reads that can fail\<close>

type_synonym reader = "nat \<Rightarrow> uint8_t option"

definition byte_reader :: "uint8_t list \<Rightarrow> nat \<Rightarrow> nat \<Rightarrow> reader" where
  "byte_reader source lo hi i = (if lo \<le> i \<and> i < hi \<and> i < length source then Some (source ! i) else None)"

definition test_byte :: "reader \<Rightarrow> nat \<Rightarrow> (uint8_t \<Rightarrow> bool) \<Rightarrow> bool option" where
  "test_byte R i P = map_option P (R i)"

definition and_also :: "bool option \<Rightarrow> bool option \<Rightarrow> bool option" where
  "and_also p q = do { b \<leftarrow> p; if b then q else Some False }"

definition or_else :: "bool option \<Rightarrow> bool option \<Rightarrow> bool option" where
  "or_else p q = do { b \<leftarrow> p; if b then Some True else q }"

definition difference :: "nat \<Rightarrow> nat \<Rightarrow> nat option" where
  "difference m n = (if n \<le> m then Some (m - n) else None)"

lemma byte_reader_in [simp]:
  "lo \<le> i \<Longrightarrow> i < hi \<Longrightarrow> hi \<le> length source \<Longrightarrow> byte_reader source lo hi i = Some (source ! i)"
  by (simp add: byte_reader_def)

lemma test_byte_in [simp]:
  "lo \<le> i \<Longrightarrow> i < hi \<Longrightarrow> hi \<le> length source \<Longrightarrow>
    test_byte (byte_reader source lo hi) i P = Some (P (source ! i))"
  by (simp add: test_byte_def)

lemma and_also_simps [simp]:
  "and_also (Some False) q = Some False" "and_also (Some True) q = q"
  by (simp_all add: and_also_def)

lemma or_else_simps [simp]:
  "or_else (Some True) q = Some True" "or_else (Some False) q = q"
  by (simp_all add: or_else_def)

lemma and_also_Some: "(a \<Longrightarrow> q = Some b) \<Longrightarrow> and_also (Some a) q = Some (a \<and> b)"
  by (cases a) simp_all

lemma or_else_Some: "(\<not> a \<Longrightarrow> q = Some b) \<Longrightarrow> or_else (Some a) q = Some (a \<or> b)"
  by (cases a) simp_all

lemma and_also_TrueD: "and_also p q = Some True \<Longrightarrow> p = Some True \<and> q = Some True"
  by (cases p) (auto simp: and_also_def split: if_splits)

lemma difference_Some [simp]: "n \<le> m \<Longrightarrow> difference m n = Some (m - n)"
  by (simp add: difference_def)

section \<open>Blanks\<close>

function skip_spaces_checked :: "reader \<Rightarrow> nat \<Rightarrow> nat \<Rightarrow> nat option" where
  "skip_spaces_checked R start stop = do {
     more \<leftarrow> and_also (Some (start < stop)) (test_byte R start ascii_space);
     if more then skip_spaces_checked R (Suc start) stop else Some start
   }"
  by pat_completeness auto
termination
  by (relation "measure (\<lambda>(R, start, stop). stop - start)") (auto dest!: and_also_TrueD)

declare skip_spaces_checked.simps [simp del]

function drop_spaces_checked :: "reader \<Rightarrow> nat \<Rightarrow> nat \<Rightarrow> nat option" where
  "drop_spaces_checked R start stop = do {
     more \<leftarrow> and_also (Some (stop > start))
       (do { i \<leftarrow> difference stop 1; test_byte R i ascii_space });
     if more then drop_spaces_checked R start (stop - 1) else Some stop
   }"
  by pat_completeness auto
termination
  by (relation "measure (\<lambda>(R, start, stop). stop)") (auto dest!: and_also_TrueD)

declare drop_spaces_checked.simps [simp del]

definition trim_span_checked :: "reader \<Rightarrow> nat \<Rightarrow> nat \<Rightarrow> (nat \<times> nat) option" where
  "trim_span_checked R start stop = do {
     start' \<leftarrow> skip_spaces_checked R start stop;
     stop' \<leftarrow> drop_spaces_checked R start' stop;
     Some (start', stop')
   }"

lemma skip_spaces_reads:
  assumes "lo \<le> start" and "stop \<le> hi" and "hi \<le> length source"
  shows "skip_spaces_checked (byte_reader source lo hi) start stop = Some (skip_spaces source start stop)"
  using assms
proof (induction source start stop rule: skip_spaces.induct)
  case (1 source start stop)
  have "and_also (Some (start < stop)) (test_byte (byte_reader source lo hi) start ascii_space) =
      Some (start < stop \<and> ascii_space (source ! start))"
    using 1 by (intro and_also_Some) simp
  with 1 show ?case
    by (simp add: skip_spaces_checked.simps [of _ start stop] skip_spaces.simps [of source start stop])
qed

lemma drop_spaces_reads:
  assumes "lo \<le> start" and "stop \<le> hi" and "hi \<le> length source"
  shows "drop_spaces_checked (byte_reader source lo hi) start stop = Some (drop_spaces source start stop)"
  using assms
proof (induction source start stop rule: drop_spaces.induct)
  case (1 source start stop)
  have "and_also (Some (stop > start))
      (do { i \<leftarrow> difference stop 1; test_byte (byte_reader source lo hi) i ascii_space }) =
      Some (stop > start \<and> ascii_space (source ! (stop - 1)))"
    using 1 by (intro and_also_Some) simp
  with 1 show ?case
    by (simp add: drop_spaces_checked.simps [of _ start stop] drop_spaces.simps [of source start stop])
qed

lemma trim_span_reads:
  assumes "lo \<le> start" and "start \<le> stop" and "stop \<le> hi" and "hi \<le> length source"
  shows "trim_span_checked (byte_reader source lo hi) start stop = Some (trim_span source start stop)"
  using assms skip_spaces_bounds [OF assms(2), of source]
  by (simp add: trim_span_checked_def trim_span_def Let_def skip_spaces_reads drop_spaces_reads)

section \<open>The code line\<close>

function parse_hex_loop_checked ::
  "reader \<Rightarrow> nat \<Rightarrow> nat \<Rightarrow> nat \<Rightarrow> uint32_t \<Rightarrow> uint32_t option option" where
  "parse_hex_loop_checked R offset digits index parsed =
     (if index < digits
      then do {
        v \<leftarrow> R (offset + index);
        let digit = hex_value v;
        if digit < 0 then Some None
        else parse_hex_loop_checked R offset digits (Suc index) (push_bit 4 parsed OR of_int digit)
      }
      else Some (Some parsed))"
  by pat_completeness auto
termination
  by (relation "measure (\<lambda>(R, offset, digits, index, parsed). digits - index)") auto

declare parse_hex_loop_checked.simps [simp del]

text \<open>\<^verbatim>\<open>end - begin < digits || !parse_hex_exact(source, begin, digits, &value)\<close>\<close>

definition parse_field_checked :: "reader \<Rightarrow> nat \<Rightarrow> nat \<Rightarrow> nat \<Rightarrow> uint32_t option option" where
  "parse_field_checked R start stop digits = do {
     room \<leftarrow> difference stop start;
     if room < digits then Some None else parse_hex_loop_checked R start digits 0 0
   }"

text \<open>\<^verbatim>\<open>begin == end || !ascii_space(source[begin])\<close>, then the blanks\<close>

definition parse_blanks_checked :: "reader \<Rightarrow> nat \<Rightarrow> nat \<Rightarrow> nat option option" where
  "parse_blanks_checked R start stop = do {
     bad \<leftarrow> or_else (Some (start = stop)) (test_byte R start (\<lambda>v. \<not> ascii_space v));
     if bad then Some None else map_option Some (skip_spaces_checked R start stop)
   }"

definition parse_code_checked ::
  "reader \<Rightarrow> nat \<Rightarrow> nat \<Rightarrow> (uint16_t \<times> uint32_t \<times> uint32_t) option option" where
  "parse_code_checked R start0 stop = do {
     bad \<leftarrow> or_else (do { room \<leftarrow> difference stop start0; Some (room < 1 + 4 + 1 + 8 + 1 + 8) })
       (test_byte R start0 (\<lambda>v. v \<noteq> ascii CHR ''$''));
     if bad then Some None
     else do {
       field1 \<leftarrow> parse_field_checked R (start0 + 1) stop 4;
       case field1 of None \<Rightarrow> Some None
       | Some parsed_code \<Rightarrow> do {
           blanks1 \<leftarrow> parse_blanks_checked R (start0 + 1 + 4) stop;
           case blanks1 of None \<Rightarrow> Some None
           | Some start3 \<Rightarrow> do {
               field2 \<leftarrow> parse_field_checked R start3 stop 8;
               case field2 of None \<Rightarrow> Some None
               | Some address \<Rightarrow> do {
                   blanks2 \<leftarrow> parse_blanks_checked R (start3 + 8) stop;
                   case blanks2 of None \<Rightarrow> Some None
                   | Some start5 \<Rightarrow> do {
                       field3 \<leftarrow> parse_field_checked R start5 stop 8;
                       case field3 of None \<Rightarrow> Some None
                       | Some val \<Rightarrow> do {
                           last \<leftarrow> skip_spaces_checked R (start5 + 8) stop;
                           Some (if last \<noteq> stop then None
                                 else Some (ucast parsed_code, address, val))
                         }
                     }
                 }
             }
         }
     }
   }"

lemma parse_hex_loop_reads:
  assumes "lo \<le> offset" and "offset + digits \<le> hi" and "hi \<le> length source"
  shows "parse_hex_loop_checked (byte_reader source lo hi) offset digits index parsed =
    Some (parse_hex_loop source offset digits index parsed)"
  using assms
proof (induction source offset digits index parsed rule: parse_hex_loop.induct)
  case (1 source offset digits index parsed)
  then show ?case
    by (simp add: Let_def parse_hex_loop_checked.simps [of _ offset digits index parsed]
        parse_hex_loop.simps [of source offset digits index parsed])
qed

lemma parse_field_reads:
  assumes "lo \<le> start" and "start \<le> stop" and "stop \<le> hi" and "hi \<le> length source"
  shows "parse_field_checked (byte_reader source lo hi) start stop digits =
    Some (if stop - start < digits then None else parse_hex_exact source start digits)"
  using assms by (simp add: parse_field_checked_def parse_hex_exact_def parse_hex_loop_reads)

lemma parse_blanks_reads:
  assumes "lo \<le> start" and "start \<le> stop" and "stop \<le> hi" and "hi \<le> length source"
  shows "parse_blanks_checked (byte_reader source lo hi) start stop =
    Some (if start = stop \<or> \<not> ascii_space (source ! start) then None else Some (skip_spaces source start stop))"
proof -
  have "or_else (Some (start = stop)) (test_byte (byte_reader source lo hi) start (\<lambda>v. \<not> ascii_space v)) =
      Some (start = stop \<or> \<not> ascii_space (source ! start))"
    using assms by (intro or_else_Some) simp
  with assms show ?thesis
    by (simp add: parse_blanks_checked_def skip_spaces_reads)
qed

lemma parse_code_reads:
  assumes "lo \<le> start" and "start \<le> stop" and "stop \<le> hi" and "hi \<le> length source"
  shows "parse_code_checked (byte_reader source lo hi) start stop = Some (parse_code source start stop)"
proof (cases "stop - start < 23 \<or> source ! start \<noteq> ascii CHR ''$''")
  case True
  have "or_else (do { room \<leftarrow> difference stop start; Some (room < 1 + 4 + 1 + 8 + 1 + 8) })
      (test_byte (byte_reader source lo hi) start (\<lambda>v. v \<noteq> ascii CHR ''$'')) = Some True"
    using True assms by (cases "stop - start < 23") simp_all
  with True show ?thesis
    by (simp add: parse_code_checked_def parse_code_def)
next
  case False
  define start3 where "start3 = skip_spaces source (start + 1 + 4) stop"
  define start5 where "start5 = skip_spaces source (start3 + 8) stop"
  let ?R = "byte_reader source lo hi"
  note field = parse_field_reads [OF _ _ assms(3,4)] and blanks = parse_blanks_reads [OF _ _ assms(3,4)]
  have room: "start + 23 \<le> stop"
    using False by linarith
  then have start3: "start \<le> start3" "start3 \<le> stop"
    using skip_spaces_bounds [of "start + 1 + 4" stop source] unfolding start3_def by linarith+
  have start5: "start \<le> start5 \<and> start5 \<le> stop" if "\<not> stop - start3 < 8"
    using that start3 skip_spaces_bounds [of "start3 + 8" stop source] unfolding start5_def by linarith
  have first: "or_else (do { room \<leftarrow> difference stop start; Some (room < 1 + 4 + 1 + 8 + 1 + 8) })
      (test_byte ?R start (\<lambda>v. v \<noteq> ascii CHR ''$'')) = Some False"
    using False room assms by simp
  have field1: "parse_field_checked ?R (start + 1) stop 4 = Some (parse_hex_exact source (start + 1) 4)"
    using room assms(1) by (subst field) auto
  have blanks1: "parse_blanks_checked ?R (start + 1 + 4) stop =
      Some (if start + 1 + 4 = stop \<or> \<not> ascii_space (source ! (start + 1 + 4)) then None else Some start3)"
    unfolding start3_def using room assms(1) by (intro blanks) auto
  have field2: "parse_field_checked ?R start3 stop 8 =
      Some (if stop - start3 < 8 then None else parse_hex_exact source start3 8)"
    using start3 assms(1) by (intro field) auto
  have blanks2: "parse_blanks_checked ?R (start3 + 8) stop =
      Some (if start3 + 8 = stop \<or> \<not> ascii_space (source ! (start3 + 8)) then None else Some start5)"
    if "\<not> stop - start3 < 8"
    unfolding start5_def using that start3 assms(1) by (intro blanks) auto
  have field3: "parse_field_checked ?R start5 stop 8 =
      Some (if stop - start5 < 8 then None else parse_hex_exact source start5 8)" if "\<not> stop - start3 < 8"
    using start5 [OF that] assms(1) by (intro field) auto
  have skip: "skip_spaces_checked ?R (start5 + 8) stop = Some (skip_spaces source (start5 + 8) stop)"
    if "\<not> stop - start3 < 8"
    using start5 [OF that] assms by (intro skip_spaces_reads) auto
  have enough: "\<not> stop - (start + 1) < 4" "\<not> (stop - start < 1 + 4 + 1 + 8 + 1 + 8 \<or> source ! start \<noteq> ascii CHR ''$'')"
    using room False by auto
  show ?thesis
    unfolding parse_code_checked_def parse_code_def Let_def first field1 blanks1 field2 Option.bind.bind_lunit
      start3_def [symmetric] start5_def [symmetric] if_not_P [OF enough(1)] if_not_P [OF enough(2)] if_False
    by (simp add: field2 blanks2 field3 skip split: option.split)
qed

section \<open>The branches of an iteration\<close>

definition psv_header_checked :: "reader \<Rightarrow> nat \<Rightarrow> nat \<Rightarrow> nat \<Rightarrow> psv_state \<Rightarrow> psv_state option" where
  "psv_header_checked R line_index trimmed_begin trimmed_end s0 = do {
     act \<leftarrow> R (trimmed_begin + 2);
     let description_begin = trimmed_begin + 3;
     let s = finalize_active_cheat s0;
     bad \<leftarrow> or_else (Some (act \<noteq> ascii CHR ''0'' \<and> act \<noteq> ascii CHR ''1''))
       (and_also (Some (description_begin < trimmed_end))
         (test_byte R description_begin (\<lambda>v. \<not> ascii_space v)));
     if bad then Some (reset_active None (mark_malformed line_index s))
     else do {
       description_begin \<leftarrow> skip_spaces_checked R description_begin trimmed_end;
       _ \<leftarrow> difference trimmed_end description_begin;
       Some (start_cheat
         (if act = ascii CHR ''1'' then VC_PSV_ACTIVATION_AUTOSTART else VC_PSV_ACTIVATION_MANUAL)
         line_index description_begin trimmed_end s)
     }
   }"

definition psv_code_checked :: "reader \<Rightarrow> nat \<Rightarrow> nat \<Rightarrow> nat \<Rightarrow> psv_state \<Rightarrow> psv_state option" where
  "psv_code_checked R line_index trimmed_begin trimmed_end s =
     (case active_cheat s of
        None \<Rightarrow> Some (mark_malformed line_index s)
      | Some active \<Rightarrow> do {
          parsed \<leftarrow> parse_code_checked R trimmed_begin trimmed_end;
          Some (case parsed of
                  None \<Rightarrow> mark_malformed line_index s
                | Some code_line \<Rightarrow> add_operation line_index active code_line s)
        })"

definition psv_classify_checked :: "reader \<Rightarrow> nat \<Rightarrow> nat \<Rightarrow> nat \<Rightarrow> psv_state \<Rightarrow> psv_state option" where
  "psv_classify_checked R line_index content_begin content_end s = do {
     (trimmed_begin, trimmed_end) \<leftarrow> trim_span_checked R content_begin content_end;
     if trimmed_begin = trimmed_end
     then Some (update_line line_index (line_kind_update (\<lambda>_. VC_PSV_LINE_BLANK)) s)
     else do {
       comment \<leftarrow> test_byte R trimmed_begin (\<lambda>v. v = ascii CHR ''#'');
       if comment then Some (update_line line_index (line_kind_update (\<lambda>_. VC_PSV_LINE_COMMENT)) s)
       else do {
         header \<leftarrow> and_also (do { room \<leftarrow> difference trimmed_end trimmed_begin; Some (room \<ge> 3) })
           (and_also (test_byte R trimmed_begin (\<lambda>v. v = ascii CHR ''_''))
             (test_byte R (trimmed_begin + 1) (\<lambda>v. v = ascii CHR ''V'')));
         if header then psv_header_checked R line_index trimmed_begin trimmed_end s
         else do {
           code \<leftarrow> test_byte R trimmed_begin (\<lambda>v. v = ascii CHR ''$'');
           if code then psv_code_checked R line_index trimmed_begin trimmed_end s
           else Some (psv_opaque line_index s)
         }
       }
     }
   }"

lemma psv_header_reads:
  assumes "lo \<le> start" and "start + 3 \<le> stop" and "stop \<le> hi" and "hi \<le> length source"
  shows "psv_header_checked (byte_reader source lo hi) line_index start stop s =
    Some (psv_header source line_index start stop s)"
proof -
  have "and_also (Some (start + 3 < stop)) (test_byte (byte_reader source lo hi) (start + 3) (\<lambda>v. \<not> ascii_space v)) =
      Some (start + 3 < stop \<and> \<not> ascii_space (source ! (start + 3)))"
    using assms by (intro and_also_Some) simp
  then have bad: "or_else (Some a) (and_also (Some (start + 3 < stop))
        (test_byte (byte_reader source lo hi) (start + 3) (\<lambda>v. \<not> ascii_space v))) =
      Some (a \<or> start + 3 < stop \<and> \<not> ascii_space (source ! (start + 3)))" for a
    by (intro or_else_Some) simp
  have act: "byte_reader source lo hi (start + 2) = Some (source ! (start + 2))"
    using assms by simp
  have skip: "skip_spaces_checked (byte_reader source lo hi) (start + 3) stop = Some (skip_spaces source (start + 3) stop)"
    using assms by (intro skip_spaces_reads) simp_all
  show ?thesis
    unfolding psv_header_checked_def psv_header_def Let_def act bad skip Option.bind.bind_lunit
    using skip_spaces_bounds(2) [OF assms(2), of source] by simp
qed

lemma psv_code_reads:
  assumes "lo \<le> start" and "start \<le> stop" and "stop \<le> hi" and "hi \<le> length source"
  shows "psv_code_checked (byte_reader source lo hi) line_index start stop s =
    Some (psv_code source line_index start stop s)"
  using assms by (simp add: psv_code_checked_def psv_code_def parse_code_reads split: option.split)

lemma psv_classify_reads:
  assumes "lo \<le> content_begin" and "content_begin \<le> content_end" and "content_end \<le> hi" and "hi \<le> length source"
  shows "psv_classify_checked (byte_reader source lo hi) line_index content_begin content_end s =
    Some (psv_classify source line_index content_begin content_end s)"
proof -
  let ?R = "byte_reader source lo hi"
  obtain b e where trim: "trim_span source content_begin content_end = (b, e)"
    by fastforce
  note bounds = trim_span_bounds [OF assms(2) trim]
  have header: "and_also (do { room \<leftarrow> difference e b; Some (room \<ge> 3) })
        (and_also (test_byte ?R b (\<lambda>v. v = ascii CHR ''_'')) (test_byte ?R (b + 1) (\<lambda>v. v = ascii CHR ''V''))) =
      Some (e - b \<ge> 3 \<and> source ! b = ascii CHR ''_'' \<and> source ! (b + 1) = ascii CHR ''V'')" if "b \<noteq> e"
  proof -
    have "and_also (test_byte ?R b (\<lambda>v. v = ascii CHR ''_'')) (test_byte ?R (b + 1) (\<lambda>v. v = ascii CHR ''V'')) =
        Some (source ! b = ascii CHR ''_'' \<and> source ! (b + 1) = ascii CHR ''V'')" if "e - b \<ge> 3"
      using that bounds assms by (simp add: and_also_Some)
    with bounds show ?thesis
      by (simp add: and_also_Some)
  qed
  have branch: "psv_header_checked ?R line_index b e s = Some (psv_header source line_index b e s)" if "e - b \<ge> 3"
    using that bounds assms by (intro psv_header_reads) linarith+
  have code: "psv_code_checked ?R line_index b e s = Some (psv_code source line_index b e s)"
    using bounds assms by (intro psv_code_reads) linarith+
  have test: "test_byte ?R b P = Some (P (source ! b))" if "b \<noteq> e" for P
    using that bounds assms by simp
  have spans: "trim_span_checked ?R content_begin content_end = Some (b, e)"
    using assms by (simp add: trim_span_reads trim)
  show ?thesis
  proof (cases "b = e")
    case True
    then show ?thesis
      by (simp add: psv_classify_checked_def psv_classify_def spans trim)
  next
    case False
    then show ?thesis
      using branch
      unfolding psv_classify_checked_def psv_classify_def spans trim Let_def Option.bind.bind_lunit prod.case
        header [OF False]
      unfolding test [OF False] code by simp
  qed
qed

section \<open>An iteration and the loop\<close>

function find_line_end_checked :: "reader \<Rightarrow> nat \<Rightarrow> nat \<Rightarrow> nat option" where
  "find_line_end_checked R size_bound pos = do {
     more \<leftarrow> and_also (Some (pos < size_bound))
       (and_also (test_byte R pos (\<lambda>v. v \<noteq> ascii CHR 0x0D)) (test_byte R pos (\<lambda>v. v \<noteq> ascii CHR 0x0A)));
     if more then find_line_end_checked R size_bound (Suc pos) else Some pos
   }"
  by pat_completeness auto
termination
  by (relation "measure (\<lambda>(R, size_bound, pos). size_bound - pos)") (auto dest!: and_also_TrueD)

declare find_line_end_checked.simps [simp del]

definition skip_line_break_checked :: "reader \<Rightarrow> nat \<Rightarrow> nat \<Rightarrow> nat option" where
  "skip_line_break_checked R size_bound pos = do {
     cr \<leftarrow> and_also (Some (pos < size_bound)) (test_byte R pos (\<lambda>v. v = ascii CHR 0x0D));
     if cr
     then do {
       lf \<leftarrow> and_also (Some (pos + 1 < size_bound)) (test_byte R (pos + 1) (\<lambda>v. v = ascii CHR 0x0A));
       Some (if lf then pos + 2 else pos + 1)
     }
     else do {
       lf \<leftarrow> and_also (Some (pos < size_bound)) (test_byte R pos (\<lambda>v. v = ascii CHR 0x0A));
       Some (if lf then pos + 1 else pos)
     }
   }"

definition skip_byte_order_mark_checked :: "reader \<Rightarrow> nat \<Rightarrow> nat \<Rightarrow> nat \<Rightarrow> nat option" where
  "skip_byte_order_mark_checked R line_index content_begin content_end = do {
     mark \<leftarrow> and_also (Some (line_index = 0))
       (and_also (do { room \<leftarrow> difference content_end content_begin; Some (room \<ge> 3) })
         (and_also (test_byte R content_begin (\<lambda>v. v = 0xef))
           (and_also (test_byte R (content_begin + 1) (\<lambda>v. v = 0xbb))
             (test_byte R (content_begin + 2) (\<lambda>v. v = 0xbf)))));
     Some (if mark then content_begin + 3 else content_begin)
   }"

text \<open>The line is split over the bytes of the source, and its content is tested over its own bytes only.\<close>

definition psv_step_checked :: "uint8_t list \<Rightarrow> psv_state \<Rightarrow> psv_state option" where
  "psv_step_checked source s = do {
     let raw_begin = position s;
     let line_index = total_lines (result s);
     let all = byte_reader source 0 (length source);
     content_end \<leftarrow> find_line_end_checked all (length source) raw_begin;
     raw_end \<leftarrow> skip_line_break_checked all (length source) content_end;
     content_begin \<leftarrow> skip_byte_order_mark_checked (byte_reader source raw_begin content_end)
       line_index raw_begin content_end;
     _ \<leftarrow> difference raw_end raw_begin;
     _ \<leftarrow> difference content_end content_begin;
     let s1 = store_line line_index raw_begin raw_end content_begin content_end (s\<lparr>position := raw_end\<rparr>);
     let s2 = (if line_index < length (lines s1) then count_up stored_lines_update s1 else s1);
     psv_classify_checked (byte_reader source content_begin content_end) line_index content_begin content_end
       (count_up total_lines_update s2)
   }"

partial_function (option) psv_loop_checked :: "uint8_t list \<Rightarrow> psv_state \<Rightarrow> psv_state option" where
  "psv_loop_checked source s =
     (if position s < length source
      then do { s' \<leftarrow> psv_step_checked source s; psv_loop_checked source s' }
      else Some s)"

lemma find_line_end_reads:
  "find_line_end_checked (byte_reader source 0 (length source)) (length source) pos = Some (find_line_end source pos)"
proof (induction source pos rule: find_line_end.induct)
  case (1 source pos)
  let ?R = "byte_reader source 0 (length source)"
  have "and_also (Some (pos < length source))
      (and_also (test_byte ?R pos (\<lambda>v. v \<noteq> ascii CHR 0x0D)) (test_byte ?R pos (\<lambda>v. v \<noteq> ascii CHR 0x0A))) =
      Some (pos < length source \<and> source ! pos \<noteq> ascii CHR 0x0D \<and> source ! pos \<noteq> ascii CHR 0x0A)"
    by (intro and_also_Some) (simp add: and_also_Some)
  with 1 show ?case
    by (simp add: find_line_end_checked.simps [of _ _ pos] find_line_end.simps [of source pos])
qed

lemma skip_line_break_reads:
  "skip_line_break_checked (byte_reader source 0 (length source)) (length source) pos =
    Some (skip_line_break source pos)"
proof -
  have "and_also (Some (pos < length source)) (test_byte (byte_reader source 0 (length source)) pos P) =
      Some (pos < length source \<and> P (source ! pos))" for pos P
    by (intro and_also_Some) simp
  then show ?thesis
    by (simp add: skip_line_break_checked_def skip_line_break_def)
qed

lemma skip_byte_order_mark_reads:
  assumes "start \<le> stop" and "stop \<le> length source"
  shows "skip_byte_order_mark_checked (byte_reader source start stop) line_index start stop =
    Some (skip_byte_order_mark source line_index start stop)"
proof (cases "stop - start \<ge> 3")
  case True
  with assms show ?thesis
    by (simp add: skip_byte_order_mark_checked_def skip_byte_order_mark_def and_also_Some)
next
  case False
  with assms show ?thesis
    by (cases "line_index = 0") (simp_all add: skip_byte_order_mark_checked_def skip_byte_order_mark_def)
qed

lemma skip_byte_order_mark_within:
  "start \<le> stop \<Longrightarrow> skip_byte_order_mark source line_index start stop \<le> stop"
  by (auto simp: skip_byte_order_mark_def)

lemma psv_step_reads:
  assumes "position s < length source"
  shows "psv_step_checked source s = Some (psv_step source s)"
proof -
  let ?stop = "find_line_end source (position s)"
  let ?start = "skip_byte_order_mark source (total_lines (result s)) (position s) ?stop"
  have stop: "position s \<le> ?stop" "?stop \<le> length source"
    using assms find_line_end_ge find_line_end_le by (auto simp: less_imp_le)
  have start: "?start \<le> ?stop"
    using stop(1) by (rule skip_byte_order_mark_within)
  have break: "position s \<le> skip_line_break source ?stop"
    using stop(1) skip_line_break_bounds(1) by (rule order_trans)
  show ?thesis
    unfolding psv_step_checked_def psv_step_def Let_def find_line_end_reads skip_line_break_reads
      skip_byte_order_mark_reads [OF stop] Option.bind.bind_lunit difference_Some [OF start] difference_Some [OF break]
    using start stop(2) by (intro psv_classify_reads) simp_all
qed

text \<open>C34. No read out of bounds. With every read checked, in the order in which the parser evaluates its tests,
  the loop over a source fails nowhere, ends, and has the state of the unchecked loop: the splitting of a
  line reads bytes of the source only, and the tests of a line's content read bytes of that content only, never
  the byte at or behind its end; no subtraction of two positions wraps around.
\<close>

theorem psv_loop_reads: "psv_loop_checked source s = Some (psv_loop source s)"
proof (induction source s rule: psv_loop.induct)
  case (1 source s)
  then show ?case
    by (subst psv_loop_checked.simps, subst psv_loop.simps) (simp add: psv_step_reads)
qed

end
