(* ===== verification/VC_Psv_Stream.thy ===== *)
theory VC_Psv_Stream
  imports VC_Psv_Text
begin

unbundle bit_operations_syntax

text \<open>
  The parser line by line on what remains of the source. \<open>psv_classify_at\<close> looks at the content of one line only
  and \<open>psv_stream\<close> consumes the source from the front; both are proved equal to the routines of \<open>VC_Psv\<close>,
  which index into the whole source. The effect of a line therefore depends on its text and, for the spans it
  stores, on where it stands. The cases of \<open>VC_Psv_Host_Tests\<close> are evaluated by these equations.
\<close>

section \<open>Positions in a part of the source\<close>

lemma segment_segment:
  assumes "start \<le> stop" and "stop \<le> length source" and "j \<le> stop - start"
  shows "segment (segment source start stop) i j = segment source (start + i) (start + j)"
  using assms by (simp add: segment_def drop_take min_def add.commute)

lemma skip_spaces_shift:
  assumes "start \<le> stop" and "stop \<le> length source" and "i \<le> j" and "j \<le> stop - start"
  shows "skip_spaces source (start + i) (start + j) = start + skip_spaces (segment source start stop) i j"
  using assms by (simp add: skip_spaces_segment length_segment segment_segment)

lemma drop_spaces_length:
  assumes "start \<le> stop" and "stop \<le> length source"
  shows "drop_spaces source start stop =
    start + length (dropWhile ascii_space (rev (segment source start stop)))"
proof -
  have "length (segment source start (drop_spaces source start stop)) = drop_spaces source start stop - start"
    using drop_spaces_bounds(2) [OF assms(1), of source] assms(2) by (simp add: length_segment)
  then show ?thesis
    using drop_spaces_bounds(1) [OF assms(1), of source] by (simp add: drop_spaces_text [OF assms])
qed

lemma trim_span_shift:
  assumes "start \<le> stop" and "stop \<le> length source"
  shows "trim_span source start stop =
    map_prod ((+) start) ((+) start) (trim_span (segment source start stop) 0 (stop - start))"
proof -
  let ?text = "segment source start stop"
  let ?b = "skip_spaces ?text 0 (stop - start)"
  have begin_at: "skip_spaces source start stop = start + ?b"
    using skip_spaces_shift [OF assms, of 0 "stop - start"] assms(1) by simp
  have b: "?b \<le> stop - start"
    by (rule skip_spaces_bounds) simp
  then have "drop_spaces source (start + ?b) stop = start + drop_spaces ?text ?b (stop - start)"
    using assms segment_segment [OF assms, of "stop - start" ?b]
    by (simp add: drop_spaces_length length_segment)
  with begin_at show ?thesis
    by (simp add: trim_span_def Let_def)
qed

lemma parse_code_shift:
  assumes "start \<le> stop" and "stop \<le> length source" and "i \<le> j" and "j \<le> stop - start"
  shows "parse_code source (start + i) (start + j) = parse_code (segment source start stop) i j"
proof -
  have "parse_code source (start + i) (start + j) = Some (c, a, v) \<longleftrightarrow>
      parse_code (segment source start stop) i j = Some (c, a, v)" for c a v
    using assms by (simp add: parse_code_iff segment_segment length_segment)
  then show ?thesis
    by (metis not_Some_eq prod_cases3)
qed

section \<open>One line\<close>

definition psv_header_at :: "nat \<Rightarrow> uint8_t list \<Rightarrow> nat \<Rightarrow> nat \<Rightarrow> nat \<Rightarrow> psv_state \<Rightarrow> psv_state" where
  "psv_header_at offset text line_index b e s0 =
     (let act = text ! (b + 2); s = finalize_active_cheat s0
      in if (act \<noteq> ascii CHR ''0'' \<and> act \<noteq> ascii CHR ''1'') \<or> (b + 3 < e \<and> \<not> ascii_space (text ! (b + 3)))
         then reset_active None (mark_malformed line_index s)
         else start_cheat
                (if act = ascii CHR ''1'' then VC_PSV_ACTIVATION_AUTOSTART else VC_PSV_ACTIVATION_MANUAL)
                line_index (offset + skip_spaces text (b + 3) e) (offset + e) s)"

definition psv_classify_at :: "nat \<Rightarrow> uint8_t list \<Rightarrow> nat \<Rightarrow> psv_state \<Rightarrow> psv_state" where
  "psv_classify_at offset text line_index s =
     (let (b, e) = trim_span text 0 (length text)
      in if b = e then update_line line_index (line_kind_update (\<lambda>_. VC_PSV_LINE_BLANK)) s
         else if text ! b = ascii CHR ''#''
         then update_line line_index (line_kind_update (\<lambda>_. VC_PSV_LINE_COMMENT)) s
         else if e - b \<ge> 3 \<and> text ! b = ascii CHR ''_'' \<and> text ! (b + 1) = ascii CHR ''V''
         then psv_header_at offset text line_index b e s
         else if text ! b = ascii CHR ''$'' then psv_code text line_index b e s
         else psv_opaque line_index s)"

lemma psv_header_shift:
  assumes "start \<le> stop" and "stop \<le> length source" and "b + 3 \<le> e" and "e \<le> stop - start"
  shows "psv_header source line_index (start + b) (start + e) s =
    psv_header_at start (segment source start stop) line_index b e s"
proof -
  have at: "segment source start stop ! i = source ! (start + i)" if "i < e" for i
    using assms that by (simp add: nth_segment)
  have skip: "skip_spaces source (start + b + 3) (start + e) = start + skip_spaces (segment source start stop) (b + 3) e"
    using skip_spaces_shift [OF assms(1,2,3,4)] by (simp add: add.assoc)
  have act: "source ! (start + b + 2) = segment source start stop ! (b + 2)"
    using at [of "b + 2"] assms(3) by (simp add: add.assoc)
  have guard: "start + b + 3 < start + e \<and> \<not> ascii_space (source ! (start + b + 3)) \<longleftrightarrow>
      b + 3 < e \<and> \<not> ascii_space (segment source start stop ! (b + 3))"
    using at [of "b + 3"] by (auto simp: add.assoc)
  show ?thesis
    unfolding psv_header_def psv_header_at_def Let_def act guard skip by (rule refl)
qed

lemma psv_classify_shift:
  assumes "start \<le> stop" and "stop \<le> length source"
  shows "psv_classify source line_index start stop s =
    psv_classify_at start (segment source start stop) line_index s"
proof -
  let ?text = "segment source start stop"
  obtain b e where trim: "trim_span ?text 0 (stop - start) = (b, e)"
    by fastforce
  note bounds = trim_span_bounds [OF _ trim, simplified]
  have whole: "trim_span source start stop = (start + b, start + e)"
    by (simp add: trim_span_shift [OF assms] trim)
  have at: "?text ! i = source ! (start + i)" if "i < e" for i
    using assms that bounds by (simp add: nth_segment)
  have code: "psv_code source line_index (start + b) (start + e) s = psv_code ?text line_index b e s"
    using bounds by (simp add: psv_code_def parse_code_shift [OF assms])
  have size: "length ?text = stop - start"
    by (rule length_segment [OF assms(2)])
  show ?thesis
  proof (cases "b = e")
    case True
    then show ?thesis
      by (simp add: psv_classify_def psv_classify_at_def whole trim size)
  next
    case False
    then have first: "source ! (start + b) = ?text ! b"
      using at [of b] bounds by simp
    have second: "3 \<le> e - b \<Longrightarrow> source ! (start + b + 1) = ?text ! (b + 1)"
      using at [of "b + 1"] by (simp add: add.assoc)
    have header: "3 \<le> e - b \<Longrightarrow> psv_header source line_index (start + b) (start + e) s = psv_header_at start ?text line_index b e s"
      using bounds by (intro psv_header_shift [OF assms]) auto
    have widths: "start + b = start + e \<longleftrightarrow> b = e" "start + e - (start + b) = e - b"
      by auto
    show ?thesis
      unfolding psv_classify_def psv_classify_at_def Let_def whole trim size prod.case widths first code
      using second header by (cases "3 \<le> e - b") simp_all
  qed
qed

section \<open>The rest of the source\<close>

abbreviation not_break :: "uint8_t \<Rightarrow> bool" where
  "not_break v \<equiv> v \<noteq> 13 \<and> v \<noteq> 10"

definition break_length :: "uint8_t list \<Rightarrow> nat" where
  "break_length rest =
     (case rest of [] \<Rightarrow> 0 | v # vs \<Rightarrow> if v = 13 \<and> vs \<noteq> [] \<and> hd vs = 10 then 2 else if v = 13 \<or> v = 10 then 1 else 0)"

definition mark_length :: "nat \<Rightarrow> uint8_t list \<Rightarrow> nat" where
  "mark_length line_index text =
     (if line_index = 0 \<and> length text \<ge> 3 \<and> take 3 text = [0xef, 0xbb, 0xbf] then 3 else 0)"

definition psv_stream_step :: "uint8_t list \<Rightarrow> uint8_t list \<Rightarrow> psv_state \<Rightarrow> psv_state" where
  "psv_stream_step text rest s =
     (let raw_begin = position s;
          line_index = total_lines (result s);
          mark = mark_length line_index text;
          content_end = raw_begin + length text;
          raw_end = content_end + break_length rest;
          s1 = store_line line_index raw_begin raw_end (raw_begin + mark) content_end (s\<lparr>position := raw_end\<rparr>);
          s2 = (if line_index < length (lines s1) then count_up stored_lines_update s1 else s1);
          s3 = count_up total_lines_update s2
      in psv_classify_at (raw_begin + mark) (drop mark text) line_index s3)"

lemma line_shrinks:
  assumes "rest \<noteq> []"
  defines "rest' \<equiv> dropWhile not_break rest"
  shows "length rest' - break_length rest' < length rest"
proof -
  have "length rest' \<le> length rest"
    unfolding rest'_def by (rule length_dropWhile_le)
  moreover have "0 < break_length rest'" if "rest' \<noteq> []"
    using that hd_dropWhile [of not_break rest] by (cases rest') (auto simp: break_length_def rest'_def [symmetric])
  ultimately show ?thesis
    using assms(1) by (cases rest') auto
qed

function psv_stream :: "uint8_t list \<Rightarrow> psv_state \<Rightarrow> psv_state" where
  "psv_stream rest s =
     (if rest = [] then s
      else let text = takeWhile not_break rest; rest' = dropWhile not_break rest
           in psv_stream (drop (break_length rest') rest') (psv_stream_step text rest' s))"
  by pat_completeness auto
termination
  by (relation "measure (\<lambda>(rest, s). length rest)") (auto simp: line_shrinks)

declare psv_stream.simps [simp del]

lemma ascii_breaks: "ascii CHR 0x0D = 13" "ascii CHR 0x0A = 10"
  by (simp_all add: ascii_def)

lemma line_end_rest:
  assumes "pos \<le> length source"
  defines "text \<equiv> takeWhile not_break (drop pos source)" and "rest \<equiv> dropWhile not_break (drop pos source)"
  shows "find_line_end source pos = pos + length text"
    and "segment source pos (pos + length text) = text"
    and "drop (pos + length text) source = rest"
    and "skip_line_break source (pos + length text) = pos + length text + break_length rest"
proof -
  show "find_line_end source pos = pos + length text"
    by (simp add: find_line_end_takeWhile ascii_breaks text_def)
  show "segment source pos (pos + length text) = text"
    by (simp add: segment_def text_def takeWhile_eq_take [symmetric])
  show rest: "drop (pos + length text) source = rest"
    by (simp add: rest_def text_def dropWhile_eq_drop add.commute)
  let ?stop = "pos + length text"
  show "skip_line_break source ?stop = ?stop + break_length rest"
  proof (cases rest)
    case Nil
    then have "length source \<le> ?stop"
      using rest by simp
    with Nil show ?thesis
      by (simp add: skip_line_break_def break_length_def)
  next
    case (Cons v vs)
    then have "source ! ?stop = v" "?stop < length source" and vs: "drop (Suc ?stop) source = vs"
      using rest by (simp_all add: drop_Suc tl_drop [symmetric] nth_via_drop del: drop_drop) (metis drop_all not_le list.distinct(1))
    moreover have "?stop + 1 < length source \<and> source ! (?stop + 1) = 10 \<longleftrightarrow> vs \<noteq> [] \<and> hd vs = 10"
      using vs by (metis Suc_eq_plus1 drop_eq_Nil hd_drop_conv_nth not_le)
    ultimately show ?thesis
      using Cons by (auto simp: skip_line_break_def break_length_def ascii_breaks)
  qed
qed

lemma mark_of_line:
  assumes "pos + length text \<le> length source" and "segment source pos (pos + length text) = text"
  shows "skip_byte_order_mark source line_index pos (pos + length text) = pos + mark_length line_index text"
proof -
  have at: "text ! i = source ! (pos + i)" if "i < length text" for i
    using assms that nth_segment [of pos i "pos + length text" source] by simp
  have "take 3 text = [0xef, 0xbb, 0xbf] \<longleftrightarrow> source ! pos = 0xef \<and> source ! (pos + 1) = 0xbb \<and> source ! (pos + 2) = 0xbf"
    if "3 \<le> length text"
  proof -
    have "take 3 text = [text ! 0, text ! 1, text ! 2]"
      using that by (intro nth_equalityI) (auto simp: less_Suc_eq numeral_3_eq_3 numeral_2_eq_2)
    then show ?thesis
      using that at [of 0] at [of 1] at [of 2] by (cases "text = []") auto
  qed
  then show ?thesis
    by (auto simp: skip_byte_order_mark_def mark_length_def)
qed

lemma psv_step_stream:
  assumes "position s \<le> length source" and "rest = drop (position s) source"
  shows "psv_step source s = psv_stream_step (takeWhile not_break rest) (dropWhile not_break rest) s"
    and "drop (position (psv_step source s)) source =
      drop (break_length (dropWhile not_break rest)) (dropWhile not_break rest)"
proof -
  let ?pos = "position s" and ?text = "takeWhile not_break rest"
  note line = line_end_rest [OF assms(1), folded assms(2)]
  have bound: "?pos + length ?text \<le> length source"
    using find_line_end_le [OF assms(1)] unfolding line(1) .
  note mark = mark_of_line [OF bound line(2)]
  have "mark_length line_index ?text \<le> length ?text" for line_index
    by (simp add: mark_length_def)
  then have classified: "psv_classify source line_index (?pos + mark_length line_index ?text) (?pos + length ?text) s' =
      psv_classify_at (?pos + mark_length line_index ?text) (drop (mark_length line_index ?text) ?text) line_index s'"
    for line_index s'
    using bound line(2) by (simp add: psv_classify_shift segment_drop)
  show "psv_step source s = psv_stream_step ?text (dropWhile not_break rest) s"
    unfolding psv_step_def psv_stream_step_def Let_def line(1,4) mark classified by (rule refl)
  show "drop (position (psv_step source s)) source =
      drop (break_length (dropWhile not_break rest)) (dropWhile not_break rest)"
    unfolding psv_step_position line(1,4) using line(3) by (simp add: add.commute drop_drop [symmetric] del: drop_drop)
qed

theorem psv_loop_stream:
  "position s \<le> length source \<Longrightarrow> psv_loop source s = psv_stream (drop (position s) source) s"
proof (induction source s rule: psv_loop.induct)
  case (1 source s)
  let ?rest = "drop (position s) source"
  show ?case
  proof (cases "position s < length source")
    case True
    note step = psv_step_stream [OF "1.prems" refl]
    have "position (psv_step source s) \<le> length source"
      unfolding psv_step_position using find_line_end_le [OF "1.prems"] by (rule skip_line_break_bounds(2))
    then show ?thesis
      using 1 True step by (simp add: psv_loop.simps [of source s] psv_stream.simps [of ?rest] Let_def)
  next
    case False
    then show ?thesis
      by (simp add: psv_loop.simps [of source s] psv_stream.simps [of "[]"])
  qed
qed

text \<open>Lines that end in a line feed are processed one after the other.\<close>

lemma psv_stream_lines:
  assumes "\<forall>t \<in> set texts. \<forall>v \<in> set t. not_break v"
  shows "psv_stream (concat (map (\<lambda>t. t @ [10]) texts)) s = foldl (\<lambda>s t. psv_stream_step t [10] s) s texts"
  using assms
proof (induction texts arbitrary: s)
  case Nil
  then show ?case
    by (simp add: psv_stream.simps)
next
  case (Cons t texts)
  let ?rest = "concat (map (\<lambda>t. t @ [10]) texts)"
  have "takeWhile not_break (t @ 10 # ?rest) = t" "dropWhile not_break (t @ 10 # ?rest) = 10 # ?rest"
    using Cons.prems by (simp_all add: takeWhile_append2 dropWhile_append2)
  moreover have "break_length (10 # ?rest) = break_length [10]" "break_length [10] = 1"
    by (simp_all add: break_length_def)
  moreover from this have "psv_stream_step t (10 # ?rest) s = psv_stream_step t [10] s"
    by (simp add: psv_stream_step_def)
  ultimately show ?case
    using Cons by (simp add: psv_stream.simps [of "t @ 10 # ?rest"] Let_def)
qed

end
