(* ===== verification/VC_Psv_Host_Tests.thy ===== *)
theory VC_Psv_Host_Tests
  imports VC_Psv_Stream VC_Psv_Props
begin

unbundle bit_operations_syntax

text \<open>
  The test cases of \<^verbatim>\<open>tests/host/test_legacy_psv.c\<close>, run on the model. A case is the conjunction of its
  \<^verbatim>\<open>CHECK\<close>s; each of them evaluates to true. The simplifier runs the parser as the stream of \<open>VC_Psv_Stream\<close>.
\<close>

section \<open>Calls\<close>

text \<open>
  A call with arrays of the given capacities, at addresses that are apart, filled with elements that are not
  zero (the cases that look at them fill them with \<^verbatim>\<open>0xa5\<close>). An array of capacity zero is \<^verbatim>\<open>NULL\<close>.
\<close>

definition stale_buffers :: "nat \<Rightarrow> nat \<Rightarrow> nat \<Rightarrow> psv_buffers" where
  "stale_buffers line_count cheat_count op_count =
     \<lparr>line_buffer = replicate line_count (zero_line\<lparr>line_kind := VC_PSV_LINE_MALFORMED\<rparr>),
      cheat_buffer = replicate cheat_count (zero_cheat\<lparr>header_line_index := 0xa5\<rparr>),
      operation_buffer = replicate op_count (zero_operation\<lparr>operation_line := 0xa5\<rparr>),
      report_buffer = zero_report\<rparr>"

definition host_call :: "uint8_t list \<Rightarrow> nat \<Rightarrow> nat \<Rightarrow> nat \<Rightarrow> 32 psv_args" where
  "host_call source line_count cheat_count op_count =
     \<lparr>source_address = 0x10000, source_length = of_nat (length source),
      lines_address = (if line_count = 0 then 0 else 0x20000), line_capacity = of_nat line_count,
      cheats_address = (if cheat_count = 0 then 0 else 0x30000), cheat_capacity = of_nat cheat_count,
      operations_address = (if op_count = 0 then 0 else 0x40000), operation_capacity = of_nat op_count,
      report_address = 0x50000, sizeof_line = 28, sizeof_cheat = 28, sizeof_operation = 28, sizeof_report = 52\<rparr>"

definition host_parse :: "uint8_t list \<Rightarrow> nat \<Rightarrow> nat \<Rightarrow> nat \<Rightarrow> vc_psv_status \<times> psv_buffers" where
  "host_parse source line_count cheat_count op_count =
     vc_psv_parse (host_call source line_count cheat_count op_count) source
       (stale_buffers line_count cheat_count op_count)"

text \<open>Calls as small as those of the cases are accepted.\<close>

lemma host_ranges_apart:
  fixes l r :: "32 word"
  assumes "unat l + unat ls \<le> unat r" and "unat r + unat rs < 2 ^ 32"
  shows "\<not> ranges_overlap l ls r rs"
  using assms by (simp add: psv_apart apart_32)

lemma host_array_size:
  assumes "n \<le> 16"
  shows "multiply_size (of_nat n) 28 = Some (of_nat (n * 28) :: 32 word)" and "unat (of_nat (n * 28) :: 32 word) = n * 28"
proof -
  have "unat (of_nat n :: 32 word) = n" and "unat (of_nat (n * 28) :: 32 word) = n * 28"
    using assms by (simp_all add: unat_of_nat_small del: of_nat_mult)
  then show "multiply_size (of_nat n) 28 = Some (of_nat (n * 28) :: 32 word)"
    and "unat (of_nat (n * 28) :: 32 word) = n * 28"
    using assms by (auto simp: psv_guard.mult_iff)
qed

lemma host_call_accepted:
  assumes "length source \<le> 8192" and "l \<le> 16" and "c \<le> 16" and "n \<le> 16"
  shows "psv_check_arguments (host_call source l c n) = None"
proof -
  have size: "unat (of_nat (length source) :: 32 word) = length source"
    using assms(1) by (intro unat_of_nat_small) simp
  have null: "\<not> ranges_overlap 0 ls r rs" "\<not> ranges_overlap p ps 0 rs" for ls r rs p ps :: "32 word"
    by (simp_all add: ranges_overlap_def)
  show ?thesis
    using assms host_array_size [OF assms(2)] host_array_size [OF assms(3)] host_array_size [OF assms(4)]
    by (simp add: psv_check_arguments_def host_call_def VC_PSV_MAX_SOURCE_BYTES_def size host_ranges_apart null
        del: of_nat_mult)
qed

lemma host_parse_run:
  assumes "length source \<le> 8192" and "l \<le> 16" and "c \<le> 16" and "n \<le> 16"
  shows "host_parse source l c n = psv_run source (stale_buffers l c n)"
  by (simp add: host_parse_def vc_psv_parse_def host_call_accepted [OF assms])

text \<open>The sources of the cases are lists of lines.\<close>

definition source_of :: "string list \<Rightarrow> uint8_t list" where
  "source_of texts = concat (map (\<lambda>text. map ascii text @ [10]) texts)"

lemma loop_over_lines:
  assumes "position s = 0" and "\<forall>text \<in> set texts. \<forall>c \<in> set text. ascii c \<noteq> 13 \<and> ascii c \<noteq> 10"
  shows "psv_loop (source_of texts) s = foldl (\<lambda>s text. psv_stream_step (map ascii text) [10] s) s texts"
proof -
  have "source_of texts = concat (map (\<lambda>t. t @ [10]) (map (map ascii) texts))"
    by (simp add: source_of_def o_def)
  moreover have "\<forall>t \<in> set (map (map ascii) texts). \<forall>v \<in> set t. not_break v"
    using assms(2) by auto
  ultimately show ?thesis
    using psv_stream_lines [of "map (map ascii) texts"] assms(1) by (simp add: psv_loop_stream foldl_map)
qed

lemma length_source_of: "length (source_of texts) = sum_list (map (\<lambda>text. Suc (length text)) texts)"
  by (simp add: source_of_def length_concat o_def)

definition span_equals :: "uint8_t list \<Rightarrow> vc_psv_span \<Rightarrow> string \<Rightarrow> bool" where
  "span_equals source part expected \<longleftrightarrow>
     take (unat (span_length part)) (drop (unat (span_offset part)) source) = map ascii expected"

section \<open>Cases\<close>

definition mixed_source :: "uint8_t list" where
  "mixed_source =
     [0xef, 0xbb, 0xbf] @ map ascii ''# ID: PCSA00147'' @ [13, 10] @ [13, 10] @ map ascii ''_V0 Infinite Money'' @ [13, 10] @
     map ascii ''$0200 81000000 3B9AC9FF'' @ [13, 10] @
     source_of [''_V1 Byte and word writes'', ''$0000 81000004 00000064''] @
     map ascii ''$0100 81000006 00001234'' @ [13] @ map ascii ''$3200 81000008 0000008D'' @ [13, 10] @
     map ascii ''$broken code'' @ [13, 10] @ map ascii ''future-extension payload''"

text \<open>The loop over the raw spans: where the next one has to start.\<close>

definition next_offset :: "vc_psv_line list \<Rightarrow> nat option" where
  "next_offset ls =
     foldl (\<lambda>at l. case at of None \<Rightarrow> None | Some p \<Rightarrow>
       if unat (span_offset (raw l)) = p then Some (p + unat (span_length (raw l))) else None) (Some 0) ls"

definition test_mixed_legacy_file_is_lossless_and_fail_closed :: bool where
  "test_mixed_legacy_file_is_lossless_and_fail_closed \<longleftrightarrow>
     (let (status, b) = host_parse mixed_source 16 4 8; r = report_buffer b;
          ls = line_buffer b; cs = cheat_buffer b; ops = operation_buffer b
      in status = VC_PSV_STATUS_OK \<and> schema_version r = VC_PSV_IMPORT_SCHEMA_VERSION \<and> total_lines r = 10 \<and>
         total_cheats r = 2 \<and> total_operations r = 4 \<and> unsupported_operations r = 1 \<and> non_direct_cheats r = 1 \<and>
         malformed_lines r = 1 \<and> legacy_limit_violations r = 0 \<and>
         next_offset (take (stored_lines r) ls) = Some (length mixed_source) \<and>
         line_kind (ls ! 0) = VC_PSV_LINE_COMMENT \<and> line_kind (ls ! 1) = VC_PSV_LINE_BLANK \<and>
         line_kind (ls ! 8) = VC_PSV_LINE_MALFORMED \<and> line_kind (ls ! 9) = VC_PSV_LINE_OPAQUE \<and>
         activation (cs ! 0) = VC_PSV_ACTIVATION_MANUAL \<and> activation (cs ! 1) = VC_PSV_ACTIVATION_AUTOSTART \<and>
         translation_state (cs ! 0) = VC_PSV_TRANSLATION_DIRECT_ONLY \<and>
         translation_state (cs ! 1) = VC_PSV_TRANSLATION_MALFORMED \<and>
         span_equals mixed_source (description (cs ! 0)) ''Infinite Money'' \<and>
         span_equals mixed_source (description (cs ! 1)) ''Byte and word writes'' \<and>
         operation_count (cs ! 0) = 1 \<and> operation_count (cs ! 1) = 3 \<and>
         operation_kind_of (ops ! 0) = VC_PSV_OPERATION_WRITE_U32 \<and> address_mode (ops ! 0) = VC_PSV_ADDRESS_ABSOLUTE \<and>
         legacy_code (ops ! 0) = 0x0200 \<and> operation_address (ops ! 0) = 0x81000000 \<and>
         operation_value (ops ! 0) = 0x3b9ac9ff \<and> operation_kind_of (ops ! 1) = VC_PSV_OPERATION_WRITE_U8 \<and>
         operation_kind_of (ops ! 2) = VC_PSV_OPERATION_WRITE_U16 \<and>
         operation_kind_of (ops ! 3) = VC_PSV_OPERATION_OPAQUE \<and> legacy_code (ops ! 3) = 0x3200)"

definition test_modifier_taints_complete_cheat :: bool where
  "test_modifier_taints_complete_cheat \<longleftrightarrow>
     (let source = source_of [''_V0 Untouchable'', ''$B200 00000001 00000000'', ''$0000 002D1760 00000003'',
            ''_V0 Moon Jump [hold X]'', ''$C201 00000000 00004000'', ''$0100 818D668A 00003DC1'',
            ''_V0 Walk Faster'', ''$0200 818D6734 3E0FACE0''];
          (status, b) = host_parse source 8 3 5; r = report_buffer b; cs = cheat_buffer b; ops = operation_buffer b
      in status = VC_PSV_STATUS_OK \<and> non_direct_cheats r = 2 \<and> unsupported_operations r = 1 \<and>
         invalid_operation_sequences r = 0 \<and>
         map translation_state cs = [VC_PSV_TRANSLATION_MODULE_RELATIVE, VC_PSV_TRANSLATION_REQUIRES_UNSUPPORTED,
           VC_PSV_TRANSLATION_DIRECT_ONLY] \<and>
         map operation_kind_of ops = [VC_PSV_OPERATION_SELECT_MODULE_BASE, VC_PSV_OPERATION_WRITE_U8,
           VC_PSV_OPERATION_OPAQUE, VC_PSV_OPERATION_WRITE_U16, VC_PSV_OPERATION_WRITE_U32] \<and>
         address_mode (ops ! 0) = VC_PSV_ADDRESS_NOT_APPLICABLE \<and>
         address_mode (ops ! 1) = VC_PSV_ADDRESS_SELECTED_MODULE_RELATIVE \<and>
         address_mode (ops ! 3) = VC_PSV_ADDRESS_ABSOLUTE \<and> address_mode (ops ! 4) = VC_PSV_ADDRESS_ABSOLUTE)"

definition test_pcsa00133_module_relative_bolts :: bool where
  "test_pcsa00133_module_relative_bolts \<longleftrightarrow>
     (let source = source_of [''# ID: PCSA00133'', ''# Region: US'', ''# Version: 1.00'', ''_V0 max.Schrauben'',
            ''$B200 00000001 00000000'', ''$0100 002D1560 0000270F''];
          (status, b) = host_parse source 6 1 2; r = report_buffer b; ops = operation_buffer b
      in status = VC_PSV_STATUS_OK \<and> schema_version r = 2 \<and> total_cheats r = 1 \<and> total_operations r = 2 \<and>
         unsupported_operations r = 0 \<and> non_direct_cheats r = 1 \<and> invalid_operation_sequences r = 0 \<and>
         translation_state (cheat_buffer b ! 0) = VC_PSV_TRANSLATION_MODULE_RELATIVE \<and>
         operation_kind_of (ops ! 0) = VC_PSV_OPERATION_SELECT_MODULE_BASE \<and> legacy_code (ops ! 0) = 0xb200 \<and>
         address_mode (ops ! 0) = VC_PSV_ADDRESS_NOT_APPLICABLE \<and> operation_address (ops ! 0) = 1 \<and>
         operation_value (ops ! 0) = 0 \<and> operation_kind_of (ops ! 1) = VC_PSV_OPERATION_WRITE_U16 \<and>
         address_mode (ops ! 1) = VC_PSV_ADDRESS_SELECTED_MODULE_RELATIVE \<and>
         operation_address (ops ! 1) = 0x002d1560 \<and> operation_value (ops ! 1) = 0x270f)"

definition test_invalid_module_base_sequences_fail_closed :: bool where
  "test_invalid_module_base_sequences_fail_closed \<longleftrightarrow>
     (let source = source_of [''_V0 Selector after write'', ''$0000 00000010 00000001'', ''$B200 00000000 00000000'',
            ''_V0 Duplicate selector'', ''$B200 00000000 00000000'', ''$B200 00000001 00000001'',
            ''$0200 00000020 00000002'', ''_V0 Invalid selector fields'', ''$B200 00000100 00000002'',
            ''$0100 00000030 00000003'', ''_V0 Dangling selector'', ''$B200 00000000 00000000''];
          (status, b) = host_parse source 12 4 8; r = report_buffer b; ops = operation_buffer b
      in status = VC_PSV_STATUS_OK \<and> total_cheats r = 4 \<and> total_operations r = 8 \<and> unsupported_operations r = 0 \<and>
         non_direct_cheats r = 4 \<and> invalid_operation_sequences r = 4 \<and>
         map translation_state (cheat_buffer b) = replicate 4 VC_PSV_TRANSLATION_MALFORMED \<and>
         address_mode (ops ! 0) = VC_PSV_ADDRESS_ABSOLUTE \<and>
         operation_kind_of (ops ! 1) = VC_PSV_OPERATION_SELECT_MODULE_BASE \<and>
         address_mode (ops ! 4) = VC_PSV_ADDRESS_SELECTED_MODULE_RELATIVE \<and>
         address_mode (ops ! 6) = VC_PSV_ADDRESS_ABSOLUTE)"

definition prefix_source :: "uint8_t list" where
  "prefix_source =
     source_of [''_V0 Relative write'', ''$B200 00000001 00000000'', ''$0000 002D1760 00000003'',
       ''_V0 Absolute write'', ''$0200 818D6734 3E0FACE0'']"

definition test_truncation_discards_non_closed_prefixes :: bool where
  "test_truncation_discards_non_closed_prefixes \<longleftrightarrow>
     (let (status, b) = host_parse prefix_source 5 1 3; r = report_buffer b;
          (status', b') = host_parse prefix_source 5 2 1; r' = report_buffer b'
      in status = VC_PSV_STATUS_TRUNCATED \<and> total_lines r = 5 \<and> total_cheats r = 2 \<and> total_operations r = 3 \<and>
         stored_lines r = 0 \<and> stored_cheats r = 0 \<and> stored_operations r = 0 \<and>
         line_buffer b = replicate 5 zero_line \<and> cheat_buffer b ! 0 = zero_cheat \<and>
         operation_buffer b = replicate 3 zero_operation \<and>
         status' = VC_PSV_STATUS_TRUNCATED \<and> stored_lines r' = 0 \<and> stored_cheats r' = 0 \<and> stored_operations r' = 0 \<and>
         line_buffer b' = replicate 5 zero_line \<and> cheat_buffer b' = replicate 2 zero_cheat \<and>
         operation_buffer b' ! 0 = zero_operation)"

definition test_invalid_header_taints_previous_entry :: bool where
  "test_invalid_header_taints_previous_entry \<longleftrightarrow>
     (let source = source_of [''_V0 Direct'', ''$0200 81000000 00000001'', ''_V2 Invalid header''];
          (status, b) = host_parse source 3 1 1; r = report_buffer b
      in status = VC_PSV_STATUS_OK \<and> malformed_lines r = 1 \<and> non_direct_cheats r = 1 \<and>
         line_kind (line_buffer b ! 2) = VC_PSV_LINE_MALFORMED \<and>
         translation_state (cheat_buffer b ! 0) = VC_PSV_TRANSLATION_MALFORMED)"

definition test_truncation_counts_without_guessing :: bool where
  "test_truncation_counts_without_guessing \<longleftrightarrow>
     (let source = source_of [''$0200 81000000 00000001'', ''_V0 Test'', ''$0200 81000000 00000002'',
            ''$DEAD 81000004 00000003''];
          (status, b) = host_parse source 0 0 0; r = report_buffer b
      in status = VC_PSV_STATUS_TRUNCATED \<and> total_lines r = 4 \<and> total_cheats r = 1 \<and> total_operations r = 2 \<and>
         unsupported_operations r = 1 \<and> non_direct_cheats r = 1 \<and> malformed_lines r = 1 \<and>
         stored_lines r = 0 \<and> stored_cheats r = 0 \<and> stored_operations r = 0)"

text \<open>The argument checks, from a call with null pointers only; \<^verbatim>\<open>byte\<close> lies at \<open>0x10000\<close>.\<close>

definition null_call :: "32 psv_args" where
  "null_call = host_call [] 0 0 0\<lparr>source_address := 0\<rparr>"

definition host_status :: "32 psv_args \<Rightarrow> vc_psv_status" where
  "host_status a = fst (vc_psv_parse a (replicate (unat (source_length a)) (ascii CHR ''x'')) (stale_buffers 0 0 0))"

definition test_invalid_and_bounded_inputs :: bool where
  "test_invalid_and_bounded_inputs \<longleftrightarrow>
     (let byte_call = null_call\<lparr>source_address := 0x10000, source_length := 1\<rparr>
      in host_status null_call = VC_PSV_STATUS_OK \<and>
         total_lines (report_buffer (snd (vc_psv_parse null_call [] (stale_buffers 0 0 0)))) = 0 \<and>
         host_status (null_call\<lparr>source_length := 1\<rparr>) = VC_PSV_STATUS_INVALID_ARGUMENT \<and>
         host_status (byte_call\<lparr>source_length := of_nat VC_PSV_MAX_SOURCE_BYTES + 1\<rparr>) = VC_PSV_STATUS_SOURCE_TOO_LARGE \<and>
         host_status (byte_call\<lparr>line_capacity := 1\<rparr>) = VC_PSV_STATUS_INVALID_ARGUMENT \<and>
         host_status (byte_call\<lparr>report_address := 0\<rparr>) = VC_PSV_STATUS_INVALID_ARGUMENT \<and>
         host_status (byte_call\<lparr>source_length := 10, lines_address := 0x10000, line_capacity := 1\<rparr>) =
           VC_PSV_STATUS_INVALID_ARGUMENT \<and>
         host_status (byte_call\<lparr>lines_address := report_address byte_call, line_capacity := 4\<rparr>) =
           VC_PSV_STATUS_INVALID_ARGUMENT \<and>
         host_status (null_call\<lparr>lines_address := 0x20000, line_capacity := - 1 div sizeof_line null_call + 1\<rparr>) =
           VC_PSV_STATUS_INVALID_ARGUMENT)"

section \<open>Evaluation\<close>

lemmas lexer_evaluation = skip_spaces.simps drop_spaces.simps trim_span_def parse_hex_loop.simps parse_hex_exact_def
  parse_code_def hex_value_def ascii_def ascii_space_def

lemmas parser_evaluation = psv_classify_at_def psv_header_at_def psv_code_def psv_opaque_def add_operation_def
  apply_kind_def select_module_base_def store_operation_def count_operation_def count_up_def update_line_def
  operation_kind_def store_line_def taint_active_cheat_def finalize_active_cheat_def mark_malformed_def
  start_cheat_def reset_active_def psv_stream_step_def mark_length_def break_length_def psv_stream.simps
  psv_run_def psv_start_def discard_partial_outputs_def zero_line_def zero_cheat_def zero_operation_def
  zero_report_def zero_span_def VC_PSV_LEGACY_MAX_CHEATS_def VC_PSV_LEGACY_MAX_CODES_PER_CHEAT_def
  VC_PSV_LEGACY_MAX_DESCRIPTION_BYTES_def VC_PSV_IMPORT_SCHEMA_VERSION_def less_vc_psv_translation_state_def

lemma replicate_numeral: "replicate (numeral n) x = x # replicate (pred_numeral n) x"
  by (simp add: numeral_eq_Suc)

lemmas case_evaluation = host_parse_run loop_over_lines length_source_of stale_buffers_def replicate_numeral lexer_evaluation parser_evaluation

lemma header_case: test_invalid_header_taints_previous_entry
  by (simp add: test_invalid_header_taints_previous_entry_def case_evaluation cong: let_weak_cong)

lemma truncation_case: test_truncation_counts_without_guessing
  by (simp add: test_truncation_counts_without_guessing_def case_evaluation cong: let_weak_cong)

lemma bolts_case: test_pcsa00133_module_relative_bolts
  by (simp add: test_pcsa00133_module_relative_bolts_def case_evaluation cong: let_weak_cong)

lemma modifier_case: test_modifier_taints_complete_cheat
  by (simp add: test_modifier_taints_complete_cheat_def case_evaluation cong: let_weak_cong)

lemma discard_case: test_truncation_discards_non_closed_prefixes
  by (simp add: test_truncation_discards_non_closed_prefixes_def prefix_source_def case_evaluation cong: let_weak_cong)

lemma sequence_case: test_invalid_module_base_sequences_fail_closed
  by (simp add: test_invalid_module_base_sequences_fail_closed_def case_evaluation cong: let_weak_cong)

lemma mixed_case: test_mixed_legacy_file_is_lossless_and_fail_closed
  by (simp add: test_mixed_legacy_file_is_lossless_and_fail_closed_def mixed_source_def source_of_def psv_loop_stream
      next_offset_def span_equals_def case_evaluation cong: let_weak_cong)

lemma host_status_rejected: "psv_check_arguments a = Some status \<Longrightarrow> host_status a = status"
  by (simp add: host_status_def vc_psv_parse_def)

lemma parser_argument_tests_pass: test_invalid_and_bounded_inputs
proof -
  have accepted: "vc_psv_parse null_call [] (stale_buffers 0 0 0) = psv_run [] (stale_buffers 0 0 0)"
    by (simp add: vc_psv_parse_def psv_check_arguments_def null_call_def host_call_def multiply_size_def
        ranges_overlap_def)
  have run: "fst (psv_run [] (stale_buffers 0 0 0)) = VC_PSV_STATUS_OK"
    "total_lines (report_buffer (snd (psv_run [] (stale_buffers 0 0 0)))) = 0"
    by code_simp+
  have length: "source_length null_call = 0"
    by (simp add: null_call_def host_call_def)
  have status: "host_status null_call = VC_PSV_STATUS_OK"
    using run(1) by (simp add: host_status_def accepted length)
  have total: "total_lines (report_buffer (snd (vc_psv_parse null_call [] (stale_buffers 0 0 0)))) = 0"
    using run(2) by (simp add: accepted)
  show ?thesis
    unfolding test_invalid_and_bounded_inputs_def Let_def
    by (rule conjI [OF status], rule conjI [OF total], intro conjI host_status_rejected)
      (simp_all add: psv_check_arguments_def null_call_def host_call_def multiply_size_def ranges_overlap_def
        VC_PSV_MAX_SOURCE_BYTES_def)
qed

section \<open>The legacy code limit\<close>

text \<open>The case with more codes than the legacy limit has no buffers; every code line has the same effect.\<close>

definition limit_source :: "uint8_t list" where
  "limit_source = source_of (''_V0 Oversized'' # replicate 201 ''$0200 81000000 00000001'')"

definition test_legacy_code_limit_without_output_buffers :: bool where
  "test_legacy_code_limit_without_output_buffers \<longleftrightarrow>
     (let (status, b) = host_parse limit_source 0 0 0; r = report_buffer b
      in status = VC_PSV_STATUS_TRUNCATED \<and> total_operations r = 201 \<and> legacy_limit_violations r = 1)"

definition limit_state :: "nat \<Rightarrow> psv_state" where
  "limit_state n =
     \<lparr>position = 14 + 24 * n, active_cheat = Some 0, active_cheat_operation_count = n, active_cheat_tainted = False,
      relative_base_active = False, relative_write_seen = False, lines = [], cheats = [], operations = [],
      result = zero_report\<lparr>schema_version := 2, source_size := length limit_source, total_lines := Suc n, total_cheats := 1,
        total_operations := n, legacy_limit_violations := (if n > 200 then 1 else 0)\<rparr>\<rparr>"

lemma limit_code: "psv_stream_step (map ascii ''$0200 81000000 00000001'') [10] (limit_state n) = limit_state (Suc n)"
  by (simp add: limit_state_def lexer_evaluation parser_evaluation cong: let_weak_cong)

lemma limit_header: "psv_stream_step (map ascii ''_V0 Oversized'') [10] (psv_start limit_source (stale_buffers 0 0 0)) = limit_state 0"
  by (simp add: limit_state_def stale_buffers_def lexer_evaluation parser_evaluation cong: let_weak_cong)

lemma limit_codes:
  "foldl (\<lambda>s text. psv_stream_step (map ascii text) [10] s) (limit_state k) (replicate n ''$0200 81000000 00000001'') =
    limit_state (k + n)"
  by (induction n arbitrary: k) (simp_all add: limit_code del: list.map)

lemma limit_case: test_legacy_code_limit_without_output_buffers
proof -
  have size: "length limit_source = 4838"
    by (simp add: limit_source_def length_source_of sum_list_replicate)
  then have "host_parse limit_source 0 0 0 = psv_run limit_source (stale_buffers 0 0 0)"
    by (intro host_parse_run) simp_all
  moreover have "psv_loop limit_source (psv_start limit_source (stale_buffers 0 0 0)) = limit_state 201"
  proof -
    have "psv_loop limit_source (psv_start limit_source (stale_buffers 0 0 0)) =
        foldl (\<lambda>s text. psv_stream_step (map ascii text) [10] s) (psv_start limit_source (stale_buffers 0 0 0))
          (''_V0 Oversized'' # replicate 201 ''$0200 81000000 00000001'')"
      unfolding limit_source_def by (intro loop_over_lines) (auto simp: psv_start_def ascii_def)
    then show ?thesis
      using limit_codes [of 0 201] by (simp only: foldl_Cons limit_header) simp
  qed
  ultimately show ?thesis
    by (simp add: test_legacy_code_limit_without_output_buffers_def psv_run_def finalize_active_cheat_def limit_state_def
        discard_partial_outputs_def zero_report_def size)
qed

end
