(* ===== verification/VC_Self_Test_App.thy ===== *)
theory VC_Self_Test_App
  imports VC_Self_Test
begin

unbundle bit_operations_syntax

text \<open>
  The application around the self-test: \<^verbatim>\<open>main\<close> of \<^verbatim>\<open>vita-self-test/main.c\<close>. One iteration of its
  loop is \<open>app_step\<close>, a function of the state and of what the SDK returned: the buttons, if the controller
  could be read, and the system time. The bits of the buttons are defined by the SDK and are parameters.
  Text output is abstracted to the numbers a screen shows; the state lists what was drawn, the latest first.
\<close>

section \<open>State\<close>

datatype screen_state = SCREEN_HOME | SCREEN_MENU | SCREEN_RESULT

text \<open>The buttons of \<^verbatim>\<open>psp2/ctrl.h\<close> the program uses.\<close>

record pad_buttons =
  SCE_CTRL_SELECT :: uint32_t
  SCE_CTRL_CIRCLE :: uint32_t
  SCE_CTRL_CROSS :: uint32_t
  SCE_CTRL_TRIANGLE :: uint32_t

datatype drawing =
    Draw_Home uint32_t uint32_t \<comment> \<open>seconds and tenths\<close>
  | Draw_Menu
  | Draw_Result bool "uint32_t list" \<comment> \<open>whether it shows PASS, and the seven numbers\<close>

record (overloaded) 's app_state =
  app_activation :: vc_menu_activation_state
  app_result :: "'s self_test_result"
  app_screen :: screen_state
  previous_buttons :: uint32_t
  last_draw_bucket :: uint64_t
  exit_requested :: bool
  drawn :: "drawing list"
  app_memory :: "'s memory"

record app_input =
  pad :: "uint32_t option" \<comment> \<open>\<^verbatim>\<open>pad.buttons\<close>, if \<^verbatim>\<open>sceCtrlPeekBufferPositive\<close> succeeded\<close>
  system_time :: uint64_t \<comment> \<open>microseconds\<close>

section \<open>Drawing\<close>

definition draw ::
  "drawing \<Rightarrow> ('s::len, 'x) app_state_scheme \<Rightarrow> ('s, 'x) app_state_scheme" where
  "draw d s = s\<lparr>drawn := d # drawn s\<rparr>"

definition draw_home :: "uint64_t \<Rightarrow> ('s::len, 'x) app_state_scheme \<Rightarrow> ('s, 'x) app_state_scheme" where
  "draw_home held_ms =
     (let seconds = ucast (held_ms div 1000); tenths = ucast (held_ms mod 1000 div 100)
      in draw (Draw_Home seconds tenths))"

definition draw_menu :: "('s::len, 'x) app_state_scheme \<Rightarrow> ('s, 'x) app_state_scheme" where
  "draw_menu = draw Draw_Menu"

definition draw_result ::
  "'s self_test_result \<Rightarrow> ('s::len, 'x) app_state_scheme \<Rightarrow> ('s, 'x) app_state_scheme" where
  "draw_result report = draw (Draw_Result (failures report = 0)
     [checks report, failures report, ucast (initial_matches report), ucast (changed_matches report),
      ucast (increased_matches report), ucast (decreased_matches report), ucast (unchanged_matches report)])"

section \<open>The loop\<close>

definition app_start :: "'s::len memory \<Rightarrow> 's app_state" where
  "app_start m = draw_home 0
     \<lparr>app_activation = menu_zero, app_result = zero_result, app_screen = SCREEN_HOME,
      previous_buttons = 0, last_draw_bucket = - 1, exit_requested = False, drawn = [], app_memory = m\<rparr>"

text \<open>The controller could not be read.\<close>

definition app_missing :: "('s::len, 'x) app_state_scheme \<Rightarrow> ('s, 'x) app_state_scheme" where
  "app_missing s =
     (if app_screen s = SCREEN_HOME \<and> pressed (app_activation s) \<and> \<not> latched (app_activation s)
      then draw_home 0 (s\<lparr>app_activation := menu_zero, last_draw_bucket := - 1\<rparr>)
      else s)"

definition app_release ::
  "pad_buttons \<Rightarrow> uint32_t \<Rightarrow> uint64_t \<Rightarrow> ('s::len, 'x) app_state_scheme \<Rightarrow> ('s, 'x) app_state_scheme" where
  "app_release pb buttons now_ms s =
     (if app_screen s \<noteq> SCREEN_HOME \<and> buttons AND SCE_CTRL_SELECT pb = 0 \<and> pressed (app_activation s)
      then s\<lparr>app_activation := snd (menu_update (app_activation s) False now_ms)\<rparr>
      else s)"

definition app_home ::
  "pad_buttons \<Rightarrow> uint32_t \<Rightarrow> uint32_t \<Rightarrow> uint64_t \<Rightarrow> ('s::len, 'x) app_state_scheme \<Rightarrow>
   ('s, 'x) app_state_scheme" where
  "app_home pb buttons newly now_ms s =
     (let select_down = (buttons AND SCE_CTRL_SELECT pb \<noteq> 0);
          (event, act) = menu_update (app_activation s) select_down now_ms;
          s1 = s\<lparr>app_activation := act\<rparr>;
          held0 = (if pressed act \<and> now_ms \<ge> pressed_since_ms act then now_ms - pressed_since_ms act else 0);
          held_ms = (if held0 > VC_MENU_SELECT_HOLD_MS then VC_MENU_SELECT_HOLD_MS else held0);
          bucket = held_ms div 100;
          s2 = (if bucket \<noteq> last_draw_bucket s1
                then (draw_home held_ms s1)\<lparr>last_draw_bucket := bucket\<rparr> else s1)
      in if event = VC_MENU_ACTIVATION_TRIGGERED then draw_menu (s2\<lparr>app_screen := SCREEN_MENU\<rparr>)
         else if newly AND SCE_CTRL_CIRCLE pb \<noteq> 0 then s2\<lparr>exit_requested := True\<rparr>
         else s2)"

definition app_menu ::
  "pad_buttons \<Rightarrow> ('s::len, 'o) self_test_objects_scheme \<Rightarrow> uint32_t \<Rightarrow> ('s, 'x) app_state_scheme \<Rightarrow>
   ('s, 'x) app_state_scheme option" where
  "app_menu pb ob newly s =
     (if newly AND SCE_CTRL_CROSS pb \<noteq> 0
      then map_option
        (\<lambda>(report, m). draw_result report
           (s\<lparr>app_memory := m, app_result := report, app_screen := SCREEN_RESULT\<rparr>))
        (run_scanner_self_test ob (app_memory s))
      else if newly AND SCE_CTRL_CIRCLE pb \<noteq> 0
      then Some (draw_home 0 (s\<lparr>last_draw_bucket := - 1, app_screen := SCREEN_HOME\<rparr>))
      else if newly AND SCE_CTRL_TRIANGLE pb \<noteq> 0 then Some (s\<lparr>exit_requested := True\<rparr>)
      else Some s)"

definition app_result_screen ::
  "pad_buttons \<Rightarrow> uint32_t \<Rightarrow> ('s::len, 'x) app_state_scheme \<Rightarrow> ('s, 'x) app_state_scheme" where
  "app_result_screen pb newly s =
     (if newly AND SCE_CTRL_CIRCLE pb \<noteq> 0 then draw_menu (s\<lparr>app_screen := SCREEN_MENU\<rparr>)
      else if newly AND SCE_CTRL_TRIANGLE pb \<noteq> 0 then s\<lparr>exit_requested := True\<rparr>
      else s)"

definition now_ms :: "app_input \<Rightarrow> uint64_t" where
  "now_ms x = system_time x div 1000"

definition app_step ::
  "pad_buttons \<Rightarrow> ('s::len, 'o) self_test_objects_scheme \<Rightarrow> ('s, 'x) app_state_scheme \<Rightarrow> app_input \<Rightarrow>
   ('s, 'x) app_state_scheme option" where
  "app_step pb ob s x =
     (case pad x of
        None \<Rightarrow> Some (app_missing s)
      | Some buttons \<Rightarrow>
          let newly = buttons AND NOT (previous_buttons s);
              s1 = app_release pb buttons (now_ms x) (s\<lparr>previous_buttons := buttons\<rparr>)
          in case app_screen s1 of
               SCREEN_HOME \<Rightarrow> Some (app_home pb buttons newly (now_ms x) s1)
             | SCREEN_MENU \<Rightarrow> app_menu pb ob newly s1
             | SCREEN_RESULT \<Rightarrow> Some (app_result_screen pb newly s1))"

text \<open>The loop on a finite sequence of inputs; it stops at the first request to exit.\<close>

primrec app_run ::
  "pad_buttons \<Rightarrow> ('s::len, 'o) self_test_objects_scheme \<Rightarrow> app_input list \<Rightarrow> ('s, 'x) app_state_scheme \<Rightarrow>
   ('s, 'x) app_state_scheme option" where
  "app_run pb ob [] s = Some s"
| "app_run pb ob (x # xs) s =
     (if exit_requested s then Some s
      else case app_step pb ob s x of None \<Rightarrow> None | Some s' \<Rightarrow> app_run pb ob xs s')"

text \<open>
  The whole program: \<open>init\<close> is what \<^verbatim>\<open>psvDebugScreenInit\<close> returns. The result is the code given to
  \<^verbatim>\<open>sceKernelExitProcess\<close>, or \<open>None\<close> while no exit was requested.
\<close>

definition app_exit_code :: "('s::len, 'x) app_state_scheme \<Rightarrow> int" where
  "app_exit_code s = (if failures (app_result s) = 0 then 0 else 1)"

definition app_main ::
  "pad_buttons \<Rightarrow> ('s::len, 'o) self_test_objects_scheme \<Rightarrow> int \<Rightarrow> app_input list \<Rightarrow> 's memory \<Rightarrow> int option" where
  "app_main pb ob init xs m =
     (if init < 0 then Some 1
      else case app_run pb ob xs (app_start m) of
             None \<Rightarrow> None
           | Some s \<Rightarrow> if exit_requested s then Some (app_exit_code s) else None)"

end
