(* ===== verification/VC_Self_Test_App_Props.thy ===== *)
theory VC_Self_Test_App_Props
  imports VC_Self_Test_App
begin

unbundle bit_operations_syntax

text \<open>
  What the application of \<^verbatim>\<open>vita-self-test/main.c\<close> does: which states its loop reaches, and for every
  sequence of inputs that it shows the current screen, opens its menu after a hold of Select and only
  then, passes its test, and ends only on request.
\<close>

section \<open>Reachable states\<close>

text \<open>
  \<open>app_reachable pb ob m h s\<close>: the loop, started over memory \<open>m\<close>, is in state \<open>s\<close> after the inputs of the
  history \<open>h\<close>, which holds each input with the screen it was read on, the latest first.
\<close>

type_synonym app_history = "(screen_state \<times> app_input) list"

inductive app_reachable ::
  "pad_buttons \<Rightarrow> 's::len self_test_objects \<Rightarrow> 's memory \<Rightarrow> app_history \<Rightarrow> 's app_state \<Rightarrow> bool"
  for pb ob m where
  reach_start: "app_reachable pb ob m [] (app_start m)"
| reach_step: "app_reachable pb ob m h s \<Longrightarrow> \<not> exit_requested s \<Longrightarrow> app_step pb ob s x = Some s' \<Longrightarrow>
    app_reachable pb ob m ((app_screen s, x) # h) s'"

text \<open>An iteration, by what it read and the screen it was on.\<close>

lemma app_release_fields [simp]:
  "app_screen (app_release pb buttons t s) = app_screen s"
  "previous_buttons (app_release pb buttons t s) = previous_buttons s"
  "app_memory (app_release pb buttons t s) = app_memory s"
  "app_result (app_release pb buttons t s) = app_result s"
  "drawn (app_release pb buttons t s) = drawn s"
  "last_draw_bucket (app_release pb buttons t s) = last_draw_bucket s"
  "exit_requested (app_release pb buttons t s) = exit_requested s"
  by (simp_all add: app_release_def)

lemma draw_fields [simp]:
  "app_screen (draw d s) = app_screen s" "app_memory (draw d s) = app_memory s"
  "app_result (draw d s) = app_result s" "drawn (draw d s) = d # drawn s"
  "last_draw_bucket (draw d s) = last_draw_bucket s" "exit_requested (draw d s) = exit_requested s"
  "app_activation (draw d s) = app_activation s"
  by (simp_all add: draw_def)

lemmas draw_simps = draw_home_def draw_menu_def draw_result_def Let_def

lemma app_step_cases:
  assumes "app_step pb ob s x = Some s'"
  obtains (missing) "pad x = None" "s' = app_missing s"
  | (home) buttons where "pad x = Some buttons" "app_screen s = SCREEN_HOME"
      "s' = app_home pb buttons (buttons AND NOT (previous_buttons s)) (now_ms x) (s\<lparr>previous_buttons := buttons\<rparr>)"
  | (menu) buttons where "pad x = Some buttons" "app_screen s = SCREEN_MENU"
      "app_menu pb ob (buttons AND NOT (previous_buttons s))
        (app_release pb buttons (now_ms x) (s\<lparr>previous_buttons := buttons\<rparr>)) = Some s'"
  | (shown) buttons where "pad x = Some buttons" "app_screen s = SCREEN_RESULT"
      "s' = app_result_screen pb (buttons AND NOT (previous_buttons s))
        (app_release pb buttons (now_ms x) (s\<lparr>previous_buttons := buttons\<rparr>))"
proof (cases "pad x")
  case None
  with assms missing show ?thesis
    by (simp add: app_step_def)
next
  case (Some buttons)
  have "app_release pb buttons (now_ms x) (s\<lparr>previous_buttons := buttons\<rparr>) = s\<lparr>previous_buttons := buttons\<rparr>"
    if "app_screen s = SCREEN_HOME"
    using that by (simp add: app_release_def)
  with Some assms home menu shown show ?thesis
    by (cases "app_screen s") (simp_all add: app_step_def Let_def)
qed

text \<open>The branches of the menu.\<close>

lemma app_menu_cases:
  assumes "app_menu pb ob newly s = Some s'"
  obtains (tested) report m where "newly AND SCE_CTRL_CROSS pb \<noteq> 0"
      "run_scanner_self_test ob (app_memory s) = Some (report, m)"
      "s' = draw_result report (s\<lparr>app_memory := m, app_result := report, app_screen := SCREEN_RESULT\<rparr>)"
  | (closed) "newly AND SCE_CTRL_CIRCLE pb \<noteq> 0"
      "s' = draw_home 0 (s\<lparr>last_draw_bucket := - 1, app_screen := SCREEN_HOME\<rparr>)"
  | (left) "newly AND SCE_CTRL_TRIANGLE pb \<noteq> 0" "s' = s\<lparr>exit_requested := True\<rparr>"
  | (idle) "s' = s"
  using assms by (auto simp: app_menu_def split: if_splits)

section \<open>The program exits cleanly\<close>

definition app_clean :: "'s::len self_test_objects \<Rightarrow> 's memory \<Rightarrow> 's app_state \<Rightarrow> bool" where
  "app_clean ob m s \<longleftrightarrow>
     app_result s \<in> {zero_result, passing_result} \<and> frame (self_test_bytes ob) m (app_memory s)"

lemma app_home_fields:
  "app_memory (app_home pb buttons newly t s) = app_memory s"
  "app_result (app_home pb buttons newly t s) = app_result s"
  by (simp_all add: app_home_def draw_simps split: prod.splits)

lemma app_step_clean:
  fixes ob :: "'s::len self_test_objects"
  assumes "supported_target TYPE('s)" and "objects_apart ob" and clean: "app_clean ob m s"
  shows "\<exists>s'. app_step pb ob s x = Some s' \<and> app_clean ob m s'"
proof -
  obtain m' where test: "run_scanner_self_test ob (app_memory s) = Some (passing_result, m')"
    and "frame (self_test_bytes ob) (app_memory s) m'"
    using run_scanner_self_test_passes [OF assms(1,2), of "app_memory s"] by blast
  moreover from this have "frame (self_test_bytes ob) m m'"
    using clean by (auto simp: app_clean_def intro: frame_again)
  ultimately show ?thesis
    using clean
    by (cases "app_screen s")
      (auto simp: app_step_def app_clean_def app_missing_def app_menu_def app_result_screen_def app_home_fields
        draw_simps split: option.splits)
qed

lemma app_run_clean:
  fixes ob :: "'s::len self_test_objects"
  assumes "supported_target TYPE('s)" and "objects_apart ob"
  shows "app_clean ob m s \<Longrightarrow> \<exists>s'. app_run pb ob xs s = Some s' \<and> app_clean ob m s'"
proof (induction xs arbitrary: s)
  case (Cons x xs)
  obtain s1 where "app_step pb ob s x = Some s1" "app_clean ob m s1"
    using app_step_clean [OF assms Cons.prems] by blast
  with Cons show ?case
    by simp
qed simp

lemma app_start_clean: "app_clean ob m (app_start m)"
  by (simp add: app_clean_def app_start_def draw_simps frame_def)

text \<open>C13. The application always runs, and leaves alone what is not its own. For every sequence of inputs, over
  any memory, the loop returns (the self-test included), every byte outside the objects of the self-test is
  unchanged, and the process exits with code \<open>0\<close> as soon as an exit was requested; code \<open>1\<close> means that the
  screen could not be initialised.\<close>

theorem app_exits_cleanly:
  fixes ob :: "'s::len self_test_objects"
  assumes "supported_target TYPE('s)" and "objects_apart ob"
  shows "\<exists>s. app_run pb ob xs (app_start m) = Some s \<and> frame (self_test_bytes ob) m (app_memory s) \<and>
    app_main pb ob init xs m = (if init < 0 then Some 1 else if exit_requested s then Some 0 else None)"
proof -
  obtain s where s: "app_run pb ob xs (app_start m) = Some s" "app_clean ob m s"
    using app_run_clean [OF assms app_start_clean] by blast
  then have "failures (app_result s) = 0"
    by (auto simp: app_clean_def zero_result_def passing_result_def)
  with s show ?thesis
    by (simp add: app_main_def app_exit_code_def app_clean_def)
qed

section \<open>Opening the menu\<close>

text \<open>
  \<open>select_read pb (scr, x)\<close>: on the home screen the controller was read with Select down. A list of
  history entries, the latest first, is one hold if Select was down in each of them and time did
  not go back.
\<close>

definition select_read :: "pad_buttons \<Rightarrow> screen_state \<times> app_input \<Rightarrow> bool" where
  "select_read pb e \<longleftrightarrow> fst e = SCREEN_HOME \<and>
     (case pad (snd e) of None \<Rightarrow> False | Some b \<Rightarrow> b AND SCE_CTRL_SELECT pb \<noteq> 0)"

definition time_of :: "screen_state \<times> app_input \<Rightarrow> uint64_t" where
  "time_of e = now_ms (snd e)"

definition one_hold :: "pad_buttons \<Rightarrow> app_history \<Rightarrow> bool" where
  "one_hold pb l \<longleftrightarrow> l \<noteq> [] \<and> list_all (select_read pb) l \<and> sorted_wrt (\<ge>) (map time_of l)"

lemma one_hold_single: "select_read pb e \<Longrightarrow> one_hold pb [e]"
  by (simp add: one_hold_def)

lemma one_hold_Cons:
  assumes "one_hold pb l" and "select_read pb e" and "time_of (hd l) \<le> time_of e"
  shows "one_hold pb (e # l)"
  using assms by (cases l) (auto simp: one_hold_def)

text \<open>What the state knows of the history while a hold is timed.\<close>

definition timed_hold :: "pad_buttons \<Rightarrow> app_history \<Rightarrow> vc_menu_activation_state \<Rightarrow> bool" where
  "timed_hold pb h act \<longleftrightarrow>
     (\<exists>l r. h = l @ r \<and> one_hold pb l \<and> time_of (last l) = pressed_since_ms act \<and>
        time_of (hd l) = last_timestamp_ms act)"

definition hold_known :: "pad_buttons \<Rightarrow> app_history \<Rightarrow> 's::len app_state \<Rightarrow> bool" where
  "hold_known pb h s \<longleftrightarrow> menu_inv (app_activation s) \<and>
     (pressed (app_activation s) \<and> \<not> latched (app_activation s) \<longrightarrow>
        app_screen s = SCREEN_HOME \<and> timed_hold pb h (app_activation s))"

lemma timed_hold_start:
  assumes "select_read pb e" and "pressed_since_ms act = time_of e" and "last_timestamp_ms act = time_of e"
  shows "timed_hold pb (e # h) act"
  unfolding timed_hold_def
  using assms by (intro exI [of _ "[e]"] exI [of _ h]) (simp add: one_hold_single)

lemma timed_hold_continue:
  assumes "timed_hold pb h act" and "select_read pb e" and "last_timestamp_ms act \<le> time_of e"
    and "pressed_since_ms act' = pressed_since_ms act" and "last_timestamp_ms act' = time_of e"
  shows "timed_hold pb (e # h) act'"
proof -
  obtain l r where l: "h = l @ r" "one_hold pb l" "time_of (last l) = pressed_since_ms act"
    "time_of (hd l) = last_timestamp_ms act"
    using assms(1) by (auto simp: timed_hold_def)
  then have "one_hold pb (e # l)"
    using assms by (simp add: one_hold_Cons)
  with l assms show ?thesis
    unfolding timed_hold_def
    by (intro exI [of _ "e # l"] exI [of _ r]) (simp add: one_hold_def)
qed

text \<open>One update of the activation on the home screen.\<close>

lemma home_hold_update:
  fixes x pb
  defines "down \<equiv> select_read pb (SCREEN_HOME, x)"
  assumes inv: "menu_inv act" and known: "pressed act \<and> \<not> latched act \<longrightarrow> timed_hold pb h act"
    and upd: "menu_update act down (now_ms x) = (event, act')"
    and "pressed act'" and fresh: "\<not> latched act' \<or> event = VC_MENU_ACTIVATION_TRIGGERED"
  shows "timed_hold pb ((SCREEN_HOME, x) # h) act'"
proof -
  have down: "down"
    using upd \<open>pressed act'\<close> by (cases down) (auto simp: menu_update_def)
  then have e: "select_read pb (SCREEN_HOME, x)"
    by (simp add: down_def)
  have times: "last_timestamp_ms act' = time_of (SCREEN_HOME, x)"
    using upd by (auto simp: menu_update_def Let_def time_of_def split: if_splits)
  show ?thesis
  proof (cases "pressed act \<and> \<not> latched act \<and> \<not> now_ms x < last_timestamp_ms act")
    case True
    then have "pressed_since_ms act' = pressed_since_ms act"
      using upd down by (auto simp: menu_update_def Let_def split: if_splits)
    with True known times e show ?thesis
      by (intro timed_hold_continue [of pb h act]) (simp_all add: time_of_def not_less)
  next
    case False
    then have "pressed_since_ms act' = now_ms x"
      using upd down fresh inv by (auto simp: menu_update_def Let_def menu_inv_def split: if_splits)
    with times e show ?thesis
      by (intro timed_hold_start) (simp_all add: time_of_def)
  qed
qed

lemma menu_inv_updated: "menu_inv act \<Longrightarrow> menu_inv (snd (menu_update act down t))"
  using menu_inv_update [of act "(down, t)"] by (simp add: menu_step_def)

lemma select_read_home:
  "pad x = Some buttons \<Longrightarrow>
    select_read pb (SCREEN_HOME, x) \<longleftrightarrow> buttons AND SCE_CTRL_SELECT pb \<noteq> 0"
  by (simp add: select_read_def)

text \<open>What an iteration on the home screen does to the activation and the screen.\<close>

lemma app_home_activation:
  "app_activation (app_home pb buttons newly t s) =
    snd (menu_update (app_activation s) (buttons AND SCE_CTRL_SELECT pb \<noteq> 0) t)"
  "app_screen (app_home pb buttons newly t s) =
    (if fst (menu_update (app_activation s) (buttons AND SCE_CTRL_SELECT pb \<noteq> 0) t) =
        VC_MENU_ACTIVATION_TRIGGERED then SCREEN_MENU else app_screen s)"
  "exit_requested (app_home pb buttons newly t s) \<longleftrightarrow> exit_requested s \<or>
    fst (menu_update (app_activation s) (buttons AND SCE_CTRL_SELECT pb \<noteq> 0) t) =
        VC_MENU_ACTIVATION_NONE \<and> newly AND SCE_CTRL_CIRCLE pb \<noteq> 0"
  using event_cases [of "fst (menu_update (app_activation s) (buttons AND SCE_CTRL_SELECT pb \<noteq> 0) t)"]
  by (auto simp: app_home_def draw_simps split: prod.splits)

lemma update_latches:
  "fst (menu_update act down t) = VC_MENU_ACTIVATION_TRIGGERED \<Longrightarrow>
    pressed (snd (menu_update act down t)) \<and> latched (snd (menu_update act down t))"
  by (auto simp: menu_update_def Let_def split: if_splits)

lemma app_release_activation:
  "app_activation (app_release pb buttons t s) = app_activation s \<or>
   \<not> pressed (app_activation (app_release pb buttons t s)) \<and> \<not> latched (app_activation (app_release pb buttons t s))"
  by (auto simp: app_release_def menu_update_def)

text \<open>The screen only changes in these ways.\<close>

lemma app_menu_screen:
  assumes "app_menu pb ob newly s = Some s'"
  shows "app_activation s' = app_activation s"
  using assms by (cases rule: app_menu_cases) (simp_all add: draw_simps)

lemma app_result_screen_fields:
  "app_activation (app_result_screen pb newly s) = app_activation s"
  "app_screen s = SCREEN_RESULT \<Longrightarrow> app_screen (app_result_screen pb newly s) \<noteq> SCREEN_HOME"
  by (simp_all add: app_result_screen_def draw_simps)

lemma app_release_inv: "menu_inv (app_activation s) \<Longrightarrow> menu_inv (app_activation (app_release pb b t s))"
  by (simp add: app_release_def menu_inv_updated)

text \<open>Away from the home screen the activation is either latched or not pressed.\<close>

lemma hold_known_other:
  assumes "hold_known pb h s" and "app_screen s \<noteq> SCREEN_HOME" and "app_activation s' = app_activation (app_release pb b t (s\<lparr>previous_buttons := b\<rparr>))"
  shows "hold_known pb h' s'"
  using assms app_release_activation [of pb b t "s\<lparr>previous_buttons := b\<rparr>"]
    app_release_inv [of "s\<lparr>previous_buttons := b\<rparr>" pb b t]
  by (auto simp: hold_known_def)

lemma app_step_hold_known:
  assumes known: "hold_known pb h s" and step: "app_step pb ob s x = Some s'"
  shows "hold_known pb ((app_screen s, x) # h) s'"
  using step
proof (cases rule: app_step_cases)
  case missing
  with known show ?thesis
    by (auto simp: hold_known_def app_missing_def draw_simps menu_inv_zero menu_zero_def menu_inv_def)
next
  case (home buttons)
  let ?act = "app_activation s"
  obtain event act' where upd: "menu_update ?act (select_read pb (SCREEN_HOME, x)) (now_ms x) = (event, act')"
    by fastforce
  have act': "app_activation s' = act'" "app_screen s' = (if event = VC_MENU_ACTIVATION_TRIGGERED then SCREEN_MENU else SCREEN_HOME)"
    using home upd by (simp_all add: app_home_activation select_read_home)
  have inv: "menu_inv ?act" and timed: "pressed ?act \<and> \<not> latched ?act \<longrightarrow> timed_hold pb h ?act"
    using known by (simp_all add: hold_known_def)
  have "menu_inv act'"
    using inv upd menu_inv_updated [of ?act "select_read pb (SCREEN_HOME, x)" "now_ms x"] by simp
  moreover have "event \<noteq> VC_MENU_ACTIVATION_TRIGGERED" if "\<not> latched act'"
    using that update_latches [of ?act] upd by (metis fst_conv snd_conv)
  moreover have "timed_hold pb ((SCREEN_HOME, x) # h) act'" if "pressed act'" and "\<not> latched act'"
    using home_hold_update [OF inv timed upd that(1)] that(2) by blast
  ultimately show ?thesis
    unfolding hold_known_def act' home(2) by simp
next
  case (menu buttons)
  then show ?thesis
    by (intro hold_known_other [OF known, where s' = s' and b = buttons and t = "now_ms x"]) (simp_all add: app_menu_screen)
next
  case (shown buttons)
  then show ?thesis
    by (intro hold_known_other [OF known, where s' = s' and b = buttons and t = "now_ms x"]) (simp_all add: app_result_screen_fields)
qed

lemma app_reachable_hold_known: "app_reachable pb ob m h s \<Longrightarrow> hold_known pb h s"
proof (induction rule: app_reachable.induct)
  case reach_start
  show ?case
    by (simp add: hold_known_def app_start_def draw_simps menu_inv_zero menu_zero_def menu_inv_def)
next
  case reach_step
  then show ?case
    by (blast intro: app_step_hold_known)
qed

lemma app_reachable_last:
  assumes "app_reachable pb ob m ((scr, x) # h) s"
  obtains s0 where "app_reachable pb ob m h s0" "app_screen s0 = scr" "\<not> exit_requested s0"
    "app_step pb ob s0 x = Some s"
  using assms by (cases rule: app_reachable.cases) auto

text \<open>C15. The menu opens only on a physical hold. If an iteration leads from the home screen to the menu, then
  the inputs read up to then end in an uninterrupted hold: all of them were read on the home screen, the
  controller answered each time, Select was down, time never went back, and between the first and the last
  at least five seconds passed, computed without wrap-around. A missing input in between is not a hold.\<close>

theorem app_menu_needs_hold:
  assumes "app_reachable pb ob m ((SCREEN_HOME, x) # h) s" and "app_screen s = SCREEN_MENU"
  shows "\<exists>held rest. (SCREEN_HOME, x) # h = held @ rest \<and> one_hold pb held \<and>
    5000 \<le> unat (now_ms x) - unat (time_of (last held))"
proof -
  obtain s0 where reach: "app_reachable pb ob m h s0" and before: "app_screen s0 = SCREEN_HOME"
    and step: "app_step pb ob s0 x = Some s"
    by (rule app_reachable_last [OF assms(1)])
  have known: "hold_known pb h s0"
    using reach by (rule app_reachable_hold_known)
  have inv: "menu_inv (app_activation s0)"
    using known by (simp add: hold_known_def)
  obtain buttons where pad: "pad x = Some buttons"
    and fires: "fst (menu_update (app_activation s0) (buttons AND SCE_CTRL_SELECT pb \<noteq> 0) (now_ms x)) = VC_MENU_ACTIVATION_TRIGGERED"
    using step
  proof (cases rule: app_step_cases)
    case missing
    then show ?thesis
      using before assms(2) by (auto simp: app_missing_def draw_simps split: if_splits)
  next
    case (home buttons)
    then show ?thesis
      using before assms(2) that by (auto simp: app_home_activation split: if_splits)
  qed (use before in simp_all)
  obtain held rest where "h = held @ rest" "one_hold pb held"
    "time_of (last held) = pressed_since_ms (app_activation s0)"
    "time_of (hd held) = last_timestamp_ms (app_activation s0)"
    using known fires by (auto simp: update_fires_iff [OF inv] hold_known_def timed_hold_def)
  moreover from this have "one_hold pb ((SCREEN_HOME, x) # held)"
    using fires pad by (intro one_hold_Cons)
      (auto simp: update_fires_iff [OF inv] select_read_home time_of_def)
  ultimately show ?thesis
    using fires
    by (intro exI [of _ "(SCREEN_HOME, x) # held"] exI [of _ rest])
      (auto simp: update_fires_iff [OF inv] one_hold_def)
qed

section \<open>The screen shows the state\<close>

text \<open>
  What the history says of Select, told without the state of the program: it is up, or a hold is timed from
  its start on with the latest time read, or a hold that began at a given time has opened the menu. A time
  that goes back starts the hold again, a missing input ends it unless it has opened the menu.
\<close>

datatype select_hold =
    Select_Up
  | Hold_Timed uint64_t uint64_t
  | Hold_Opened uint64_t

primrec hold_of :: "pad_buttons \<Rightarrow> app_history \<Rightarrow> select_hold" where
  "hold_of pb [] = Select_Up"
| "hold_of pb (e # h) =
     (case pad (snd e) of
        None \<Rightarrow> (case hold_of pb h of Hold_Timed start latest \<Rightarrow> Select_Up | hold \<Rightarrow> hold)
      | Some b \<Rightarrow>
          if b AND SCE_CTRL_SELECT pb = 0 then Select_Up
          else if fst e \<noteq> SCREEN_HOME then hold_of pb h
          else case hold_of pb h of
                 Select_Up \<Rightarrow> Hold_Timed (time_of e) (time_of e)
               | Hold_Timed start latest \<Rightarrow>
                   if time_of e < latest then Hold_Timed (time_of e) (time_of e)
                   else if 5000 \<le> unat (time_of e) - unat start then Hold_Opened start
                   else Hold_Timed start (time_of e)
               | Hold_Opened start \<Rightarrow> Hold_Opened start)"

text \<open>The tenths of a second from \<open>start\<close> to \<open>t\<close>, at most the whole five seconds.\<close>

definition tenths_since :: "uint64_t \<Rightarrow> uint64_t \<Rightarrow> nat" where
  "tenths_since start t = min 50 ((unat t - unat start) div 100)"

text \<open>
  The tenths to be shown on the home screen: those of the hold at the latest input read there. A missing input
  sets them to zero if it ends a hold, and an input read on another screen does.
\<close>

primrec home_tenths :: "pad_buttons \<Rightarrow> app_history \<Rightarrow> nat" where
  "home_tenths pb [] = 0"
| "home_tenths pb (e # h) =
     (case pad (snd e) of
        None \<Rightarrow> (case hold_of pb h of Hold_Timed start latest \<Rightarrow> 0 | _ \<Rightarrow> home_tenths pb h)
      | Some b \<Rightarrow>
          if fst e \<noteq> SCREEN_HOME then 0
          else case hold_of pb (e # h) of
                 Select_Up \<Rightarrow> 0
               | Hold_Timed start latest \<Rightarrow> tenths_since start (time_of e)
               | Hold_Opened start \<Rightarrow> tenths_since start (time_of e))"

text \<open>What is to be seen after a history: on the home screen the seconds and tenths of the hold.\<close>

definition home_drawing :: "nat \<Rightarrow> drawing" where
  "home_drawing n = Draw_Home (of_nat (n div 10)) (of_nat (n mod 10))"

definition current_drawing :: "pad_buttons \<Rightarrow> app_history \<Rightarrow> ('s::len, 'x) app_state_scheme \<Rightarrow> drawing" where
  "current_drawing pb h s =
     (case app_screen s of
        SCREEN_HOME \<Rightarrow> home_drawing (home_tenths pb h)
      | SCREEN_MENU \<Rightarrow> Draw_Menu
      | SCREEN_RESULT \<Rightarrow>
          Draw_Result (failures (app_result s) = 0)
            [checks (app_result s), failures (app_result s), ucast (initial_matches (app_result s)),
             ucast (changed_matches (app_result s)), ucast (increased_matches (app_result s)),
             ucast (decreased_matches (app_result s)), ucast (unchanged_matches (app_result s))])"

lemma home_tenths_le: "home_tenths pb h \<le> 50"
  by (induction h) (auto simp: tenths_since_def split: option.split select_hold.split)

text \<open>What \<open>draw_home\<close> shows of a hold that was cut off at five seconds.\<close>

lemma draw_home_held:
  assumes "held_ms \<le> VC_MENU_SELECT_HOLD_MS"
  shows "held_ms div 100 = of_nat (unat held_ms div 100)"
    and "Draw_Home (ucast (held_ms div 1000)) (ucast (held_ms mod 1000 div 100)) = home_drawing (unat held_ms div 100)"
proof -
  define n where "n = unat held_ms"
  have n: "n \<le> 5000" and held: "held_ms = of_nat n"
    using assms by (simp_all add: n_def word_le_nat_alt VC_MENU_SELECT_HOLD_MS_def)
  have unat: "unat (of_nat k :: uint64_t) = k" if "k \<le> 5000" for k
    using that by (simp add: unat_of_nat)
  have small: "ucast (of_nat k :: uint64_t) = (of_nat k :: uint32_t)" if "k \<le> 5000" for k
    using unat [OF that] by (simp add: unsigned_ucast_eq word_unat_eq_iff unat_of_nat take_bit_eq_mod)
  have le: "n div 100 \<le> 5000" "n div 1000 \<le> 5000" "n mod 1000 div 100 \<le> 5000"
    using n by linarith+
  then have eqs: "held_ms div 100 = of_nat (n div 100)" "held_ms div 1000 = of_nat (n div 1000)"
    "held_ms mod 1000 div 100 = of_nat (n mod 1000 div 100)"
    using n by (simp_all add: word_unat_eq_iff unat_div unat_mod unat held)
  then show "held_ms div 100 = of_nat (unat held_ms div 100)"
    by (simp add: n_def)
  have "n div 1000 = n div 100 div 10" and "n mod 1000 div 100 = n div 100 mod 10"
    using div_mult2_eq [of n 100 10] mod_mult2_eq [of n 100 10] by simp_all
  then show "Draw_Home (ucast (held_ms div 1000)) (ucast (held_ms mod 1000 div 100)) = home_drawing (unat held_ms div 100)"
    unfolding eqs using le small by (simp only: home_drawing_def n_def [symmetric])
qed

text \<open>The activation of the program is the hold of the history.\<close>

fun hold_matches :: "select_hold \<Rightarrow> vc_menu_activation_state \<Rightarrow> bool" where
  "hold_matches Select_Up act \<longleftrightarrow> \<not> pressed act"
| "hold_matches (Hold_Timed start latest) act \<longleftrightarrow>
     pressed act \<and> \<not> latched act \<and> pressed_since_ms act = start \<and> last_timestamp_ms act = latest"
| "hold_matches (Hold_Opened start) act \<longleftrightarrow> pressed act \<and> latched act \<and> pressed_since_ms act = start"

lemma hold_matches_update:
  assumes "hold_matches (hold_of pb h) act" and "menu_inv act" and "pad x = Some b"
  shows "hold_matches (hold_of pb ((SCREEN_HOME, x) # h))
    (snd (menu_update act (b AND SCE_CTRL_SELECT pb \<noteq> 0) (now_ms x)))"
proof -
  have since: "unat (t - pressed_since_ms act) = unat t - unat (pressed_since_ms act)"
    if "pressed act" "\<not> latched act" "\<not> t < last_timestamp_ms act" for t
    using that assms(2) by (intro unat_sub) (auto simp: menu_inv_def)
  show ?thesis
    using assms since [of "now_ms x"]
    by (cases "hold_of pb h")
      (auto simp: menu_update_def Let_def time_of_def menu_inv_def word_le_nat_alt VC_MENU_SELECT_HOLD_MS_def)
qed

lemma hold_matches_step:
  assumes hold: "hold_matches (hold_of pb h) (app_activation s)" and known: "hold_known pb h s"
    and step: "app_step pb ob s x = Some s'"
  shows "hold_matches (hold_of pb ((app_screen s, x) # h)) (app_activation s')"
  using step
proof (cases rule: app_step_cases)
  case missing
  with hold known show ?thesis
    by (cases "hold_of pb h") (auto simp: app_missing_def hold_known_def draw_simps menu_zero_def)
next
  case (home b)
  with hold known show ?thesis
    using hold_matches_update [of pb h "app_activation s" x b] by (simp add: app_home_activation hold_known_def)
next
  case (menu b)
  with hold show ?thesis
    by (cases "hold_of pb h") (auto simp: app_menu_screen app_release_def menu_update_def)
next
  case (shown b)
  with hold show ?thesis
    by (cases "hold_of pb h") (auto simp: app_result_screen_fields app_release_def menu_update_def)
qed

text \<open>The bucket that was drawn last, or that nothing is known of it, with zero on the screen.\<close>

definition app_display_ok :: "pad_buttons \<Rightarrow> app_history \<Rightarrow> ('s::len, 'x) app_state_scheme \<Rightarrow> bool" where
  "app_display_ok pb h s \<longleftrightarrow>
     drawn s \<noteq> [] \<and> hd (drawn s) = current_drawing pb h s \<and>
     (app_screen s = SCREEN_HOME \<longrightarrow> last_draw_bucket s = of_nat (home_tenths pb h) \<or>
        last_draw_bucket s = - 1 \<and> home_tenths pb h = 0)"

text \<open>The number the home screen computes is that of the history.\<close>

lemma held_tenths:
  assumes "hold_matches (hold_of pb ((SCREEN_HOME, x) # h)) act" and "pad x = Some b"
    and "held0 = (if pressed act \<and> now_ms x \<ge> pressed_since_ms act then now_ms x - pressed_since_ms act else 0)"
    and "held = (if held0 > VC_MENU_SELECT_HOLD_MS then VC_MENU_SELECT_HOLD_MS else held0)"
  shows "held \<le> VC_MENU_SELECT_HOLD_MS" and "unat held div 100 = home_tenths pb ((SCREEN_HOME, x) # h)"
proof -
  show "held \<le> VC_MENU_SELECT_HOLD_MS"
    using assms(4) by auto
  have "unat held = min 5000 (unat held0)"
    using assms(4) by (auto simp: VC_MENU_SELECT_HOLD_MS_def word_less_nat_alt)
  moreover have "unat held0 = (if pressed act then unat (now_ms x) - unat (pressed_since_ms act) else 0)"
    unfolding assms(3) by (auto simp: unat_sub word_le_nat_alt)
  moreover have "min 5000 k div 100 = min 50 (k div 100)" for k :: nat
    by (auto simp: min_def)
  ultimately have "unat held div 100 =
      (if pressed act then tenths_since (pressed_since_ms act) (now_ms x) else 0)"
    by (simp add: tenths_since_def)
  with assms(1,2) show "unat held div 100 = home_tenths pb ((SCREEN_HOME, x) # h)"
    by (cases "hold_of pb ((SCREEN_HOME, x) # h)") (simp_all add: time_of_def)
qed

lemma app_home_display:
  assumes ok: "app_display_ok pb h s" and "app_screen s = SCREEN_HOME" and "pad x = Some b"
    and "hold_matches (hold_of pb ((SCREEN_HOME, x) # h))
      (snd (menu_update (app_activation s) (b AND SCE_CTRL_SELECT pb \<noteq> 0) (now_ms x)))"
  shows "app_display_ok pb ((SCREEN_HOME, x) # h) (app_home pb b newly (now_ms x) s)"
proof -
  let ?h = "(SCREEN_HOME, x) # h"
  obtain event act where upd: "menu_update (app_activation s) (b AND SCE_CTRL_SELECT pb \<noteq> 0) (now_ms x) = (event, act)"
    by fastforce
  define held0 where "held0 =
    (if pressed act \<and> now_ms x \<ge> pressed_since_ms act then now_ms x - pressed_since_ms act else 0)"
  define held where "held = (if held0 > VC_MENU_SELECT_HOLD_MS then VC_MENU_SELECT_HOLD_MS else held0)"
  note n = held_tenths [OF assms(4) [unfolded upd snd_conv] assms(3) held0_def held_def]
  note drawing = draw_home_held [OF n(1), unfolded n(2)]
  have distinct: "(of_nat k :: uint64_t) = of_nat l \<longleftrightarrow> k = l" if "k \<le> 50" "l \<le> 50" for k l
    using that by (simp add: word_unat_eq_iff unat_of_nat)
  have "(of_nat k :: uint64_t) \<noteq> - 1" if "k \<le> 50" for k
    using that by (simp add: word_unat_eq_iff unat_of_nat unsigned_minus_1_eq_mask mask_eq_exp_minus_1)
  then have same: "home_tenths pb ?h = home_tenths pb h" if "last_draw_bucket s = of_nat (home_tenths pb ?h)"
    using that ok \<open>app_screen s = SCREEN_HOME\<close> distinct home_tenths_le [of pb ?h] home_tenths_le [of pb h]
    by (metis app_display_ok_def)
  have home: "app_home pb b newly (now_ms x) s =
     (let s1 = s\<lparr>app_activation := act\<rparr>;
          s2 = (if held div 100 \<noteq> last_draw_bucket s1
                then (draw_home held s1)\<lparr>last_draw_bucket := held div 100\<rparr> else s1)
      in if event = VC_MENU_ACTIVATION_TRIGGERED then draw_menu (s2\<lparr>app_screen := SCREEN_MENU\<rparr>)
         else if newly AND SCE_CTRL_CIRCLE pb \<noteq> 0 then s2\<lparr>exit_requested := True\<rparr>
         else s2)"
    unfolding app_home_def Let_def upd prod.case held_def held0_def by simp
  show ?thesis
    using ok \<open>app_screen s = SCREEN_HOME\<close> same drawing unfolding home
    by (simp add: app_display_ok_def current_drawing_def draw_simps del: home_tenths.simps)
qed

lemma app_display_cong:
  "app_screen s = app_screen s' \<Longrightarrow> last_draw_bucket s = last_draw_bucket s' \<Longrightarrow>
    app_result s = app_result s' \<Longrightarrow> drawn s = drawn s' \<Longrightarrow> app_display_ok pb h s = app_display_ok pb h s'"
  by (cases "app_screen s'") (simp_all add: app_display_ok_def current_drawing_def)

lemma app_display_away:
  "app_screen s \<noteq> SCREEN_HOME \<Longrightarrow> app_display_ok pb h s = app_display_ok pb h' s"
  by (cases "app_screen s") (simp_all add: app_display_ok_def current_drawing_def)

lemma app_menu_display:
  assumes "app_display_ok pb h s" and "app_screen s = SCREEN_MENU" and "pad x = Some b"
    and "app_menu pb ob newly s = Some s'"
  shows "app_display_ok pb ((SCREEN_MENU, x) # h) s'"
  using assms(4)
proof (cases rule: app_menu_cases)
  case tested
  then show ?thesis
    by (simp add: app_display_ok_def current_drawing_def draw_simps)
next
  case closed
  with assms(3) show ?thesis
    by (simp add: app_display_ok_def current_drawing_def home_drawing_def draw_simps)
next
  case left
  with assms(1,2) show ?thesis
    by (simp add: app_display_ok_def current_drawing_def)
next
  case idle
  with assms(1,2) app_display_away [of s pb h "(SCREEN_MENU, x) # h"] show ?thesis
    by simp
qed

lemma app_step_display:
  assumes ok: "app_display_ok pb h s" and hold: "hold_matches (hold_of pb h) (app_activation s)"
    and known: "hold_known pb h s" and step: "app_step pb ob s x = Some s'"
  shows "app_display_ok pb ((app_screen s, x) # h) s'"
  using step
proof (cases rule: app_step_cases)
  case missing
  show ?thesis
  proof (cases "\<exists>start latest. hold_of pb h = Hold_Timed start latest")
    case True
    with missing hold known show ?thesis
      by (auto simp: app_missing_def hold_known_def app_display_ok_def current_drawing_def home_drawing_def draw_simps)
  next
    case False
    with hold have same: "s' = s"
      unfolding missing(2) by (cases "hold_of pb h") (simp_all add: app_missing_def)
    have tenths: "home_tenths pb ((app_screen s, x) # h) = home_tenths pb h"
      using False missing(1) by (simp split: select_hold.split)
    show ?thesis
      using ok unfolding same app_display_ok_def current_drawing_def tenths .
  qed
next
  case (home b)
  have "app_display_ok pb h (s\<lparr>previous_buttons := b\<rparr>)"
    using ok app_display_cong [of "s\<lparr>previous_buttons := b\<rparr>" s] by simp
  moreover have "hold_matches (hold_of pb ((SCREEN_HOME, x) # h))
      (snd (menu_update (app_activation s) (b AND SCE_CTRL_SELECT pb \<noteq> 0) (now_ms x)))"
    using hold known home(1) by (intro hold_matches_update) (simp_all add: hold_known_def)
  ultimately show ?thesis
    unfolding home(2,3) using home(1,2) by (intro app_home_display) simp_all
next
  case (menu b)
  have "app_display_ok pb h (app_release pb b (now_ms x) (s\<lparr>previous_buttons := b\<rparr>))"
    using ok app_display_cong [of "app_release pb b (now_ms x) (s\<lparr>previous_buttons := b\<rparr>)" s] by simp
  with app_menu_display [OF this _ menu(1,3)] menu(2) show ?thesis
    by simp
next
  case (shown b)
  have "app_display_ok pb ((SCREEN_RESULT, x) # h) (app_release pb b (now_ms x) (s\<lparr>previous_buttons := b\<rparr>))"
    using ok shown(2) app_display_away [of s pb h "(SCREEN_RESULT, x) # h"]
      app_display_cong [of "app_release pb b (now_ms x) (s\<lparr>previous_buttons := b\<rparr>)" s] by simp
  with shown(2) show ?thesis
    by (auto simp: shown(3) app_result_screen_def draw_menu_def app_display_ok_def current_drawing_def)
qed

lemma app_reachable_display:
  "app_reachable pb ob m h s \<Longrightarrow> hold_matches (hold_of pb h) (app_activation s) \<and> app_display_ok pb h s"
proof (induction rule: app_reachable.induct)
  case reach_start
  show ?case
    by (simp add: app_start_def app_display_ok_def current_drawing_def home_drawing_def draw_simps menu_zero_def)
next
  case (reach_step h s x s')
  then show ?case
    using app_reachable_hold_known hold_matches_step app_step_display by blast
qed

text \<open>C19. The screen never lies. In every reachable state, the latest drawing is the one of the current screen. On
  the home screen its numbers are the seconds and the tenths of the hold of Select in the inputs read so far,
  from its first input to the latest one, between \<open>0.0\<close> and \<open>5.0\<close>, and \<open>0.0\<close> without a hold; on the result screen
  they are the numbers of the latest report, with the verdict \<open>PASS\<close> exactly if it counts no failure.\<close>

theorem app_shows_current_screen:
  assumes "app_reachable pb ob m h s"
  shows "drawn s \<noteq> [] \<and> hd (drawn s) = current_drawing pb h s"
  using app_reachable_display [OF assms] by (simp add: app_display_ok_def)

text \<open>An iteration that keeps the latch: the input is missing, or Select is still down.\<close>

definition select_not_released :: "pad_buttons \<Rightarrow> app_input \<Rightarrow> bool" where
  "select_not_released pb x =
     (case pad x of None \<Rightarrow> True | Some b \<Rightarrow> b AND SCE_CTRL_SELECT pb \<noteq> 0)"

definition app_latched :: "('s::len, 'x) app_state_scheme \<Rightarrow> bool" where
  "app_latched s \<longleftrightarrow> pressed (app_activation s) \<and> latched (app_activation s)"

lemma update_latched:
  "pressed act \<Longrightarrow> latched act \<Longrightarrow>
    menu_update act True t = (VC_MENU_ACTIVATION_NONE, act\<lparr>last_timestamp_ms := t\<rparr>)"
  by (simp add: menu_update_def Let_def)

lemma app_release_down:
  "b AND SCE_CTRL_SELECT pb \<noteq> 0 \<Longrightarrow> app_release pb b t s = s"
  by (simp add: app_release_def)

lemma app_step_latched:
  assumes "app_latched s" and "select_not_released pb x" and "app_step pb ob s x = Some s'"
  shows "app_latched s' \<and> (app_screen s = SCREEN_HOME \<longrightarrow> app_screen s' = SCREEN_HOME)"
  using assms(3)
proof (cases rule: app_step_cases)
  case missing
  with assms show ?thesis
    by (simp add: app_missing_def app_latched_def)
next
  case home
  with assms show ?thesis
    by (simp add: app_latched_def select_not_released_def app_home_activation update_latched)
next
  case (menu b)
  with assms have "b AND SCE_CTRL_SELECT pb \<noteq> 0"
    by (simp add: select_not_released_def)
  with menu assms(1) show ?thesis
    by (auto simp: app_release_down app_latched_def dest: app_menu_screen)
next
  case (shown b)
  with assms have "b AND SCE_CTRL_SELECT pb \<noteq> 0"
    by (simp add: select_not_released_def)
  with shown assms(1) show ?thesis
    by (simp add: app_release_down app_latched_def app_result_screen_fields)
qed

lemma app_run_latched:
  "app_latched s \<Longrightarrow> list_all (select_not_released pb) xs \<Longrightarrow> app_run pb ob xs s = Some s' \<Longrightarrow> app_latched s'"
proof (induction xs arbitrary: s)
  case (Cons x xs)
  show ?case
  proof (cases "exit_requested s")
    case False
    then obtain s1 where "app_step pb ob s x = Some s1" "app_run pb ob xs s1 = Some s'"
      using Cons.prems by (auto split: option.splits)
    then show ?thesis
      using Cons app_step_latched [of s pb x ob s1] by auto
  qed (use Cons.prems in simp)
qed simp

text \<open>C17. The menu opens once per hold. After an iteration that opened it from the home screen, it cannot be
  opened from the home screen again before the controller was read with Select up: it may be closed, and
  screens may change, but neither a missing input nor any other button rearms the hold.\<close>

theorem app_reopens_only_after_release:
  assumes "app_screen s0 = SCREEN_HOME" and "app_step pb ob s0 x0 = Some s1" and "app_screen s1 = SCREEN_MENU"
    and "list_all (select_not_released pb) xs" and "app_run pb ob xs s1 = Some s2"
    and "app_screen s2 = SCREEN_HOME" and "select_not_released pb x" and "app_step pb ob s2 x = Some s3"
  shows "app_screen s3 = SCREEN_HOME"
proof -
  have "app_latched s1"
    using assms(2)
  proof (cases rule: app_step_cases)
    case missing
    with assms show ?thesis
      by (auto simp: app_missing_def draw_simps split: if_splits)
  next
    case (home buttons)
    with assms show ?thesis
      using update_latches [of "app_activation s0"]
      by (simp add: app_latched_def app_home_activation split: if_splits)
  qed (use assms in simp_all)
  then have "app_latched s2"
    using assms by (blast intro: app_run_latched)
  then show ?thesis
    using assms app_step_latched by blast
qed

section \<open>Leaving the program\<close>

text \<open>The buttons of the latest input that could be read.\<close>

primrec last_buttons :: "app_history \<Rightarrow> uint32_t" where
  "last_buttons [] = 0"
| "last_buttons (e # h) = (case pad (snd e) of None \<Rightarrow> last_buttons h | Some b \<Rightarrow> b)"

definition newly_down :: "uint32_t \<Rightarrow> app_history \<Rightarrow> app_input \<Rightarrow> bool" where
  "newly_down button h x =
     (case pad x of None \<Rightarrow> False | Some b \<Rightarrow> (b AND NOT (last_buttons h)) AND button \<noteq> 0)"

lemma app_previous_buttons:
  assumes "app_step pb ob s x = Some s'"
  shows "previous_buttons s' = (case pad x of None \<Rightarrow> previous_buttons s | Some b \<Rightarrow> b)"
  using assms
proof (cases rule: app_step_cases)
  case missing
  then show ?thesis
    by (simp add: app_missing_def draw_def draw_home_def)
next
  case home
  then show ?thesis
    by (simp add: app_home_def draw_def draw_home_def draw_menu_def Let_def split: prod.splits)
next
  case (menu buttons)
  from menu(3) show ?thesis
    by (cases rule: app_menu_cases) (simp_all add: menu(1) draw_def draw_home_def draw_result_def)
next
  case shown
  then show ?thesis
    by (simp add: app_result_screen_def draw_def draw_menu_def)
qed

lemma app_reachable_buttons: "app_reachable pb ob m h s \<Longrightarrow> previous_buttons s = last_buttons h"
proof (induction rule: app_reachable.induct)
  case reach_start
  show ?case
    by (simp add: app_start_def draw_home_def draw_def)
next
  case reach_step
  then show ?case
    by (auto simp: app_previous_buttons split: option.splits)
qed

text \<open>The button that leaves each screen.\<close>

definition exit_button :: "pad_buttons \<Rightarrow> screen_state \<Rightarrow> uint32_t" where
  "exit_button pb scr = (if scr = SCREEN_HOME then SCE_CTRL_CIRCLE pb else SCE_CTRL_TRIANGLE pb)"

lemma app_step_exit:
  assumes "app_step pb ob s x = Some s'" and "\<not> exit_requested s" and "exit_requested s'"
  shows "\<exists>b. pad x = Some b \<and> (b AND NOT (previous_buttons s)) AND exit_button pb (app_screen s) \<noteq> 0"
  using assms(1)
proof (cases rule: app_step_cases)
  case missing
  with assms show ?thesis
    by (simp add: app_missing_def draw_simps split: if_splits)
next
  case home
  with assms show ?thesis
    by (simp add: app_home_activation exit_button_def)
next
  case (menu b)
  from menu(3) show ?thesis
    by (cases rule: app_menu_cases) (use assms menu in \<open>simp_all add: draw_simps exit_button_def\<close>)
next
  case shown
  with assms show ?thesis
    by (simp add: app_result_screen_def draw_simps exit_button_def split: if_splits)
qed

text \<open>C18. The program is left only on request: an exit is requested only by an iteration that read the exit button of
  the current screen (Circle at home, Triangle in the menu and on the result screen) as down after it was up
  in the latest input that could be read. A missing input, or a button kept down, never ends the program.\<close>

theorem app_exits_only_by_button:
  assumes "app_reachable pb ob m ((scr, x) # h) s" and "exit_requested s"
  shows "newly_down (exit_button pb scr) h x"
proof -
  obtain s0 where reach: "app_reachable pb ob m h s0" "app_screen s0 = scr" "\<not> exit_requested s0"
    and step: "app_step pb ob s0 x = Some s"
    by (rule app_reachable_last [OF assms(1)])
  show ?thesis
    using app_step_exit [OF step reach(3) assms(2)] app_reachable_buttons [OF reach(1)] reach(2)
    by (auto simp: newly_down_def)
qed

section \<open>A hold opens the menu\<close>

text \<open>A run of inputs read with Select down and Circle up, as samples of the activation.\<close>

definition select_only :: "pad_buttons \<Rightarrow> app_input \<Rightarrow> bool" where
  "select_only pb x =
     (case pad x of None \<Rightarrow> False
      | Some b \<Rightarrow> b AND SCE_CTRL_SELECT pb \<noteq> 0 \<and> b AND SCE_CTRL_CIRCLE pb = 0)"

lemma and_newly: "b AND c = 0 \<Longrightarrow> (b AND NOT p) AND c = (0 :: 'w::len word)"
  by (metis and.assoc and.commute and_zero_eq)

lemma app_home_opens:
  "fst (menu_update (app_activation s) (b AND SCE_CTRL_SELECT pb \<noteq> 0) t) = VC_MENU_ACTIVATION_TRIGGERED \<Longrightarrow>
    hd (drawn (app_home pb b newly t s)) = Draw_Menu"
  by (auto simp: app_home_def draw_simps split: prod.splits)

lemma app_step_select_only:
  assumes "select_only pb x" and "app_screen s = SCREEN_HOME"
  shows "\<exists>s'. app_step pb ob s x = Some s' \<and> app_activation s' = menu_step (app_activation s) (True, now_ms x) \<and>
    exit_requested s' = exit_requested s \<and>
    app_screen s' = (if fst (menu_update (app_activation s) True (now_ms x)) = VC_MENU_ACTIVATION_TRIGGERED
      then SCREEN_MENU else SCREEN_HOME) \<and>
    (app_screen s' = SCREEN_MENU \<longrightarrow> hd (drawn s') = Draw_Menu)"
  using assms
  by (auto simp: select_only_def app_step_def app_release_def app_home_activation app_home_opens menu_step_def and_newly
    split: option.splits)

lemma app_run_select_only:
  assumes "list_all (select_only pb) (xs @ [x])" and "app_screen s = SCREEN_HOME" and "\<not> exit_requested s"
    and "menu_events (app_activation s) (map (\<lambda>y. (True, now_ms y)) (xs @ [x])) =
      replicate (length xs) VC_MENU_ACTIVATION_NONE @ [VC_MENU_ACTIVATION_TRIGGERED]"
  shows "\<exists>s'. app_run pb ob (xs @ [x]) s = Some s' \<and> app_screen s' = SCREEN_MENU \<and> hd (drawn s') = Draw_Menu"
  using assms
proof (induction xs arbitrary: s)
  case Nil
  then show ?case
    using app_step_select_only [of pb x s ob] by auto
next
  case (Cons y xs)
  obtain s1 where s1: "app_step pb ob s y = Some s1"
    "app_activation s1 = menu_step (app_activation s) (True, now_ms y)"
    "\<not> exit_requested s1" "app_screen s1 = SCREEN_HOME"
    using app_step_select_only [of pb y s ob] Cons.prems by auto
  then have "\<exists>s'. app_run pb ob (xs @ [x]) s1 = Some s' \<and> app_screen s' = SCREEN_MENU \<and>
      hd (drawn s') = Draw_Menu"
    using Cons.prems by (intro Cons.IH) auto
  with s1 Cons.prems(3) show ?case
    by simp
qed

lemma hold_events_first:
  assumes "\<And>t. t \<in> set ts \<Longrightarrow> unat t - unat start < 5000" and "5000 \<le> unat u - unat start"
  shows "hold_events start (ts @ [u]) = replicate (length ts) VC_MENU_ACTIVATION_NONE @ [VC_MENU_ACTIVATION_TRIGGERED]"
  using assms by (induction ts) (simp_all add: hold_events_Cons)

text \<open>C16. Five seconds always open the menu. On the home screen with Select up in the activation, a run of inputs
  that could all be read, with Select down, Circle up and times that never go back, where the last is the first to be
  at least 5000 ms after the first, ends in the menu, with the menu drawn last.\<close>

theorem app_hold_opens_menu:
  assumes "app_reachable pb ob m h s" and "app_screen s = SCREEN_HOME" and "\<not> exit_requested s"
    and "\<not> pressed (app_activation s)"
    and "list_all (select_only pb) (x # xs @ [y])" and "sorted (map now_ms (x # xs @ [y]))"
    and "\<forall>z \<in> set xs. unat (now_ms z) - unat (now_ms x) < 5000" and "5000 \<le> unat (now_ms y) - unat (now_ms x)"
  shows "\<exists>s'. app_run pb ob (x # xs @ [y]) s = Some s' \<and> app_screen s' = SCREEN_MENU \<and>
    hd (drawn s') = Draw_Menu"
proof -
  let ?s1 = "menu_step (app_activation s) (True, now_ms x)"
  have "menu_inv ?s1"
    using app_reachable_hold_known [OF assms(1)] by (auto simp: hold_known_def intro: menu_inv_update)
  moreover have one: "pressed ?s1" "\<not> latched ?s1" "pressed_since_ms ?s1 = now_ms x"
    "last_timestamp_ms ?s1 = now_ms x" "fst (menu_update (app_activation s) True (now_ms x)) = VC_MENU_ACTIVATION_NONE"
    using assms(4) by (simp_all add: menu_step_def menu_update_def Let_def VC_MENU_SELECT_HOLD_MS_def)
  ultimately have "menu_events ?s1 (map (Pair True) (map now_ms (xs @ [y]))) = hold_events (now_ms x) (map now_ms (xs @ [y]))"
    using menu_events_holding [of ?s1 "map now_ms (xs @ [y])"] assms(6) by auto
  also have "\<dots> = replicate (length xs) VC_MENU_ACTIVATION_NONE @ [VC_MENU_ACTIVATION_TRIGGERED]"
    using hold_events_first [of "map now_ms xs" "now_ms x" "now_ms y"] assms(7,8) by auto
  finally show ?thesis
    using app_run_select_only [of pb "x # xs" y s ob] assms(2,3,5) one(5) by (simp add: comp_def)
qed

section \<open>The test\<close>

text \<open>C38. Cross in the menu runs the self-test and shows that it passed: six checks, no failure, and the expected
  numbers of matches of every relation.\<close>

theorem app_cross_shows_pass:
  fixes ob :: "'s::len self_test_objects" and s :: "'s app_state"
  assumes "supported_target TYPE('s)" and "objects_apart ob" and "app_screen s = SCREEN_MENU"
    and "pad x = Some b" and "(b AND NOT (previous_buttons s)) AND SCE_CTRL_CROSS pb \<noteq> 0"
  shows "\<exists>s'. app_step pb ob s x = Some s' \<and> app_screen s' = SCREEN_RESULT \<and>
    drawn s' = Draw_Result True [6, 0, 3, 2, 1, 1, 1] # drawn s"
proof -
  obtain m' where "run_scanner_self_test ob (app_memory s) = Some (passing_result, m')"
    using run_scanner_self_test_passes [OF assms(1,2), of "app_memory s"] by blast
  moreover have "ucast (3 :: 's word) = (3 :: uint32_t)" "ucast (2 :: 's word) = (2 :: uint32_t)"
    "ucast (1 :: 's word) = (1 :: uint32_t)"
    using assms(1) by (auto simp: supported_target_def)
  ultimately show ?thesis
    using assms(3-5)
    by (simp add: app_step_def app_menu_def Let_def draw_result_def passing_result_def)
qed

section \<open>Sample runs\<close>

text \<open>The buttons as \<^verbatim>\<open>psp2/ctrl.h\<close> numbers them, an input that was read, and a session: a hold of
  five seconds, the test, and Triangle.\<close>

definition sample_pad :: pad_buttons where
  "sample_pad = \<lparr>SCE_CTRL_SELECT = 1, SCE_CTRL_CIRCLE = 0x2000, SCE_CTRL_CROSS = 0x4000,
     SCE_CTRL_TRIANGLE = 0x1000\<rparr>"

definition sample_read :: "uint32_t \<Rightarrow> uint64_t \<Rightarrow> app_input" where
  "sample_read b t = \<lparr>pad = Some b, system_time = t\<rparr>"

lemmas sample_step_simps = sample_pad_def sample_read_def now_ms_def app_step_def app_release_def app_home_def
  app_menu_def app_result_screen_def menu_update_def VC_MENU_SELECT_HOLD_MS_def draw_def draw_home_def
  draw_menu_def Let_def

abbreviation sample_hold :: app_history where
  "sample_hold \<equiv> [(SCREEN_HOME, sample_read 1 9000000), (SCREEN_HOME, sample_read 1 4000000)]"

lemma sample_hold_reachable:
  "\<exists>s. app_reachable sample_pad sample_objects m sample_hold s \<and> app_screen s = SCREEN_MENU \<and>
    \<not> exit_requested s \<and> previous_buttons s = 1 \<and> drawn s \<noteq> [] \<and> app_latched s"
proof -
  obtain s1 where s1: "app_step sample_pad sample_objects (app_start m) (sample_read 1 4000000) = Some s1"
      "app_screen s1 = SCREEN_HOME" "\<not> exit_requested s1" "previous_buttons s1 = 1"
      "app_activation s1 = \<lparr>pressed_since_ms = 4000, last_timestamp_ms = 4000, pressed = True, latched = False\<rparr>"
    by (simp add: sample_step_simps app_start_def menu_zero_def)
  moreover obtain s2 where "app_step sample_pad sample_objects s1 (sample_read 1 9000000) = Some s2"
      "app_screen s2 = SCREEN_MENU" "\<not> exit_requested s2" "previous_buttons s2 = 1" "drawn s2 \<noteq> []" "app_latched s2"
    using s1 by (simp add: sample_step_simps app_latched_def)
  moreover have "\<not> exit_requested (app_start m)" "app_screen (app_start m) = SCREEN_HOME"
    by (simp_all add: app_start_def draw_simps)
  ultimately show ?thesis
    using reach_start reach_step by metis
qed

theorem app_exits_cleanly_witness:
  "app_main sample_pad sample_objects 0 [sample_read 0x2000 0] (\<lambda>_. 7) = Some 0 \<and>
   app_main sample_pad sample_objects (- 1) [sample_read 0x2000 0] (\<lambda>_. 7) = Some 1 \<and>
   app_main sample_pad sample_objects 0 [sample_read 0 0] (\<lambda>_. 7) = None"
proof -
  have "\<exists>s. app_run sample_pad sample_objects [sample_read 0x2000 0] (app_start (\<lambda>_. 7)) = Some s \<and> exit_requested s"
    and "\<exists>s. app_run sample_pad sample_objects [sample_read 0 0] (app_start (\<lambda>_. 7)) = Some s \<and> \<not> exit_requested s"
    by (simp_all add: sample_step_simps app_start_def menu_zero_def)
  then show ?thesis
    using app_exits_cleanly [OF supported_32 sample_objects_apart, of sample_pad "[sample_read 0x2000 0]" "\<lambda>_. 7" 0]
      app_exits_cleanly [OF supported_32 sample_objects_apart, of sample_pad "[sample_read 0x2000 0]" "\<lambda>_. 7" "- 1"]
      app_exits_cleanly [OF supported_32 sample_objects_apart, of sample_pad "[sample_read 0 0]" "\<lambda>_. 7" 0]
    by auto
qed

text \<open>A hold of 2.3 seconds is shown on the home screen.\<close>

theorem app_shows_current_screen_witness:
  "\<exists>s. app_reachable sample_pad sample_objects (\<lambda>_. 0)
      [(SCREEN_HOME, sample_read 1 6345000), (SCREEN_HOME, sample_read 1 4000000)] s \<and>
    app_screen s = SCREEN_HOME \<and> hd (drawn s) = Draw_Home 2 3"
proof -
  obtain s1 where s1: "app_step sample_pad sample_objects (app_start (\<lambda>_. 0)) (sample_read 1 4000000) = Some s1"
      "app_screen s1 = SCREEN_HOME" "\<not> exit_requested s1"
      "app_activation s1 = \<lparr>pressed_since_ms = 4000, last_timestamp_ms = 4000, pressed = True, latched = False\<rparr>"
    by (simp add: sample_step_simps app_start_def menu_zero_def)
  moreover obtain s2 where s2: "app_step sample_pad sample_objects s1 (sample_read 1 6345000) = Some s2"
      "app_screen s2 = SCREEN_HOME"
    using s1 by (simp add: sample_step_simps)
  moreover have "\<not> exit_requested (app_start (\<lambda>_. 0))" "app_screen (app_start (\<lambda>_. 0)) = SCREEN_HOME"
    by (simp_all add: app_start_def draw_simps)
  ultimately have reach: "app_reachable sample_pad sample_objects (\<lambda>_. 0)
      [(SCREEN_HOME, sample_read 1 6345000), (SCREEN_HOME, sample_read 1 4000000)] s2"
    using reach_start reach_step by metis
  moreover have "home_tenths sample_pad
      [(SCREEN_HOME, sample_read 1 6345000), (SCREEN_HOME, sample_read 1 4000000)] = 23"
    by (simp add: sample_pad_def sample_read_def time_of_def now_ms_def tenths_since_def)
  ultimately show ?thesis
    using app_shows_current_screen [OF reach] s2(2) by (auto simp: current_drawing_def home_drawing_def)
qed

theorem app_menu_needs_hold_witness:
  "\<exists>held rest. sample_hold = held @ rest \<and> one_hold sample_pad held \<and>
    5000 \<le> unat (9000 :: uint64_t) - unat (time_of (last held))"
proof -
  have "now_ms (sample_read 1 9000000) = 9000"
    by (simp add: now_ms_def sample_read_def)
  then show ?thesis
    using sample_hold_reachable [of "\<lambda>_. 0"]
      app_menu_needs_hold [of sample_pad sample_objects "\<lambda>_. 0" "sample_read 1 9000000"
        "[(SCREEN_HOME, sample_read 1 4000000)]"]
    by fastforce
qed

lemma sample_opening:
  "\<exists>(s0 :: 32 app_state) s1 s2 s3. app_screen s0 = SCREEN_HOME \<and>
    app_step sample_pad sample_objects s0 (sample_read 1 9000000) = Some s1 \<and> app_screen s1 = SCREEN_MENU \<and>
    app_run sample_pad sample_objects [sample_read 0x2001 9100000] s1 = Some s2 \<and> app_screen s2 = SCREEN_HOME \<and>
    app_step sample_pad sample_objects s2 (sample_read 1 20000000) = Some s3"
proof -
  obtain s0 where s0: "app_step sample_pad sample_objects (app_start (\<lambda>_. 0)) (sample_read 1 4000000) = Some s0"
      "app_screen s0 = SCREEN_HOME" "\<not> exit_requested s0" "previous_buttons s0 = 1"
      "app_activation s0 = \<lparr>pressed_since_ms = 4000, last_timestamp_ms = 4000, pressed = True, latched = False\<rparr>"
    by (simp add: sample_step_simps app_start_def menu_zero_def)
  obtain s1 where s1: "app_step sample_pad sample_objects s0 (sample_read 1 9000000) = Some s1"
      "app_screen s1 = SCREEN_MENU" "\<not> exit_requested s1" "previous_buttons s1 = 1"
    using s0 by (simp add: sample_step_simps)
  obtain s2 where s2: "app_run sample_pad sample_objects [sample_read 0x2001 9100000] s1 = Some s2"
      "app_screen s2 = SCREEN_HOME"
    using s1 by (simp add: sample_step_simps)
  have "\<exists>s3. app_step sample_pad sample_objects s2 (sample_read 1 20000000) = Some s3"
    using s2(2) by (simp add: app_step_def app_release_def sample_read_def)
  with s0(2) s1(1,2) s2 show ?thesis
    by blast
qed

theorem app_reopens_only_after_release_witness:
  "\<exists>(s1 :: 32 app_state) s2 s3. app_screen s1 = SCREEN_MENU \<and>
    app_run sample_pad sample_objects [sample_read 0x2001 9100000] s1 = Some s2 \<and>
    app_step sample_pad sample_objects s2 (sample_read 1 20000000) = Some s3 \<and> app_screen s3 = SCREEN_HOME"
proof -
  have "list_all (select_not_released sample_pad) [sample_read 0x2001 9100000]"
    and "select_not_released sample_pad (sample_read 1 20000000)"
    by (simp_all add: select_not_released_def sample_pad_def sample_read_def)
  then show ?thesis
    using sample_opening app_reopens_only_after_release by blast
qed

theorem app_exits_only_by_button_witness:
  "newly_down 0x1000 sample_hold (sample_read 0x1001 9100000) \<and>
   (\<exists>s. app_reachable sample_pad sample_objects (\<lambda>_. 0)
      ((SCREEN_MENU, sample_read 0x1001 9100000) # sample_hold) s \<and> exit_requested s)"
proof -
  obtain s0 where s0: "app_reachable sample_pad sample_objects (\<lambda>_. 0) sample_hold s0" "app_screen s0 = SCREEN_MENU"
      "\<not> exit_requested s0" "previous_buttons s0 = 1"
    using sample_hold_reachable by blast
  obtain s where "app_step sample_pad sample_objects s0 (sample_read 0x1001 9100000) = Some s" "exit_requested s"
    using s0 by (simp add: sample_step_simps)
  with s0 have s: "app_reachable sample_pad sample_objects (\<lambda>_. 0)
      ((SCREEN_MENU, sample_read 0x1001 9100000) # sample_hold) s" "exit_requested s"
    by (metis reach_step)+
  from app_exits_only_by_button [OF s] s show ?thesis
    by (auto simp: exit_button_def sample_pad_def)
qed

theorem app_hold_opens_menu_witness:
  "\<exists>s. app_run sample_pad sample_objects [sample_read 1 4000000, sample_read 1 6000000, sample_read 1 9000000]
      (app_start (\<lambda>_. 0)) = Some s \<and> app_screen s = SCREEN_MENU \<and> hd (drawn s) = Draw_Menu"
proof -
  have "app_screen (app_start (\<lambda>_. 0 :: 8 word) :: 32 app_state) = SCREEN_HOME"
    and "\<not> exit_requested (app_start (\<lambda>_. 0) :: 32 app_state)"
    and "\<not> pressed (app_activation (app_start (\<lambda>_. 0) :: 32 app_state))"
    by (simp_all add: app_start_def draw_simps menu_zero_def)
  then show ?thesis
    using app_hold_opens_menu [OF reach_start, where pb = sample_pad and ob = sample_objects and m = "\<lambda>_. 0" and
        x = "sample_read 1 4000000" and xs = "[sample_read 1 6000000]" and y = "sample_read 1 9000000"]
    by (simp add: select_only_def sample_pad_def sample_read_def now_ms_def)
qed

theorem app_cross_shows_pass_witness:
  "\<exists>s s'. app_reachable sample_pad sample_objects (\<lambda>_. 0) sample_hold s \<and>
    app_step sample_pad sample_objects s (sample_read 0x4000 9100000) = Some s' \<and>
    drawn s' = Draw_Result True [6, 0, 3, 2, 1, 1, 1] # drawn s"
proof -
  obtain s where s: "app_reachable sample_pad sample_objects (\<lambda>_. 0) sample_hold s" "app_screen s = SCREEN_MENU"
      "previous_buttons s = 1"
    using sample_hold_reachable by blast
  then show ?thesis
    using app_cross_shows_pass [OF supported_32 sample_objects_apart s(2),
        where x = "sample_read 0x4000 9100000" and b = "0x4000" and pb = sample_pad]
    by (auto simp: sample_read_def sample_pad_def)
qed

end
