(* ===== verification/VC_Fuzz_Search_Props.thy ===== *)
theory VC_Fuzz_Search_Props
  imports VC_Fuzz_Objects
begin

unbundle bit_operations_syntax

text \<open>
  Every call of the fuzz driver passes its checks, whatever the input: first the two initial searches, then the
  refinements, which are given the candidates the second search stored (\<open>fuzz_seeded\<close>). The driver
  therefore never aborts.
\<close>

text \<open>The two snapshots are parts of the input.\<close>

definition fuzz_fits :: "'s::len word \<Rightarrow> 's word \<Rightarrow> bool" where
  "fuzz_fits data_size n \<longleftrightarrow> 8 + 2 * unat n \<le> unat data_size \<and> unat n \<le> 256"

lemma fuzz_positions:
  fixes ob :: "('s::len, 'x) fuzz_objects_scheme"
  shows "fz_data ob + 8 = fz_data ob + of_nat 8" "fz_data ob + 8 + n = fz_data ob + of_nat (8 + unat n)"
  by simp_all

lemma fuzz_objects_at:
  "fst (fuzz_ranges ob data_size ! 0) = fz_data ob" "fst (fuzz_ranges ob data_size ! 1) = fz_candidates ob"
  "fst (fuzz_ranges ob data_size ! 2) = fz_in_place ob" "fst (fuzz_ranges ob data_size ! 3) = fz_offsets ob"
  "fst (fuzz_ranges ob data_size ! 4) = fz_written ob" "fst (fuzz_ranges ob data_size ! 5) = fz_total ob"
  "fst (fuzz_ranges ob data_size ! 6) = fz_refine_written ob" "fst (fuzz_ranges ob data_size ! 7) = fz_refine_total ob"
  "fst (fuzz_ranges ob data_size ! 8) = fz_in_place_written ob" "fst (fuzz_ranges ob data_size ! 9) = fz_in_place_total ob"
  "fst (fuzz_ranges ob data_size ! 10) = fz_invalid_written ob" "fst (fuzz_ranges ob data_size ! 11) = fz_invalid_total ob"
  "fst (fuzz_ranges ob data_size ! 12) = fz_arbitrary_query ob" "fst (fuzz_ranges ob data_size ! 13) = fz_seed_query ob"
  "fst (fuzz_ranges ob data_size ! 14) = fz_refine_query ob"
  by (simp_all add: fuzz_ranges_def)

lemma fuzz_arbitrary_passes:
  fixes ob :: "('s::len, 'x) fuzz_objects_scheme"
  assumes target: "supported_target TYPE('s)" and ob: "fuzz_apart ob data_size" and fits: "fuzz_fits data_size n"
    and cap: "unat cap \<le> 128"
  shows "\<exists>m1. fuzz_arbitrary ob n q cap m = Some m1 \<and> frame (fuzz_touched ob data_size {3, 4, 5}) m m1"
proof -
  let ?a = "fuzz_initial_args ob (fz_data ob + 8 + n) n (fz_arbitrary_query ob) q (fz_offsets ob) cap"
  have at: "fz_offsets ob = fst (fuzz_ranges ob data_size ! 3)" "fz_arbitrary_query ob = fst (fuzz_ranges ob data_size ! 12)"
    "8 + unat n + unat n \<le> unat data_size" "unat n \<le> 256" "3 \<in> {1, 2, 3 :: nat}" "12 \<in> {12..<15 :: nat}"
    using fits by (simp_all add: fuzz_fits_def fuzz_ranges_def)
  obtain status m1 where run: "vc_search_initial ?a m = Some (status, m1)"
    and framed: "frame (fuzz_touched ob data_size {3, 4, 5}) m m1"
    and result: "if initial_accepted ?a
       then (\<exists>hits. search_outcome ?a m hits status m1) \<and>
         valid_candidates (load_array m1 (fz_offsets ob) (unat (load_word m1 (fz_written ob) :: 's word))) (unat n)
           (vc_scalar_width (scalar_type q)) \<and> unat (load_word m1 (fz_written ob) :: 's word) \<le> 128
       else status \<noteq> VC_STATUS_OK \<and> status \<noteq> VC_STATUS_TRUNCATED"
    using fuzz_initial_run(2) [OF target ob fuzz_positions(2) at(3,4,1,5) cap at(2,6), where q = q and m = m] by blast
  show ?thesis
  proof (cases "initial_accepted ?a")
    case True
    note accepted = result [unfolded if_P [OF True]]
    have args: "written ?a = fz_written ob" "total_matches ?a = fz_total ob" "capacity ?a = cap" "query_value ?a = q"
      by (simp_all add: fuzz_initial_args_def)
    have "vc_scalar_width (scalar_type q) \<noteq> 0"
      using True by (simp add: initial_accepted_def well_formed_query_def args)
    then have width: "(of_nat (vc_scalar_width (scalar_type q)) :: 's word) \<noteq> 0"
      using width_word [OF target, of "scalar_type q"] by (auto dest: arg_cong [where f = unat])
    have offsets: "check_offsets m1 (fz_offsets ob) (load_word m1 (fz_written ob)) n
        (of_nat (vc_scalar_width (scalar_type q)) :: 's word) = Some ()"
      using accepted by (intro check_offsets_passes [OF target width_word [OF target] vc_scalar_width_le_4]) simp_all
    obtain hits where "search_outcome ?a m hits status m1"
      using accepted by blast
    note counters = outcome_counters [OF this, unfolded args]
    show ?thesis
      using framed width offsets counters(1,2,4) unfolding fuzz_arbitrary_def run by (simp add: Let_def)
  next
    case False
    then show ?thesis
      using framed result unfolding fuzz_arbitrary_def run by simp
  qed
qed

lemma fuzz_seed_passes:
  fixes ob :: "('s::len, 'x) fuzz_objects_scheme"
  assumes target: "supported_target TYPE('s)" and ob: "fuzz_apart ob data_size" and fits: "fuzz_fits data_size n"
    and q: "well_formed_query q" "relation q \<in> {VC_RELATION_EQUAL, VC_RELATION_NOT_EQUAL}"
  shows "\<exists>m1. fuzz_seed ob n q m = Some m1 \<and> frame (fuzz_touched ob data_size {1, 4, 5}) m m1 \<and>
    valid_candidates (load_array m1 (fz_candidates ob) (unat (load_word m1 (fz_written ob) :: 's word))) (unat n)
      (vc_scalar_width (scalar_type q)) \<and> unat (load_word m1 (fz_written ob) :: 's word) \<le> 128"
proof -
  let ?a = "fuzz_initial_args ob (fz_data ob + 8) n (fz_seed_query ob) q (fz_candidates ob) (of_nat VC_FUZZ_MAX_CANDIDATES)"
  have at: "fz_candidates ob = fst (fuzz_ranges ob data_size ! 1)" "fz_seed_query ob = fst (fuzz_ranges ob data_size ! 13)"
    "8 + unat n \<le> unat data_size" "unat n \<le> 256" "1 \<in> {1, 2, 3 :: nat}"
    "unat (of_nat VC_FUZZ_MAX_CANDIDATES :: 's word) \<le> 128" "13 \<in> {12..<15 :: nat}"
    using fits fuzz_sizes(1) [OF target] by (simp_all add: fuzz_fits_def fuzz_ranges_def)
  obtain status m1 where run: "vc_search_initial ?a m = Some (status, m1)"
    and framed: "frame (fuzz_touched ob data_size {1, 4, 5}) m m1"
    and accepted: "(\<exists>hits. search_outcome ?a m hits status m1)"
      "valid_candidates (load_array m1 (fz_candidates ob) (unat (load_word m1 (fz_written ob) :: 's word))) (unat n)
        (vc_scalar_width (scalar_type q))" "unat (load_word m1 (fz_written ob) :: 's word) \<le> 128"
    using fuzz_initial_run(2) [OF target ob fuzz_positions(1) at(3,4,1,5,6,2,7), where q = q and m = m,
        unfolded if_P [OF fuzz_initial_run(1) [OF target ob fuzz_positions(1) at(3,4,1,5,6,2,7) q]]] by blast
  have "check_offsets m1 (fz_candidates ob) (load_word m1 (fz_written ob)) n
      (of_nat (vc_scalar_width (scalar_type q)) :: 's word) = Some ()"
    using accepted(2,3) by (intro check_offsets_passes [OF target width_word [OF target] vc_scalar_width_le_4]) simp_all
  moreover have "status = VC_STATUS_OK \<or> status = VC_STATUS_TRUNCATED"
    using accepted(1) outcome_counters(3) by blast
  ultimately show ?thesis
    using framed accepted(2,3) unfolding fuzz_seed_def run by (simp add: Let_def VC_FUZZ_MAX_CANDIDATES_def)
qed

section \<open>The refinements pass their checks\<close>

text \<open>What the refinements are given: the snapshots, the candidates, and how many there are.\<close>

definition fuzz_seeded ::
  "('s::len, 'x) fuzz_objects_scheme \<Rightarrow> 's word \<Rightarrow> nat \<Rightarrow> uint8_t list \<Rightarrow> uint8_t list \<Rightarrow> uint32_t list \<Rightarrow>
   's memory \<Rightarrow> bool" where
  "fuzz_seeded ob n w old new cs m \<longleftrightarrow>
     snapshot m (fz_data ob + 8) (unat n) = old \<and> snapshot m (fz_data ob + 8 + n) (unat n) = new \<and>
     load_array m (fz_candidates ob) (length cs) = cs \<and>
     unat (load_word m (fz_written ob) :: 's word) = length cs \<and> length cs \<le> 128 \<and>
     valid_candidates cs (unat n) w"

lemma fuzz_part_untouched:
  fixes ob :: "('s::len, 'x) fuzz_objects_scheme"
  assumes ob: "fuzz_apart ob data_size" and I: "I \<subseteq> {..<15} - {j}" and j: "j < 15"
    and sub: "i + n \<le> snd (fuzz_ranges ob data_size ! j)"
  shows "span (fst (fuzz_ranges ob data_size ! j) + of_nat i) n \<inter> fuzz_touched ob data_size I = {}"
  using fuzz_untouched [OF ob j I] span_offset [OF sub, of "fst (fuzz_ranges ob data_size ! j)"] by blast

lemma fuzz_counter_untouched:
  fixes ob :: "('s::len, 'x) fuzz_objects_scheme"
  assumes "fuzz_apart ob data_size" and "I \<subseteq> {..<15} - {j}" and "j \<in> {4..<12}"
    and "frame (fuzz_touched ob data_size I) m m'"
  shows "(load_word m' (fst (fuzz_ranges ob data_size ! j)) :: 's word) = load_word m (fst (fuzz_ranges ob data_size ! j))"
proof -
  have "span (fst (fuzz_ranges ob data_size ! j)) (LENGTH('s) div 8) \<inter> fuzz_touched ob data_size I = {}"
    using fuzz_untouched [OF assms(1) _ assms(2)] assms(3) fuzz_range_sizes(3) [OF assms(3), of ob data_size] by auto
  then show ?thesis
    using assms(4) by (intro load_word_cong) (auto simp: frame_def)
qed

lemma fuzz_array_untouched:
  fixes ob :: "('s::len, 'x) fuzz_objects_scheme"
  assumes "fuzz_apart ob data_size" and "I \<subseteq> {..<15} - {j}" and "j \<in> {1, 2, 3}" and "n \<le> 128"
    and "frame (fuzz_touched ob data_size I) m m'"
  shows "load_array m' (fst (fuzz_ranges ob data_size ! j)) n = load_array m (fst (fuzz_ranges ob data_size ! j)) n"
  using fuzz_part_untouched [OF assms(1,2), of 0 "4 * n"] assms(3,4) fuzz_range_sizes(2) [OF assms(3), of ob data_size]
  by (intro frame_array [OF assms(5)]) auto

lemma fuzz_snapshot_untouched:
  fixes ob :: "('s::len, 'x) fuzz_objects_scheme"
  assumes "fuzz_apart ob data_size" and "I \<subseteq> {..<15} - {0}" and "i + n \<le> unat data_size"
    and "frame (fuzz_touched ob data_size I) m m'"
  shows "snapshot m' (fz_data ob + of_nat i) n = snapshot m (fz_data ob + of_nat i) n"
  using fuzz_part_untouched [OF assms(1,2), of i n] assms(3) fuzz_range_sizes(1) [of ob data_size]
  by (intro frame_snapshot [OF assms(4)]) auto

lemma fuzz_seeded_frame:
  assumes ob: "fuzz_apart ob data_size" and fits: "fuzz_fits data_size n"
    and seeded: "fuzz_seeded ob n w old new cs m"
    and framed: "frame (fuzz_touched ob data_size I) m m'" and I: "I \<subseteq> {..<15} - {0, 1, 4}"
  shows "fuzz_seeded ob n w old new cs m'"
proof -
  have at: "I \<subseteq> {..<15} - {0}" "I \<subseteq> {..<15} - {1}" "I \<subseteq> {..<15} - {4}" "8 + unat n \<le> unat data_size"
    "8 + unat n + unat n \<le> unat data_size" "length cs \<le> 128"
    using I fits seeded by (auto simp: fuzz_fits_def fuzz_seeded_def)
  show ?thesis
    using seeded fuzz_snapshot_untouched [OF ob at(1,4) framed] fuzz_snapshot_untouched [OF ob at(1,5) framed]
      fuzz_array_untouched [OF ob at(2) _ at(6) framed] fuzz_counter_untouched [OF ob at(3) _ framed]
    by (simp add: fuzz_seeded_def fuzz_objects_at [of ob data_size] add.assoc del: One_nat_def)
qed

lemma fuzz_refine_run:
  fixes ob :: "('s::len, 'x) fuzz_objects_scheme" and data_size n cands count out cap wr tot :: "'s word" and q m
  defines "object \<equiv> \<lambda>i. fst (fuzz_ranges ob data_size ! i)"
  defines "a \<equiv> fuzz_refine_args ob n q cands count out cap wr tot"
  assumes target: "supported_target TYPE('s)" and ob: "fuzz_apart ob data_size" and fits: "fuzz_fits data_size n"
    and out: "out = object k" "k \<in> {1, 2, 3}" "unat cap \<le> 128" and cand: "cands = object c" "c \<in> {1, 2, 3}"
    and counters: "wr = object i" "tot = object j" "i \<in> {4..<12}" "j \<in> {4..<12}" "i \<noteq> j"
    and seeded: "fuzz_seeded ob n (vc_scalar_width (scalar_type q)) old new cs m" "unat count = length cs"
    and q: "well_formed_query q"
  shows "well_placed a"
    and "load_array m cands (length cs) = cs \<Longrightarrow> \<exists>status m'. vc_search_refine a m = (status, m') \<and>
      search_outcome a m (refine_hits q old new cs) status m' \<and> frame (fuzz_touched ob data_size {k, i, j}) m m'"
proof -
  have a: "current a = fz_data ob + of_nat (8 + unat n)" "previous a = fz_data ob + of_nat 8" "snapshot_size a = n"
    "query a = object 14" "query_value a = q" "out_offsets a = out" "capacity a = cap" "query_bytes a = fz_sizeof_query ob"
    "written a = wr" "total_matches a = tot" "candidates a = cands" "candidate_count a = count"
    by (simp_all add: a_def fuzz_refine_args_def object_def fuzz_ranges_def)
  have count: "unat count \<le> 128"
    using seeded by (simp add: fuzz_seeded_def)
  have space: "8 + unat n + unat n \<le> unat data_size" "8 + unat n \<le> unat data_size" "unat n \<le> 256"
    using fits by (simp_all add: fuzz_fits_def)
  show placed: "well_placed a"
    by (rule fuzz_placed [OF target ob, of a "8 + unat n" k i j 14]) (use space out counters in \<open>simp_all add: a object_def del: of_nat_add\<close>)
  assume cs: "load_array m cands (length cs) = cs"
  have "refine_placed a"
    by (rule fuzz_refine_placed [OF target ob placed, of 8 k c i j])
      (use space out cand counters count in \<open>simp_all add: a object_def\<close>)
  moreover have candidates: "refine_candidates a m = cs"
    using cs seeded(2) by (simp add: refine_candidates_def a)
  ultimately have accepted: "refine_accepted a m"
    using seeded(1) q by (simp add: refine_accepted_def fuzz_seeded_def a(3,5))
  have snapshots: "snapshot m (previous a) (unat (snapshot_size a)) = old" "snapshot m (current a) (unat (snapshot_size a)) = new"
    using seeded(1) by (simp_all add: fuzz_seeded_def a add.assoc)
  obtain status m' where run: "vc_search_refine a m = (status, m')"
    and outcome: "search_outcome a m (refine_hits q old new cs) status m'"
    using vc_search_refine_run [OF target accepted] unfolding snapshots candidates a(5) by blast
  have "frame (fuzz_touched ob data_size {k, i, j}) m m'"
    by (rule outcome_frame [OF outcome]) (use out counters in \<open>simp_all add: a object_def\<close>)
  with run outcome show "\<exists>status m'. vc_search_refine a m = (status, m') \<and>
      search_outcome a m (refine_hits q old new cs) status m' \<and> frame (fuzz_touched ob data_size {k, i, j}) m m'"
    by blast
qed

lemma fuzz_refine_passes:
  fixes ob :: "('s::len, 'x) fuzz_objects_scheme" and n :: "'s word"
  assumes target: "supported_target TYPE('s)" and ob: "fuzz_apart ob data_size" and fits: "fuzz_fits data_size n"
    and cap: "unat cap \<le> 128" and seeded: "fuzz_seeded ob n (vc_scalar_width (scalar_type q)) old new cs m"
    and q: "well_formed_query q"
  defines "hits \<equiv> refine_hits q old new cs"
  shows "\<exists>status m1. fuzz_refine ob n q cap m = Some (status, m1) \<and> frame (fuzz_touched ob data_size {3, 6, 7}) m m1 \<and>
    status = (if length hits > unat cap then VC_STATUS_TRUNCATED else VC_STATUS_OK) \<and>
    load_array m1 (fz_offsets ob) (length (take (unat cap) hits)) = take (unat cap) hits \<and>
    unat (load_word m1 (fz_refine_written ob) :: 's word) = length (take (unat cap) hits) \<and>
    unat (load_word m1 (fz_refine_total ob) :: 's word) = length hits"
proof -
  let ?a = "fuzz_refine_args ob n q (fz_candidates ob) (load_word m (fz_written ob)) (fz_offsets ob) cap
    (fz_refine_written ob) (fz_refine_total ob)"
  have at: "fz_offsets ob = fst (fuzz_ranges ob data_size ! 3)" "3 \<in> {1, 2, 3 :: nat}"
    "fz_candidates ob = fst (fuzz_ranges ob data_size ! 1)" "1 \<in> {1, 2, 3 :: nat}"
    "fz_refine_written ob = fst (fuzz_ranges ob data_size ! 6)" "fz_refine_total ob = fst (fuzz_ranges ob data_size ! 7)"
    "6 \<in> {4..<12 :: nat}" "7 \<in> {4..<12 :: nat}" "6 \<noteq> (7 :: nat)"
    by (simp_all add: fuzz_ranges_def)
  have given: "unat (load_word m (fz_written ob) :: 's word) = length cs" "load_array m (fz_candidates ob) (length cs) = cs"
    "valid_candidates cs (unat n) (vc_scalar_width (scalar_type q))"
    using seeded by (simp_all add: fuzz_seeded_def)
  obtain status m1 where run: "vc_search_refine ?a m = (status, m1)" and outcome: "search_outcome ?a m hits status m1"
    and framed: "frame (fuzz_touched ob data_size {3, 6, 7}) m m1"
    using fuzz_refine_run(2) [OF target ob fits at(1,2) cap at(3-9) seeded given(1) q given(2)] unfolding hits_def by blast
  have args: "written ?a = fz_refine_written ob" "total_matches ?a = fz_refine_total ob" "capacity ?a = cap"
    "out_offsets ?a = fz_offsets ob"
    by (simp_all add: fuzz_refine_args_def)
  note counters = outcome_counters [OF outcome, unfolded args]
  have stored: "load_array m1 (fz_offsets ob) (length (take (unat cap) hits)) = take (unat cap) hits"
    "unat (load_word m1 (fz_refine_written ob) :: 's word) = length (take (unat cap) hits)"
    "unat (load_word m1 (fz_refine_total ob) :: 's word) = length hits"
    "status = (if length hits > unat cap then VC_STATUS_TRUNCATED else VC_STATUS_OK)"
    using outcome unfolding search_outcome_def Let_def args by blast+
  have "valid_candidates (take (unat cap) hits) (unat n) (vc_scalar_width (scalar_type q))"
    unfolding hits_def refine_hits_def using given(3) by (rule valid_candidates_filter)
  then have "check_offsets m1 (fz_offsets ob) (load_word m1 (fz_refine_written ob)) n
      (of_nat (vc_scalar_width (scalar_type q)) :: 's word) = Some ()"
    using stored(1,2) cap
    by (intro check_offsets_passes [OF target width_word [OF target] vc_scalar_width_le_4]) simp_all
  then show ?thesis
    using framed stored counters unfolding fuzz_refine_def run by (simp add: Let_def del: length_take)
qed

text \<open>Copying the candidates and resetting counters touches only the copy and the counters.\<close>

lemma frame_touched:
  fixes ob :: "('s::len, 'x) fuzz_objects_scheme"
  assumes "i \<in> I" and "k \<le> snd (fuzz_ranges ob data_size ! i)"
    and "frame (span (fst (fuzz_ranges ob data_size ! i)) k) m m'"
  shows "frame (fuzz_touched ob data_size I) m m'"
proof (rule frame_mono [OF assms(3)])
  show "span (fst (fuzz_ranges ob data_size ! i)) k \<subseteq> fuzz_touched ob data_size I"
    using span_mono [OF assms(2)] assms(1) unfolding fuzz_touched_def by blast
qed

lemma reset_counter_frame:
  fixes ob :: "('s::len, 'x) fuzz_objects_scheme"
  assumes "i \<in> I" and "i \<in> {4..<12}"
  shows "frame (fuzz_touched ob data_size I) m (store_word m (fst (fuzz_ranges ob data_size ! i)) (v :: 's word))"
proof (rule frame_touched [OF assms(1)])
  show "LENGTH('s) div 8 \<le> snd (fuzz_ranges ob data_size ! i)"
    unfolding fuzz_range_sizes(3) [OF assms(2)] by simp
  show "frame (span (fst (fuzz_ranges ob data_size ! i)) (LENGTH('s) div 8)) m
      (store_word m (fst (fuzz_ranges ob data_size ! i)) v)"
    by (simp add: frame_def store_word_outside)
qed

lemma copy_array_frame:
  fixes ob :: "('s::len, 'x) fuzz_objects_scheme"
  assumes "i \<in> I" and "i \<in> {1, 2, 3}" and "k \<le> 512"
  shows "frame (fuzz_touched ob data_size I) m (copy_bytes (fst (fuzz_ranges ob data_size ! i)) src k m)"
  by (rule frame_touched [OF assms(1) _ frame_copy]) (use assms(3) fuzz_range_sizes(2) [OF assms(2), of ob data_size] in simp)

lemma load_array_update:
  fixes a :: "'s::len word"
  assumes "i < n" and "4 * n \<le> 2 ^ LENGTH('s)"
  shows "load_array (store_word m (a + 4 * of_nat i) v) a n = (load_array m a n)[i := v]"
proof (rule nth_equalityI)
  fix j
  assume "j < length (load_array (store_word m (a + 4 * of_nat i) v) a n)"
  then have j: "j < n"
    by simp
  have "load_word (store_word m (a + 4 * of_nat i) v) (a + 4 * of_nat j) = (load_word m (a + 4 * of_nat j) :: uint32_t)"
    if "i \<noteq> j"
  proof -
    have "span (a + 4 * of_nat i) 4 \<inter> span (a + 4 * of_nat j) 4 = {}"
      using that assms j array_slots_disjoint [of i j a] array_slots_disjoint [of j i a]
      by (cases "i < j") (auto simp: Int_commute)
    then show ?thesis
      by (simp add: load_store_disjoint)
  qed
  moreover have "load_word (store_word m (a + 4 * of_nat i) v) (a + 4 * of_nat i) = v"
    using assms by (intro load_store_same) auto
  ultimately show "load_array (store_word m (a + 4 * of_nat i) v) a n ! j = (load_array m a n)[i := v] ! j"
    using j by (cases "i = j") (simp_all add: nth_list_update)
qed simp

text \<open>Both last calls copy the candidates into \<^verbatim>\<open>in_place\<close> and start from two counters at zero.\<close>

lemma fuzz_counters_reset:
  fixes ob :: "('s::len, 'x) fuzz_objects_scheme"
  assumes "{i, j} \<subseteq> I" and "i \<in> {4..<12}" and "j \<in> {4..<12}"
  shows "frame (fuzz_touched ob data_size I) m
    (store_word (store_word m (fst (fuzz_ranges ob data_size ! i)) (0 :: 's word)) (fst (fuzz_ranges ob data_size ! j)) (0 :: 's word))"
  by (rule frame_again; rule reset_counter_frame) (use assms in auto)

lemma fuzz_candidates_copied:
  fixes ob :: "('s::len, 'x) fuzz_objects_scheme"
  assumes target: "supported_target TYPE('s)" and seeded: "fuzz_seeded ob n w old new cs m" and I: "2 \<in> I"
  defines "m' \<equiv> copy_bytes (fz_in_place ob) (fz_candidates ob) (length cs * 4) m"
  shows "frame (fuzz_touched ob data_size I) m m'" and "load_array m' (fz_in_place ob) (length cs) = cs"
    and "4 * length cs \<le> 2 ^ LENGTH('s)"
proof -
  have cs: "load_array m (fz_candidates ob) (length cs) = cs" "length cs \<le> 128"
    using seeded by (simp_all add: fuzz_seeded_def)
  show "frame (fuzz_touched ob data_size I) m m'"
    using copy_array_frame [OF I, of "length cs * 4" ob data_size m "fz_candidates ob"] cs(2)
    by (simp add: m'_def fuzz_objects_at)
  show size: "4 * length cs \<le> 2 ^ LENGTH('s)"
    using cs(2) target by (auto simp: supported_target_def)
  show "load_array m' (fz_in_place ob) (length cs) = cs"
    using load_array_copy [OF size, of "fz_in_place ob" "fz_candidates ob" m] cs(1) by (simp add: m'_def mult.commute)
qed

lemma fuzz_in_place_passes:
  fixes ob :: "('s::len, 'x) fuzz_objects_scheme" and n :: "'s word"
  assumes target: "supported_target TYPE('s)" and ob: "fuzz_apart ob data_size" and fits: "fuzz_fits data_size n"
    and cap: "unat cap \<le> 128" and seeded: "fuzz_seeded ob n (vc_scalar_width (scalar_type q)) old new cs m"
    and q: "well_formed_query q"
  defines "hits \<equiv> refine_hits q old new cs"
  assumes status: "status = (if length hits > unat cap then VC_STATUS_TRUNCATED else VC_STATUS_OK)"
    and stored: "load_array m (fz_offsets ob) (length (take (unat cap) hits)) = take (unat cap) hits"
      "unat (load_word m (fz_refine_written ob) :: 's word) = length (take (unat cap) hits)"
      "unat (load_word m (fz_refine_total ob) :: 's word) = length hits"
  shows "\<exists>m'. fuzz_in_place_refine ob n q cap status m = Some m' \<and> frame (fuzz_touched ob data_size {2, 8, 9}) m m'"
proof -
  let ?touched = "fuzz_touched ob data_size {2, 8, 9}"
  have at: "fz_in_place ob = fst (fuzz_ranges ob data_size ! 2)" "2 \<in> {1, 2, 3 :: nat}"
    "fz_in_place_written ob = fst (fuzz_ranges ob data_size ! 8)" "fz_in_place_total ob = fst (fuzz_ranges ob data_size ! 9)"
    "8 \<in> {4..<12 :: nat}" "9 \<in> {4..<12 :: nat}" "8 \<noteq> (9 :: nat)"
    by (simp_all add: fuzz_ranges_def)
  have given: "unat (load_word m (fz_written ob) :: 's word) = length cs" "load_array m (fz_candidates ob) (length cs) = cs"
    "length cs \<le> 128"
    using seeded by (simp_all add: fuzz_seeded_def)
  define m1 where "m1 = copy_bytes (fz_in_place ob) (fz_candidates ob) (length cs * 4) m"
  define m2 where "m2 = store_word (store_word m1 (fz_in_place_written ob) (0 :: 's word)) (fz_in_place_total ob) (0 :: 's word)"
  note copy = fuzz_candidates_copied [OF target seeded insertI1, folded m1_def]
  have reset: "frame (fuzz_touched ob data_size {8, 9}) m1 m2"
    unfolding m2_def at(3,4) by (rule fuzz_counters_reset) simp_all
  have framed: "frame ?touched m m2"
    by (rule frame_trans [OF copy(1) reset]) (auto simp: fuzz_touched_def)
  have copied: "load_array m2 (fz_in_place ob) (length cs) = cs"
    using fuzz_array_untouched [OF ob _ at(2) given(3) reset] copy(2) unfolding at(1) by simp
  have ready: "fuzz_seeded ob n (vc_scalar_width (scalar_type q)) old new cs m2"
    by (rule fuzz_seeded_frame [OF ob fits seeded framed]) auto
  let ?a = "fuzz_refine_args ob n q (fz_in_place ob) (load_word m (fz_written ob)) (fz_in_place ob) cap
    (fz_in_place_written ob) (fz_in_place_total ob)"
  obtain status' m3 where run: "vc_search_refine ?a m2 = (status', m3)" and outcome: "search_outcome ?a m2 hits status' m3"
    and last: "frame ?touched m2 m3"
    using fuzz_refine_run(2) [OF target ob fits at(1,2) cap at(1-7) ready given(1) q copied] unfolding hits_def by blast
  have all: "frame ?touched m m3"
    using framed last by (rule frame_again)
  have args: "written ?a = fz_in_place_written ob" "total_matches ?a = fz_in_place_total ob" "capacity ?a = cap"
    "out_offsets ?a = fz_in_place ob"
    by (simp_all add: fuzz_refine_args_def)
  have result: "status' = status" "load_array m3 (fz_in_place ob) (length (take (unat cap) hits)) = take (unat cap) hits"
    "unat (load_word m3 (fz_in_place_written ob) :: 's word) = length (take (unat cap) hits)"
    "unat (load_word m3 (fz_in_place_total ob) :: 's word) = length hits"
    using outcome unfolding search_outcome_def Let_def args status by blast+
  have kept: "(load_word m3 (fz_refine_written ob) :: 's word) = load_word m (fz_refine_written ob)"
    "(load_word m3 (fz_refine_total ob) :: 's word) = load_word m (fz_refine_total ob)"
    "load_array m3 (fz_offsets ob) (length (take (unat cap) hits)) = load_array m (fz_offsets ob) (length (take (unat cap) hits))"
    using fuzz_counter_untouched [OF ob _ _ all, of 6] fuzz_counter_untouched [OF ob _ _ all, of 7]
      fuzz_array_untouched [OF ob _ _ _ all, of 3 "length (take (unat cap) hits)"] cap
    by (simp_all add: fuzz_objects_at [of ob data_size])
  have "(load_word m3 (fz_in_place_written ob) :: 's word) = load_word m3 (fz_refine_written ob)"
    "(load_word m3 (fz_in_place_total ob) :: 's word) = load_word m3 (fz_refine_total ob)"
    using result(3,4) stored(2,3) unfolding kept by (simp_all add: word_unat_eq_iff del: length_take)
  moreover have "load_array m3 (fz_in_place ob) (unat (load_word m3 (fz_refine_written ob) :: 's word)) =
      load_array m3 (fz_offsets ob) (unat (load_word m3 (fz_refine_written ob) :: 's word))"
    unfolding kept(1) stored(2) kept(3) result(2) stored(1) by (rule refl)
  ultimately show ?thesis
    using all run result(1) unfolding fuzz_in_place_refine_def Let_def given(1) m1_def [symmetric] m2_def [symmetric] run
    by simp
qed

lemma vc_search_refine_bad_candidates:
  fixes a :: "('s::len, 'x) refine_args_scheme"
  assumes target: "supported_target TYPE('s)" and "well_placed a" "well_formed_query (query_value a)"
    and "previous a = 0 \<longrightarrow> snapshot_size a = 0" and "candidates a \<noteq> 0"
    and "\<not> sorted_wrt (<) (load_array m (candidates a) (unat (candidate_count a)))"
  shows "vc_search_refine a m = (VC_STATUS_INVALID_CANDIDATES, m)"
proof -
  obtain output_bytes where "vc_validate_common a =
      Inr (query_value a, vc_scalar_width (scalar_type (query_value a)), output_bytes)"
    by (rule vc_validate_common_ok [OF assms(1-3)])
  then show ?thesis
    using assms(4-6)
    by (simp add: vc_search_refine_def vc_validate_candidates_status [OF target vc_scalar_width_le_4] valid_candidates_def)
qed

text \<open>The last call is given candidates of which the first is repeated, and refuses them.\<close>

lemma first_repeated:
  fixes a :: "'s::len word"
  assumes "load_array m a (length cs) = cs" and "1 < length cs" and "length cs \<le> 128" and "4 * length cs \<le> 2 ^ LENGTH('s)"
  defines "m' \<equiv> store_word m (a + 4) (load_word m a :: uint32_t)"
  shows "frame (span a 512) m m'" and "\<not> sorted_wrt (<) (load_array m' a (length cs))"
proof -
  have "m' x = m x" if "x \<notin> span a 512" for x
  proof -
    have "x \<notin> span (a + 4) 4"
      using that array_slot_in_span [of 1 128 a] by auto
    then show ?thesis
      by (simp add: m'_def store_word_outside)
  qed
  then show "frame (span a 512) m m'"
    by (simp add: frame_def)
  have "load_array m a (length cs) ! 0 = load_word m a"
    using assms(2) by (subst nth_load_array) auto
  then have "load_word m a = cs ! 0"
    unfolding assms(1) by (rule sym)
  then have "load_array m' a (length cs) = cs[1 := cs ! 0]"
    using load_array_update [of 1 "length cs" m a "cs ! 0"] assms(1,2,4) by (simp add: m'_def)
  then show "\<not> sorted_wrt (<) (load_array m' a (length cs))"
    using sorted_wrt_nth_less [of "(<)" "cs[1 := cs ! 0]" 0 1] assms(2) by auto
qed

lemma fuzz_repeated_refused:
  fixes ob :: "('s::len, 'x) fuzz_objects_scheme" and n :: "'s word"
  assumes target: "supported_target TYPE('s)" and ob: "fuzz_apart ob data_size" and fits: "fuzz_fits data_size n"
    and cap: "unat cap \<le> 128" and seeded: "fuzz_seeded ob n (vc_scalar_width (scalar_type q)) old new cs m"
    and q: "well_formed_query q" and count: "unat count = length cs"
    and unsorted: "\<not> sorted_wrt (<) (load_array m (fz_in_place ob) (length cs))"
  shows "vc_search_refine (fuzz_refine_args ob n q (fz_in_place ob) count (fz_offsets ob) cap
    (fz_invalid_written ob) (fz_invalid_total ob)) m = (VC_STATUS_INVALID_CANDIDATES, m)" (is "vc_search_refine ?a m = _")
proof (rule vc_search_refine_bad_candidates [OF target])
  have at: "fz_in_place ob = fst (fuzz_ranges ob data_size ! 2)" "2 \<in> {1, 2, 3 :: nat}"
    "fz_offsets ob = fst (fuzz_ranges ob data_size ! 3)" "3 \<in> {1, 2, 3 :: nat}"
    "fz_invalid_written ob = fst (fuzz_ranges ob data_size ! 10)" "fz_invalid_total ob = fst (fuzz_ranges ob data_size ! 11)"
    "10 \<in> {4..<12 :: nat}" "11 \<in> {4..<12 :: nat}" "10 \<noteq> (11 :: nat)"
    by (simp_all add: fuzz_ranges_def)
  have args: "query_value ?a = q" "previous ?a = fz_data ob + 8" "candidates ?a = fz_in_place ob"
    "candidate_count ?a = count" "snapshot_size ?a = n"
    by (simp_all add: fuzz_refine_args_def)
  show "well_placed ?a"
    by (rule fuzz_refine_run(1) [OF target ob fits at(3,4) cap at(1,2,5-9) seeded count q])
  show "well_formed_query (query_value ?a)"
    unfolding args by (rule q)
  show "previous ?a = 0 \<longrightarrow> snapshot_size ?a = 0"
    unfolding args
    using part_nonnull [OF fuzz_ranges_apart [OF ob, of 0 1], of 8 "unat n"] fuzz_range_nonnull [OF ob, of 0]
      fuzz_range_nonnull [OF ob, of 1] fits
    by (auto simp: fuzz_fits_def fuzz_ranges_def unat_eq_0)
  show "candidates ?a \<noteq> 0"
    unfolding args using fuzz_range_nonnull [OF ob, of 2] by (simp add: fuzz_objects_at)
  show "\<not> sorted_wrt (<) (load_array m (candidates ?a) (unat (candidate_count ?a)))"
    unfolding args count by (rule unsorted)
qed

lemma fuzz_invalid_passes:
  fixes ob :: "('s::len, 'x) fuzz_objects_scheme" and n :: "'s word"
  assumes target: "supported_target TYPE('s)" and ob: "fuzz_apart ob data_size" and fits: "fuzz_fits data_size n"
    and cap: "unat cap \<le> 128" and seeded: "fuzz_seeded ob n (vc_scalar_width (scalar_type q)) old new cs m"
    and q: "well_formed_query q"
  shows "\<exists>m'. fuzz_invalid ob n q cap m = Some m' \<and> frame (fuzz_touched ob data_size {2, 10, 11}) m m'"
proof (cases "(load_word m (fz_written ob) :: 's word) > 1")
  case False
  then show ?thesis
    by (simp add: fuzz_invalid_def frame_def)
next
  case True
  let ?touched = "fuzz_touched ob data_size {2, 10, 11}"
  have given: "unat (load_word m (fz_written ob) :: 's word) = length cs" "length cs \<le> 128" "1 < length cs"
    using seeded True by (auto simp: fuzz_seeded_def word_less_nat_alt)
  define m1 where "m1 = store_word (store_word m (fz_invalid_written ob) (0 :: 's word)) (fz_invalid_total ob) (0 :: 's word)"
  define m2 where "m2 = copy_bytes (fz_in_place ob) (fz_candidates ob) (length cs * 4) m1"
  define m3 where "m3 = store_word m2 (fz_in_place ob + 4) (load_word m2 (fz_in_place ob) :: uint32_t)"
  have f1: "frame ?touched m m1"
    using fuzz_counters_reset [of 10 11 "{2, 10, 11}" ob data_size m] by (simp add: m1_def fuzz_objects_at)
  have "fuzz_seeded ob n (vc_scalar_width (scalar_type q)) old new cs m1"
    by (rule fuzz_seeded_frame [OF ob fits seeded f1]) auto
  note copy = fuzz_candidates_copied [OF target this insertI1, folded m2_def]
  note repeated = first_repeated [OF copy(2) given(3,2) copy(3), folded m3_def]
  have "frame ?touched m2 m3"
    by (rule frame_touched [of 2 _ 512]) (use repeated(1) in \<open>simp_all add: fuzz_ranges_def\<close>)
  then have framed: "frame ?touched m m3"
    using frame_again [OF f1 copy(1)] frame_again by blast
  have "fuzz_seeded ob n (vc_scalar_width (scalar_type q)) old new cs m3"
    by (rule fuzz_seeded_frame [OF ob fits seeded framed]) auto
  note refused = fuzz_repeated_refused [OF target ob fits cap this q given(1) repeated(2)]
  show ?thesis
    using True framed refused
    unfolding fuzz_invalid_def Let_def given(1) m1_def [symmetric] m2_def [symmetric] m3_def [symmetric] by simp
qed

section \<open>The driver never aborts\<close>

lemma frame_parts:
  assumes "frame (fuzz_touched ob data_size I) m m'" and "frame (fuzz_touched ob data_size J) m' m''"
  shows "frame (fuzz_touched ob data_size (I \<union> J)) m m''"
  using assms by (rule frame_trans) (auto simp: fuzz_touched_def)

lemma frame_wider:
  "frame (fuzz_touched ob data_size I) m m' \<Longrightarrow> I \<subseteq> J \<Longrightarrow> frame (fuzz_touched ob data_size J) m m'"
  by (rule frame_mono) (auto simp: fuzz_touched_def)

lemma fuzz_counters_zeroed:
  fixes ob :: "('s::len, 'x) fuzz_objects_scheme"
  shows "frame (fuzz_touched ob data_size {4, 5, 6, 7}) m
    (foldl (\<lambda>m a. store_word m a (0 :: 's word)) m [fz_written ob, fz_total ob, fz_refine_written ob, fz_refine_total ob])"
proof -
  have "frame (fuzz_touched ob data_size {4, 5, 6, 7}) m' (store_word m' (fst (fuzz_ranges ob data_size ! i)) (0 :: 's word))"
    if "i \<in> {4, 5, 6, 7}" for i m'
    by (rule reset_counter_frame) (use that in auto)
  then show ?thesis
    using frame_again [OF frame_again [OF frame_again]]
    by (simp add: fuzz_objects_at [of ob data_size, symmetric] frame_def)
qed

text \<open>The two searches seed the refinements; the three refinements then keep their promises.\<close>

lemma fuzz_searches_pass:
  fixes ob :: "('s::len, 'x) fuzz_objects_scheme" and n :: "'s word"
  assumes target: "supported_target TYPE('s)" and ob: "fuzz_apart ob data_size" and fits: "fuzz_fits data_size n"
    and cap: "unat cap \<le> 128"
    and q: "well_formed_query q" "relation q \<in> {VC_RELATION_EQUAL, VC_RELATION_NOT_EQUAL}"
  shows "\<exists>m1 m2 old new cs. fuzz_arbitrary ob n any_query cap m = Some m1 \<and> fuzz_seed ob n q m1 = Some m2 \<and>
    frame (fuzz_touched ob data_size {1, 3, 4, 5}) m m2 \<and>
    fuzz_seeded ob n (vc_scalar_width (scalar_type q)) old new cs m2"
proof -
  obtain m1 where m1: "fuzz_arbitrary ob n any_query cap m = Some m1" "frame (fuzz_touched ob data_size {3, 4, 5}) m m1"
    using fuzz_arbitrary_passes [OF target ob fits cap] by blast
  obtain m2 where m2: "fuzz_seed ob n q m1 = Some m2" "frame (fuzz_touched ob data_size {1, 4, 5}) m1 m2"
    and found: "valid_candidates (load_array m2 (fz_candidates ob) (unat (load_word m2 (fz_written ob) :: 's word)))
        (unat n) (vc_scalar_width (scalar_type q))" "unat (load_word m2 (fz_written ob) :: 's word) \<le> 128"
    using fuzz_seed_passes [OF target ob fits q, of m1] by blast
  have "fuzz_seeded ob n (vc_scalar_width (scalar_type q)) (snapshot m2 (fz_data ob + 8) (unat n))
      (snapshot m2 (fz_data ob + 8 + n) (unat n))
      (load_array m2 (fz_candidates ob) (unat (load_word m2 (fz_written ob) :: 's word))) m2"
    using found by (simp add: fuzz_seeded_def)
  moreover have "frame (fuzz_touched ob data_size {1, 3, 4, 5}) m m2"
    using m1(2) m2(2) by (rule frame_trans) (auto simp: fuzz_touched_def)
  ultimately show ?thesis
    using m1(1) m2(1) by blast
qed

lemma fuzz_refinements_pass:
  fixes ob :: "('s::len, 'x) fuzz_objects_scheme" and n :: "'s word"
  assumes target: "supported_target TYPE('s)" and ob: "fuzz_apart ob data_size" and fits: "fuzz_fits data_size n"
    and cap: "unat cap \<le> 128" and seeded: "fuzz_seeded ob n (vc_scalar_width (scalar_type q)) old new cs m"
    and q: "well_formed_query q"
  shows "\<exists>status m1 m2 m3. fuzz_refine ob n q cap m = Some (status, m1) \<and>
    fuzz_in_place_refine ob n q cap status m1 = Some m2 \<and> fuzz_invalid ob n q cap m2 = Some m3 \<and>
    frame (fuzz_touched ob data_size {1..<15}) m m3"
proof -
  obtain status m1 where m1: "fuzz_refine ob n q cap m = Some (status, m1)" "frame (fuzz_touched ob data_size {3, 6, 7}) m m1"
    and stored: "status = (if length (refine_hits q old new cs) > unat cap then VC_STATUS_TRUNCATED else VC_STATUS_OK)"
      "load_array m1 (fz_offsets ob) (length (take (unat cap) (refine_hits q old new cs))) =
        take (unat cap) (refine_hits q old new cs)"
      "unat (load_word m1 (fz_refine_written ob) :: 's word) = length (take (unat cap) (refine_hits q old new cs))"
      "unat (load_word m1 (fz_refine_total ob) :: 's word) = length (refine_hits q old new cs)"
    using fuzz_refine_passes [OF target ob fits cap seeded q] by blast
  have s1: "fuzz_seeded ob n (vc_scalar_width (scalar_type q)) old new cs m1"
    by (rule fuzz_seeded_frame [OF ob fits seeded m1(2)]) auto
  obtain m2 where m2: "fuzz_in_place_refine ob n q cap status m1 = Some m2" "frame (fuzz_touched ob data_size {2, 8, 9}) m1 m2"
    using fuzz_in_place_passes [OF target ob fits cap s1 q stored] by blast
  have s2: "fuzz_seeded ob n (vc_scalar_width (scalar_type q)) old new cs m2"
    by (rule fuzz_seeded_frame [OF ob fits s1 m2(2)]) auto
  obtain m3 where m3: "fuzz_invalid ob n q cap m2 = Some m3" "frame (fuzz_touched ob data_size {2, 10, 11}) m2 m3"
    using fuzz_invalid_passes [OF target ob fits cap s2 q] by blast
  have "frame (fuzz_touched ob data_size {1..<15}) m m3"
    using frame_parts [OF m1(2) frame_parts [OF m2(2) m3(2)]] by (rule frame_wider) auto
  with m1(1) m2(1) m3(1) show ?thesis
    by blast
qed

text \<open>C33. On every input the fuzz driver returns 0: none of its checks fails (the counters and the status agree, the
  offsets stored ascend and fit, the refinement in place gives what the one into another array gives, repeated
  candidates are refused), no search runs on for ever, and no byte outside the driver's own objects changes.
\<close>

theorem fuzz_never_aborts:
  fixes ob :: "('s::len, 'x) fuzz_objects_scheme"
  assumes target: "supported_target TYPE('s)" and ob: "fuzz_apart ob data_size"
  shows "\<exists>m'. LLVMFuzzerTestOneInput ob data_size m = Some (0, m') \<and> frame (fuzz_touched ob data_size {1..<15}) m m'"
proof -
  define m0 where "m0 = foldl (\<lambda>m a. store_word m a (0 :: 's word)) m
    [fz_written ob, fz_total ob, fz_refine_written ob, fz_refine_total ob]"
  define n where "n = fuzz_snapshot_size data_size"
  define cap where "cap = fuzz_capacity m0 (fz_data ob)"
  have zeroed: "frame (fuzz_touched ob data_size {4, 5, 6, 7}) m m0"
    unfolding m0_def by (rule fuzz_counters_zeroed)
  show ?thesis
  proof (cases "data_size < 8")
    case True
    have "frame (fuzz_touched ob data_size {1..<15}) m m0"
      using zeroed by (rule frame_wider) auto
    with True show ?thesis
      by (simp add: LLVMFuzzerTestOneInput_def m0_def)
  next
    case False
    then have fits: "fuzz_fits data_size n"
      using fuzz_sizes(4) [OF target, of data_size] target
      by (auto simp: n_def fuzz_fits_def word_le_nat_alt word_less_nat_alt supported_target_def)
    have cap: "unat cap \<le> 128"
      unfolding cap_def by (rule fuzz_sizes(3) [OF target])
    have type: "scalar_type (seed_query m0 (fz_data ob)) = scalar_type (refine_query m0 (fz_data ob))"
      by (simp add: refine_query_def)
    obtain m1 m2 old new cs where searches: "fuzz_arbitrary ob n (arbitrary_query m0 (fz_data ob)) cap m0 = Some m1"
      "fuzz_seed ob n (seed_query m0 (fz_data ob)) m1 = Some m2" "frame (fuzz_touched ob data_size {1, 3, 4, 5}) m0 m2"
      "fuzz_seeded ob n (vc_scalar_width (scalar_type (refine_query m0 (fz_data ob)))) old new cs m2"
      using fuzz_searches_pass [OF target ob fits cap fuzz_queries_ok(1,2), of "arbitrary_query m0 (fz_data ob)" m0 m0 "fz_data ob"]
      unfolding type by blast
    obtain status m3 m4 m5 where refinements: "fuzz_refine ob n (refine_query m0 (fz_data ob)) cap m2 = Some (status, m3)"
      "fuzz_in_place_refine ob n (refine_query m0 (fz_data ob)) cap status m3 = Some m4"
      "fuzz_invalid ob n (refine_query m0 (fz_data ob)) cap m4 = Some m5" "frame (fuzz_touched ob data_size {1..<15}) m2 m5"
      using fuzz_refinements_pass [OF target ob fits cap searches(4) fuzz_queries_ok(3)] by blast
    have "LLVMFuzzerTestOneInput ob data_size m = Some (0, m5)"
      using False searches(1,2) refinements(1-3)
      by (simp add: LLVMFuzzerTestOneInput_def Let_def m0_def [symmetric] n_def [symmetric] cap_def [symmetric] del: foldl_Cons)
    moreover have "frame (fuzz_touched ob data_size {1..<15}) m m5"
      using frame_parts [OF zeroed frame_parts [OF searches(3) refinements(4)]]
      by (rule frame_wider) auto
    ultimately show ?thesis
      by blast
  qed
qed

definition sample_fuzz_objects :: "32 fuzz_objects" where
  "sample_fuzz_objects =
     \<lparr>fz_data = 0x1000, fz_candidates = 0x2000, fz_in_place = 0x2200, fz_offsets = 0x2400,
      fz_written = 0x3000, fz_total = 0x3004, fz_refine_written = 0x3008, fz_refine_total = 0x300C,
      fz_in_place_written = 0x3010, fz_in_place_total = 0x3014, fz_invalid_written = 0x3018, fz_invalid_total = 0x301C,
      fz_arbitrary_query = 0x4000, fz_seed_query = 0x4010, fz_refine_query = 0x4020, fz_sizeof_query = 16\<rparr>"

lemma sample_fuzz_apart: "fuzz_apart sample_fuzz_objects 64"
  by (simp add: fuzz_apart_def fuzz_ranges_def ranges_apart_def sample_fuzz_objects_def apart_32)

theorem fuzz_never_aborts_witness:
  "\<exists>m'. LLVMFuzzerTestOneInput sample_fuzz_objects 64 (\<lambda>_. 7) = Some (0, m') \<and> m' 0x1000 = 7 \<and> m' 0x5000 = 7"
proof -
  have "{1..<15} = set [1, 2, 3, 4, 5, 6, 7, 8, 9, 10, 11, 12, 13, 14 :: nat]"
    by auto presburger
  then have "0x1000 \<notin> fuzz_touched sample_fuzz_objects 64 {1..<15}" "0x5000 \<notin> fuzz_touched sample_fuzz_objects 64 {1..<15}"
    by (simp_all add: fuzz_touched_def fuzz_ranges_def sample_fuzz_objects_def span_def)
  then show ?thesis
    using fuzz_never_aborts [OF supported_32 sample_fuzz_apart, of "\<lambda>_. 7"] by (fastforce simp: frame_def)
qed

end
