(* ===== verification/VC_Pause.thy ===== *)
theory VC_Pause
  imports VC_Prelude
begin

unbundle bit_operations_syntax

text \<open>
  The pause transaction of \<^verbatim>\<open>src/pause.c\<close> and \<^verbatim>\<open>include/vitacheat/pause.h\<close>. The thread
  operations are callbacks of an adapter that is not part of the program: the model takes them as
  parameters, functions of the adapter's context that return a C \<^verbatim>\<open>int\<close> and the context they leave.
  Null pointers (the state, the operations, a callback, the thread list) are \<open>None\<close>. The contract the
  header states for the callbacks is the interface \<open>thread_adapter\<close>.
\<close>

section \<open>Data\<close>

type_synonym vc_thread_id = int32_t

datatype vc_pause_status =
    VC_PAUSE_STATUS_OK
  | VC_PAUSE_STATUS_EXPIRED
  | VC_PAUSE_STATUS_INVALID_ARGUMENT
  | VC_PAUSE_STATUS_INVALID_THREADS
  | VC_PAUSE_STATUS_ALREADY_ACTIVE
  | VC_PAUSE_STATUS_NOT_ACTIVE
  | VC_PAUSE_STATUS_STALE_TARGET
  | VC_PAUSE_STATUS_SUSPEND_FAILED
  | VC_PAUSE_STATUS_ROLLBACK_FAILED
  | VC_PAUSE_STATUS_RESUME_FAILED

type_synonym 'c thread_operation = "'c \<Rightarrow> vc_thread_id \<Rightarrow> int32_t \<times> 'c"

record 'c vc_pause_operations =
  suspend_thread :: "'c thread_operation option"
  resume_thread :: "'c thread_operation option"

record vc_pause_state =
  target_generation :: uint64_t
  started_ms :: uint64_t
  deadline_ms :: uint64_t
  owned_mask :: uint64_t
  thread_ids :: "vc_thread_id list" \<comment> \<open>\<open>VC_PAUSE_MAX_THREADS\<close> entries\<close>
  thread_count :: nat
  failed_thread_id :: vc_thread_id
  active :: bool

definition VC_PAUSE_MAX_THREADS :: nat where
  "VC_PAUSE_MAX_THREADS = 64"

definition VC_PAUSE_MAX_DURATION_MS :: uint64_t where
  "VC_PAUSE_MAX_DURATION_MS = 600000"

section \<open>Operations\<close>

text \<open>\<^verbatim>\<open>memset(state, 0, sizeof(*state))\<close>\<close>

definition vc_pause_clear :: vc_pause_state where
  "vc_pause_clear =
     \<lparr>target_generation = 0, started_ms = 0, deadline_ms = 0, owned_mask = 0,
      thread_ids = replicate VC_PAUSE_MAX_THREADS 0, thread_count = 0, failed_thread_id = 0,
      active = False\<rparr>"

definition vc_pause_state_init :: "vc_pause_state option \<Rightarrow> vc_pause_state option" where
  "vc_pause_state_init state = (case state of None \<Rightarrow> None | Some _ \<Rightarrow> Some vc_pause_clear)"

function vc_pause_validate_loop :: "vc_thread_id list \<Rightarrow> nat \<Rightarrow> nat \<Rightarrow> vc_pause_status" where
  "vc_pause_validate_loop ids count index =
     (if index < count
      then if ids ! index \<le>s 0 \<or> (index \<noteq> 0 \<and> ids ! index \<le>s ids ! (index - 1))
           then VC_PAUSE_STATUS_INVALID_THREADS
           else vc_pause_validate_loop ids count (Suc index)
      else VC_PAUSE_STATUS_OK)"
  by pat_completeness auto
termination
  by (relation "measure (\<lambda>(ids, count, index). count - index)") auto

declare vc_pause_validate_loop.simps [simp del]

definition vc_pause_validate_threads :: "vc_thread_id list option \<Rightarrow> nat \<Rightarrow> vc_pause_status" where
  "vc_pause_validate_threads ids count =
     (case ids of
        None \<Rightarrow> VC_PAUSE_STATUS_INVALID_THREADS
      | Some xs \<Rightarrow>
          if count = 0 \<or> count > VC_PAUSE_MAX_THREADS then VC_PAUSE_STATUS_INVALID_THREADS
          else vc_pause_validate_loop xs count 0)"

text \<open>The rollback loop of \<^verbatim>\<open>vc_pause_begin\<close>: it also returns \<^verbatim>\<open>rollback_failed\<close>.\<close>

primrec vc_pause_rollback ::
  "'c thread_operation \<Rightarrow> nat \<Rightarrow> bool \<Rightarrow> vc_pause_state \<Rightarrow> 'c \<Rightarrow> bool \<times> vc_pause_state \<times> 'c" where
  "vc_pause_rollback resume 0 rollback_failed s c = (rollback_failed, s, c)"
| "vc_pause_rollback resume (Suc index) rollback_failed s c =
     (if owned_mask s AND push_bit index 1 = 0
      then vc_pause_rollback resume index rollback_failed s c
      else
        let (result, c') = resume c (thread_ids s ! index)
        in if result = 0
           then vc_pause_rollback resume index rollback_failed
                  (s\<lparr>owned_mask := owned_mask s AND NOT (push_bit index 1)\<rparr>) c'
           else vc_pause_rollback resume index True
                  (s\<lparr>failed_thread_id := thread_ids s ! index\<rparr>) c')"

text \<open>The suspend loop of \<^verbatim>\<open>vc_pause_begin\<close> from an index on, to the return of the call.\<close>

function vc_pause_suspend_loop ::
  "'c thread_operation \<Rightarrow> 'c thread_operation \<Rightarrow> nat \<Rightarrow> nat \<Rightarrow> vc_pause_state \<Rightarrow> 'c \<Rightarrow>
   vc_pause_status \<times> vc_pause_state \<times> 'c" where
  "vc_pause_suspend_loop suspend resume count index s c =
     (if index < count
      then
        let (result, c') = suspend c (thread_ids s ! index)
        in if result \<noteq> 0
           then
             let (rollback_failed, s', c'') =
                   vc_pause_rollback resume index False
                     (s\<lparr>failed_thread_id := thread_ids s ! index\<rparr>) c'
             in if owned_mask s' = 0
                then (VC_PAUSE_STATUS_SUSPEND_FAILED, vc_pause_clear, c'')
                else (if rollback_failed then VC_PAUSE_STATUS_ROLLBACK_FAILED
                      else VC_PAUSE_STATUS_SUSPEND_FAILED, s', c'')
           else vc_pause_suspend_loop suspend resume count (Suc index)
                  (s\<lparr>owned_mask := owned_mask s OR push_bit index 1\<rparr>) c'
      else (VC_PAUSE_STATUS_OK, s\<lparr>failed_thread_id := 0\<rparr>, c))"
  by pat_completeness auto
termination
  by (relation "measure (\<lambda>(suspend, resume, count, index, s, c). count - index)") auto

declare vc_pause_suspend_loop.simps [simp del]

text \<open>The state \<^verbatim>\<open>vc_pause_begin\<close> sets up before the first suspension.\<close>

definition vc_pause_prepare ::
  "uint64_t \<Rightarrow> uint64_t \<Rightarrow> uint64_t \<Rightarrow> vc_thread_id list \<Rightarrow> nat \<Rightarrow> vc_pause_state" where
  "vc_pause_prepare generation now_ms max_pause_ms ids count =
     vc_pause_clear
       \<lparr>thread_ids := take count ids @ drop count (thread_ids vc_pause_clear),
        target_generation := generation,
        started_ms := now_ms,
        deadline_ms := now_ms + max_pause_ms,
        thread_count := count,
        active := True\<rparr>"

definition vc_pause_begin ::
  "vc_pause_state option \<Rightarrow> uint64_t \<Rightarrow> uint64_t \<Rightarrow> uint64_t \<Rightarrow> vc_thread_id list option \<Rightarrow> nat \<Rightarrow>
   'c vc_pause_operations option \<Rightarrow> 'c \<Rightarrow> vc_pause_status \<times> vc_pause_state option \<times> 'c" where
  "vc_pause_begin state generation now_ms max_pause_ms ids count operations c =
     (case (state, operations) of
        (Some s, Some ops) \<Rightarrow>
          (case (suspend_thread ops, resume_thread ops) of
             (Some suspend, Some resume) \<Rightarrow>
               if generation = 0 \<or> max_pause_ms = 0 \<or> max_pause_ms > VC_PAUSE_MAX_DURATION_MS \<or>
                  now_ms > - 1 - max_pause_ms
               then (VC_PAUSE_STATUS_INVALID_ARGUMENT, state, c)
               else if active s \<or> owned_mask s \<noteq> 0
               then (VC_PAUSE_STATUS_ALREADY_ACTIVE, state, c)
               else
                 let status = vc_pause_validate_threads ids count
                 in if status \<noteq> VC_PAUSE_STATUS_OK then (status, state, c)
                    else
                      map_prod id (map_prod Some id)
                        (vc_pause_suspend_loop suspend resume count 0
                           (vc_pause_prepare generation now_ms max_pause_ms (the ids) count) c)
           | _ \<Rightarrow> (VC_PAUSE_STATUS_INVALID_ARGUMENT, state, c))
      | _ \<Rightarrow> (VC_PAUSE_STATUS_INVALID_ARGUMENT, state, c))"

primrec vc_pause_resume_loop ::
  "'c thread_operation \<Rightarrow> nat \<Rightarrow> vc_pause_state \<Rightarrow> 'c \<Rightarrow> vc_pause_state \<times> 'c" where
  "vc_pause_resume_loop resume 0 s c = (s, c)"
| "vc_pause_resume_loop resume (Suc index) s c =
     (if owned_mask s AND push_bit index 1 = 0
      then vc_pause_resume_loop resume index s c
      else
        let (result, c') = resume c (thread_ids s ! index)
        in vc_pause_resume_loop resume index
             (if result = 0
              then s\<lparr>owned_mask := owned_mask s AND NOT (push_bit index 1)\<rparr>
              else if failed_thread_id s = 0
              then s\<lparr>failed_thread_id := thread_ids s ! index\<rparr>
              else s) c')"

definition vc_pause_end ::
  "vc_pause_state option \<Rightarrow> uint64_t \<Rightarrow> 'c vc_pause_operations option \<Rightarrow> 'c \<Rightarrow>
   vc_pause_status \<times> vc_pause_state option \<times> 'c" where
  "vc_pause_end state generation operations c =
     (case (state, Option.bind operations resume_thread) of
        (Some s, Some resume) \<Rightarrow>
          if generation = 0 then (VC_PAUSE_STATUS_INVALID_ARGUMENT, state, c)
          else if \<not> active s then (VC_PAUSE_STATUS_NOT_ACTIVE, state, c)
          else if target_generation s \<noteq> generation then (VC_PAUSE_STATUS_STALE_TARGET, state, c)
          else
            let (s', c') =
                  vc_pause_resume_loop resume (thread_count s) (s\<lparr>failed_thread_id := 0\<rparr>) c
            in if owned_mask s' \<noteq> 0 then (VC_PAUSE_STATUS_RESUME_FAILED, Some s', c')
               else (VC_PAUSE_STATUS_OK, Some vc_pause_clear, c')
      | _ \<Rightarrow> (VC_PAUSE_STATUS_INVALID_ARGUMENT, state, c))"

definition vc_pause_tick ::
  "vc_pause_state option \<Rightarrow> uint64_t \<Rightarrow> uint64_t \<Rightarrow> 'c vc_pause_operations option \<Rightarrow> 'c \<Rightarrow>
   vc_pause_status \<times> vc_pause_state option \<times> 'c" where
  "vc_pause_tick state generation now_ms operations c =
     (case (state, Option.bind operations resume_thread) of
        (Some s, Some resume) \<Rightarrow>
          if generation = 0 then (VC_PAUSE_STATUS_INVALID_ARGUMENT, state, c)
          else if \<not> active s then (VC_PAUSE_STATUS_NOT_ACTIVE, state, c)
          else if target_generation s \<noteq> generation then (VC_PAUSE_STATUS_STALE_TARGET, state, c)
          else if now_ms \<ge> started_ms s \<and> now_ms < deadline_ms s
          then (VC_PAUSE_STATUS_OK, state, c)
          else
            let (status, result) = vc_pause_end state generation operations c
            in (if status = VC_PAUSE_STATUS_OK then VC_PAUSE_STATUS_EXPIRED else status, result)
      | _ \<Rightarrow> (VC_PAUSE_STATUS_INVALID_ARGUMENT, state, c))"

definition vc_pause_abandon ::
  "vc_pause_state option \<Rightarrow> uint64_t \<Rightarrow> vc_pause_status \<times> vc_pause_state option" where
  "vc_pause_abandon state generation =
     (case state of
        None \<Rightarrow> (VC_PAUSE_STATUS_INVALID_ARGUMENT, state)
      | Some s \<Rightarrow>
          if generation = 0 then (VC_PAUSE_STATUS_INVALID_ARGUMENT, state)
          else if \<not> active s then (VC_PAUSE_STATUS_NOT_ACTIVE, state)
          else if target_generation s \<noteq> generation then (VC_PAUSE_STATUS_STALE_TARGET, state)
          else (VC_PAUSE_STATUS_OK, Some vc_pause_clear))"

section \<open>The transaction, abstractly\<close>

text \<open>
  \<open>call_until op xs c\<close> calls \<open>op\<close> on the elements of \<open>xs\<close> in order and stops at the first that
  fails: the elements that succeeded, the one that failed, the context. \<open>call_all op xs c\<close> calls \<open>op\<close> on
  every element in order: the elements that failed, in that order, and the context. A result other than
  \<open>0\<close> is a failure.
\<close>

primrec call_until ::
  "('c \<Rightarrow> 'a \<Rightarrow> int32_t \<times> 'c) \<Rightarrow> 'a list \<Rightarrow> 'c \<Rightarrow> 'a list \<times> 'a option \<times> 'c" where
  "call_until f [] c = ([], None, c)"
| "call_until f (x # xs) c =
     (let (result, c') = f c x
      in if result \<noteq> 0 then ([], Some x, c')
         else let (done, failed, c'') = call_until f xs c' in (x # done, failed, c''))"

primrec call_all :: "('c \<Rightarrow> 'a \<Rightarrow> int32_t \<times> 'c) \<Rightarrow> 'a list \<Rightarrow> 'c \<Rightarrow> 'a list \<times> 'c" where
  "call_all f [] c = ([], c)"
| "call_all f (x # xs) c =
     (let (result, c') = f c x; (failed, c'') = call_all f xs c'
      in (if result = 0 then failed else x # failed, c''))"

definition owned_indices :: "uint64_t \<Rightarrow> nat \<Rightarrow> nat list" where
  "owned_indices own n = filter (bit own) [0..<n]"

definition owned_threads :: "vc_pause_state \<Rightarrow> vc_thread_id list" where
  "owned_threads s = map (nth (thread_ids s)) (owned_indices (owned_mask s) (thread_count s))"

lemma call_all_map:
  "call_all f (map g xs) c = map_prod (map g) id (call_all (\<lambda>c x. f c (g x)) xs c)"
  by (induction xs arbitrary: c) (auto simp: Let_def split: prod.splits)

lemma call_until_map:
  "call_until f (map g xs) c =
    map_prod (map g) (map_prod (map_option g) id) (call_until (\<lambda>c x. f c (g x)) xs c)"
  by (induction xs arbitrary: c) (auto simp: Let_def split: prod.splits)

lemma call_all_subset: "call_all f xs c = (failed, c') \<Longrightarrow> set failed \<subseteq> set xs"
  by (induction xs arbitrary: c failed c') (fastforce split: prod.splits if_splits)+

lemma call_all_subseq: "call_all f xs c = (failed, c') \<Longrightarrow> failed = filter (\<lambda>x. x \<in> set failed) xs"
  if "distinct xs"
  using that
proof (induction xs arbitrary: c failed c')
  case Nil
  then show ?case by simp
next
  case (Cons x xs)
  obtain result c1 rest c2 where run: "f c x = (result, c1)" "call_all f xs c1 = (rest, c2)"
    by (meson surj_pair)
  have "rest = filter (\<lambda>y. y \<in> set rest) xs" and "x \<notin> set rest"
    using Cons.IH [OF run(2)] Cons.prems(2) call_all_subset [OF run(2)] by auto
  moreover have "filter (\<lambda>y. y = x \<or> y \<in> set rest) xs = filter (\<lambda>y. y \<in> set rest) xs"
    using Cons.prems(2) by (intro filter_cong) auto
  moreover have "failed = (if result = 0 then rest else x # rest)"
    using Cons.prems(1) run by simp
  ultimately show ?case
    by auto
qed

section \<open>The ownership mask\<close>

lemma mask_bit_clear_iff: "(own :: uint64_t) AND 2 ^ i = 0 \<longleftrightarrow> \<not> bit own i"
  by (simp add: and_exp_eq_0_iff_not_bit)

lemma bit_mask_set: "i < 64 \<Longrightarrow> bit ((own :: uint64_t) OR 2 ^ i) j \<longleftrightarrow> bit own j \<or> j = i"
  by (auto simp: bit_or_iff bit_exp_iff)

lemma bit_mask_clear:
  "bit ((own :: uint64_t) AND NOT (2 ^ i)) j \<longleftrightarrow> bit own j \<and> j \<noteq> i"
  using bit_imp_le_length [of own j]
  by (auto simp: bit_and_iff bit_not_iff bit_exp_iff)

lemma mask_eq_0_iff: "(own :: uint64_t) = 0 \<longleftrightarrow> (\<forall>i. \<not> bit own i)"
  using bit_eq_iff [of own 0] bit_imp_possible_bit [of own] by auto

lemma owned_indices_Suc:
  "owned_indices own (Suc n) = owned_indices own n @ (if bit own n then [n] else [])"
  by (simp add: owned_indices_def)

lemma owned_indices_clear:
  "n \<le> i \<Longrightarrow> owned_indices (own AND NOT (2 ^ i)) n = owned_indices own n"
  by (auto simp: owned_indices_def bit_mask_clear intro!: filter_cong)

lemma set_owned_indices: "set (owned_indices own n) = {i. i < n \<and> bit own i}"
  by (auto simp: owned_indices_def)

section \<open>The resume loops\<close>

text \<open>
  Both loops visit the owned indices below \<open>n\<close> from the highest down, call resume on each, and clear
  exactly the bits whose resume succeeded.
\<close>

definition keep_failed :: "uint64_t \<Rightarrow> nat \<Rightarrow> nat list \<Rightarrow> uint64_t \<Rightarrow> bool" where
  "keep_failed own n failed own' \<longleftrightarrow>
     (\<forall>i. bit own' i \<longleftrightarrow> bit own i \<and> (i < n \<longrightarrow> i \<in> set failed))"

lemma keep_failed_stay:
  "\<not> bit own n \<Longrightarrow> keep_failed own n failed own' \<Longrightarrow> keep_failed own (Suc n) failed own'"
  by (auto simp: keep_failed_def less_Suc_eq)

lemma keep_failed_success:
  assumes "keep_failed (own AND NOT (2 ^ n)) n failed own'" and "n \<notin> set failed"
  shows "keep_failed own (Suc n) failed own'"
  using assms by (auto simp: keep_failed_def bit_mask_clear less_Suc_eq)

lemma keep_failed_failure:
  "keep_failed own n failed own' \<Longrightarrow> keep_failed own (Suc n) (n # failed) own'"
  by (auto simp: keep_failed_def less_Suc_eq)

lemma owned_call_all_Suc:
  assumes "bit own n" and "f c n = (result, c1)"
    and "call_all f (rev (owned_indices own (Suc n))) c = (failed, c')"
  shows "\<exists>rest. call_all f (rev (owned_indices own n)) c1 = (rest, c') \<and> n \<notin> set rest \<and>
    failed = (if result = 0 then rest else n # rest)"
proof -
  obtain rest c2 where run: "call_all f (rev (owned_indices own n)) c1 = (rest, c2)"
    by (meson surj_pair)
  have "n \<notin> set rest"
    using call_all_subset [OF run] by (auto simp: set_owned_indices)
  with run assms show ?thesis
    by (simp add: owned_indices_Suc)
qed

lemma vc_pause_resume_loop_call_all:
  assumes "call_all (\<lambda>c i. resume c (thread_ids s ! i)) (rev (owned_indices (owned_mask s) n)) c =
      (failed, c')"
    and "\<And>i. i < n \<Longrightarrow> thread_ids s ! i \<noteq> 0"
  shows "\<exists>own'. keep_failed (owned_mask s) n failed own' \<and>
    vc_pause_resume_loop resume n s c =
      (s\<lparr>owned_mask := own',
         failed_thread_id :=
           (if failed_thread_id s \<noteq> 0 \<or> failed = [] then failed_thread_id s
            else thread_ids s ! hd failed)\<rparr>, c')"
  using assms
proof (induction n arbitrary: s c failed)
  case 0
  then show ?case
    by (auto simp: owned_indices_def keep_failed_def)
next
  case (Suc n)
  show ?case
  proof (cases "bit (owned_mask s) n")
    case False
    then have "call_all (\<lambda>c i. resume c (thread_ids s ! i)) (rev (owned_indices (owned_mask s) n)) c =
        (failed, c')"
      using Suc.prems(1) by (simp add: owned_indices_Suc)
    from Suc.IH [OF this Suc.prems(2)] False show ?thesis
      by (auto simp: mask_bit_clear_iff intro: keep_failed_stay)
  next
    case True
    obtain result c1 where call: "resume c (thread_ids s ! n) = (result, c1)"
      by (meson surj_pair)
    from owned_call_all_Suc [OF True call Suc.prems(1)] obtain rest
      where rest: "call_all (\<lambda>c i. resume c (thread_ids s ! i)) (rev (owned_indices (owned_mask s) n)) c1 =
          (rest, c')" "n \<notin> set rest" "failed = (if result = 0 then rest else n # rest)"
      by blast
    show ?thesis
    proof (cases "result = 0")
      case success: True
      let ?s = "s\<lparr>owned_mask := owned_mask s AND NOT (2 ^ n)\<rparr>"
      have "call_all (\<lambda>c i. resume c (thread_ids ?s ! i)) (rev (owned_indices (owned_mask ?s) n)) c1 =
          (rest, c')"
        using rest(1) by (simp add: owned_indices_clear)
      from Suc.IH [OF this] Suc.prems(2) rest(2,3) success True call show ?thesis
        by (auto simp: mask_bit_clear_iff intro: keep_failed_success)
    next
      case failure: False
      define s' where "s' = (if failed_thread_id s = 0
        then s\<lparr>failed_thread_id := thread_ids s ! n\<rparr> else s)"
      have "thread_ids s ! n \<noteq> 0"
        using Suc.prems(2) by simp
      then have s': "thread_ids s' = thread_ids s" "owned_mask s' = owned_mask s"
        "failed_thread_id s' =
          (if failed_thread_id s = 0 then thread_ids s ! n else failed_thread_id s)"
        "failed_thread_id s' \<noteq> 0"
        "s'\<lparr>owned_mask := own', failed_thread_id := t\<rparr> =
          s\<lparr>owned_mask := own', failed_thread_id := t\<rparr>" for own' t
        by (simp_all add: s'_def)
      have "call_all (\<lambda>c i. resume c (thread_ids s' ! i)) (rev (owned_indices (owned_mask s') n)) c1 =
          (rest, c')"
        using rest(1) by (simp add: s')
      from Suc.IH [OF this] Suc.prems(2) obtain own'
        where "keep_failed (owned_mask s) n rest own'"
          "vc_pause_resume_loop resume n s' c1 =
            (s\<lparr>owned_mask := own', failed_thread_id := failed_thread_id s'\<rparr>, c')"
        by (auto simp: s'(1,2,4,5))
      with rest(3) failure True call show ?thesis
        by (intro exI [of _ own'])
          (auto simp: mask_bit_clear_iff keep_failed_failure s'(3) simp flip: s'_def)
    qed
  qed
qed

lemma vc_pause_rollback_call_all:
  assumes "call_all (\<lambda>c i. resume c (thread_ids s ! i)) (rev (owned_indices (owned_mask s) n)) c =
      (failed, c')"
  shows "\<exists>own'. keep_failed (owned_mask s) n failed own' \<and>
    vc_pause_rollback resume n flag s c =
      (flag \<or> failed \<noteq> [],
       s\<lparr>owned_mask := own',
         failed_thread_id :=
           (if failed = [] then failed_thread_id s else thread_ids s ! last failed)\<rparr>, c')"
  using assms
proof (induction n arbitrary: s c failed flag)
  case 0
  then show ?case
    by (auto simp: owned_indices_def keep_failed_def)
next
  case (Suc n)
  show ?case
  proof (cases "bit (owned_mask s) n")
    case False
    then have "call_all (\<lambda>c i. resume c (thread_ids s ! i)) (rev (owned_indices (owned_mask s) n)) c =
        (failed, c')"
      using Suc.prems(1) by (simp add: owned_indices_Suc)
    from Suc.IH [OF this, of flag] False show ?thesis
      by (auto simp: mask_bit_clear_iff intro: keep_failed_stay)
  next
    case True
    obtain result c1 where call: "resume c (thread_ids s ! n) = (result, c1)"
      by (meson surj_pair)
    from owned_call_all_Suc [OF True call Suc.prems(1)] obtain rest
      where rest: "call_all (\<lambda>c i. resume c (thread_ids s ! i)) (rev (owned_indices (owned_mask s) n)) c1 =
          (rest, c')" "n \<notin> set rest" "failed = (if result = 0 then rest else n # rest)"
      by blast
    show ?thesis
    proof (cases "result = 0")
      case success: True
      let ?s = "s\<lparr>owned_mask := owned_mask s AND NOT (2 ^ n)\<rparr>"
      have "call_all (\<lambda>c i. resume c (thread_ids ?s ! i)) (rev (owned_indices (owned_mask ?s) n)) c1 =
          (rest, c')"
        using rest(1) by (simp add: owned_indices_clear)
      from Suc.IH [OF this, of flag] rest(2,3) success True call show ?thesis
        by (auto simp: mask_bit_clear_iff intro: keep_failed_success)
    next
      case failure: False
      let ?s = "s\<lparr>failed_thread_id := thread_ids s ! n\<rparr>"
      have "call_all (\<lambda>c i. resume c (thread_ids ?s ! i)) (rev (owned_indices (owned_mask ?s) n)) c1 =
          (rest, c')"
        using rest(1) by simp
      from Suc.IH [OF this, of True] rest(3) failure True call show ?thesis
        by (auto simp: mask_bit_clear_iff intro: keep_failed_failure)
    qed
  qed
qed

section \<open>The suspend loop\<close>

lemma mask_64_Suc: "(Bit_Operations.mask n :: uint64_t) OR 2 ^ n = Bit_Operations.mask (Suc n)"
  by (simp add: mask_Suc_exp or.commute)

lemma owned_indices_mask: "n \<le> 64 \<Longrightarrow> owned_indices (Bit_Operations.mask n) n = [0..<n]"
  by (auto simp: owned_indices_def bit_mask_iff intro!: filter_True)

lemma keep_failed_mask:
  assumes "keep_failed (Bit_Operations.mask n) n failed own'" and "n \<le> 64" and "set failed \<subseteq> {0..<n}"
  shows "bit own' i \<longleftrightarrow> i \<in> set failed"
  using assms by (auto simp: keep_failed_def bit_mask_iff)

lemma vc_pause_suspend_loop_ok:
  assumes "call_until (\<lambda>c i. suspend c (thread_ids s ! i)) [index..<count] c = (finished, None, c1)"
    and "index \<le> count" and "owned_mask s = Bit_Operations.mask index"
  shows "vc_pause_suspend_loop suspend resume count index s c =
    (VC_PAUSE_STATUS_OK,
     s\<lparr>owned_mask := Bit_Operations.mask count, failed_thread_id := 0\<rparr>, c1)"
  using assms
proof (induction "count - index" arbitrary: index s c finished)
  case 0
  then show ?case
    by (simp add: vc_pause_suspend_loop.simps)
next
  case (Suc k)
  then have less: "index < count"
    by simp
  obtain result c2 where call: "suspend c (thread_ids s ! index) = (result, c2)"
    by (meson surj_pair)
  let ?s = "s\<lparr>owned_mask := Bit_Operations.mask (Suc index)\<rparr>"
  obtain rest where rest: "result = 0"
    "call_until (\<lambda>c i. suspend c (thread_ids ?s ! i)) [Suc index..<count] c2 = (rest, None, c1)"
    using Suc.prems(1) less call by (auto simp: upt_conv_Cons split: if_splits prod.splits)
  have "vc_pause_suspend_loop suspend resume count (Suc index) ?s c2 =
      (VC_PAUSE_STATUS_OK,
       ?s\<lparr>owned_mask := Bit_Operations.mask count, failed_thread_id := 0\<rparr>, c1)"
    using Suc.hyps(2) less by (intro Suc.hyps(1) [OF _ rest(2)]) simp_all
  then show ?case
    using call rest(1) less Suc.prems(3)
    by (simp add: vc_pause_suspend_loop.simps [of _ _ _ index] mask_64_Suc)
qed

lemma vc_pause_suspend_loop_failed:
  assumes "call_until (\<lambda>c i. suspend c (thread_ids s ! i)) [index..<count] c = (finished, Some j, c1)"
    and "index \<le> count" and "count \<le> 64" and "owned_mask s = Bit_Operations.mask index"
    and "call_all (\<lambda>c i. resume c (thread_ids s ! i)) (rev [0..<j]) c1 = (stuck, c2)"
  shows "\<exists>own'. (\<forall>i. bit own' i \<longleftrightarrow> i \<in> set stuck) \<and> finished = [index..<j] \<and> index \<le> j \<and> j < count \<and>
    vc_pause_suspend_loop suspend resume count index s c =
      (if stuck = [] then (VC_PAUSE_STATUS_SUSPEND_FAILED, vc_pause_clear, c2)
       else (VC_PAUSE_STATUS_ROLLBACK_FAILED,
             s\<lparr>owned_mask := own', failed_thread_id := thread_ids s ! last stuck\<rparr>, c2))"
  using assms
proof (induction "count - index" arbitrary: index s c finished)
  case 0
  then show ?case
    by simp
next
  case (Suc k)
  then have less: "index < count"
    by simp
  obtain result c3 where call: "suspend c (thread_ids s ! index) = (result, c3)"
    by (meson surj_pair)
  show ?case
  proof (cases "result = 0")
    case True
    let ?s = "s\<lparr>owned_mask := Bit_Operations.mask (Suc index)\<rparr>"
    obtain rest where rest: "finished = index # rest"
      "call_until (\<lambda>c i. suspend c (thread_ids ?s ! i)) [Suc index..<count] c3 = (rest, Some j, c1)"
      using Suc.prems(1) less call True by (auto simp: upt_conv_Cons split: if_splits prod.splits)
    have ih: "\<exists>own'. (\<forall>i. bit own' i \<longleftrightarrow> i \<in> set stuck) \<and> rest = [Suc index..<j] \<and>
      Suc index \<le> j \<and> j < count \<and>
      vc_pause_suspend_loop suspend resume count (Suc index) ?s c3 =
      (if stuck = [] then (VC_PAUSE_STATUS_SUSPEND_FAILED, vc_pause_clear, c2)
       else (VC_PAUSE_STATUS_ROLLBACK_FAILED,
             ?s\<lparr>owned_mask := own', failed_thread_id := thread_ids ?s ! last stuck\<rparr>, c2))"
      using Suc.hyps(2) Suc.prems less by (intro Suc.hyps(1) [OF _ rest(2)]) simp_all
    have step: "vc_pause_suspend_loop suspend resume count index s c =
        vc_pause_suspend_loop suspend resume count (Suc index) ?s c3"
      using call True less Suc.prems(4)
      by (simp add: vc_pause_suspend_loop.simps [of _ _ _ index] mask_64_Suc)
    from ih obtain own' where own': "\<forall>i. bit own' i \<longleftrightarrow> i \<in> set stuck" "rest = [Suc index..<j]"
      "Suc index \<le> j" "j < count"
      "vc_pause_suspend_loop suspend resume count (Suc index) ?s c3 =
      (if stuck = [] then (VC_PAUSE_STATUS_SUSPEND_FAILED, vc_pause_clear, c2)
       else (VC_PAUSE_STATUS_ROLLBACK_FAILED,
             ?s\<lparr>owned_mask := own', failed_thread_id := thread_ids ?s ! last stuck\<rparr>, c2))"
      by blast
    then show ?thesis
      unfolding step rest(1) by (intro exI [of _ own']) (simp add: upt_conv_Cons)
  next
    case False
    then have stop: "finished = []" "j = index" "c3 = c1"
      using Suc.prems(1) less call by (auto simp: upt_conv_Cons)
    let ?s = "s\<lparr>failed_thread_id := thread_ids s ! index\<rparr>"
    have run: "call_all (\<lambda>c i. resume c (thread_ids ?s ! i))
        (rev (owned_indices (owned_mask ?s) index)) c1 = (stuck, c2)"
      using Suc.prems(3,4,5) less stop by (simp add: owned_indices_mask)
    obtain own' where own': "keep_failed (owned_mask ?s) index stuck own'"
      "vc_pause_rollback resume index False ?s c1 =
        (False \<or> stuck \<noteq> [],
         ?s\<lparr>owned_mask := own',
           failed_thread_id :=
             (if stuck = [] then failed_thread_id ?s else thread_ids ?s ! last stuck)\<rparr>, c2)"
      using vc_pause_rollback_call_all [OF run] by blast
    have "set stuck \<subseteq> {0..<index}"
      using call_all_subset [OF Suc.prems(5)] stop(2) by auto
    then have bits: "\<forall>i. bit own' i \<longleftrightarrow> i \<in> set stuck"
      using own'(1) Suc.prems(3,4) less by (simp add: keep_failed_mask)
    then have "own' = 0 \<longleftrightarrow> stuck = []"
      by (simp add: mask_eq_0_iff)
    with bits own'(2) call False less stop show ?thesis
      by (intro exI [of _ own']) (simp add: vc_pause_suspend_loop.simps [of _ _ _ index])
  qed
qed

end
