(* ===== verification/VC_Pause_Correct.thy ===== *)
theory VC_Pause_Correct
  imports VC_Pause
begin

unbundle bit_operations_syntax

text \<open>
  What a pause transaction promises: the abstract session a state stands for, the transaction on
  sessions as list programs (suspend in order and stop at the first failure, resume in reverse order
  and keep what failed), and the refinement of that specification by the loops over the ownership mask.
\<close>

section \<open>Sessions\<close>

text \<open>The session a state stands for: the threads it still holds, in the order they were suspended.\<close>

record pause_session =
  session_generation :: uint64_t
  session_started :: uint64_t
  session_deadline :: uint64_t
  session_owned :: "vc_thread_id list"
  session_failed :: vc_thread_id

definition pause_session :: "vc_pause_state \<Rightarrow> pause_session option" where
  "pause_session s =
     (if active s
      then Some \<lparr>session_generation = target_generation s, session_started = started_ms s,
                 session_deadline = deadline_ms s, session_owned = owned_threads s,
                 session_failed = failed_thread_id s\<rparr>
      else None)"

definition valid_threads :: "vc_thread_id list \<Rightarrow> bool" where
  "valid_threads xs \<longleftrightarrow>
     xs \<noteq> [] \<and> length xs \<le> VC_PAUSE_MAX_THREADS \<and> (\<forall>x \<in> set xs. 0 <s x) \<and>
     sorted_wrt (\<lambda>x y. x <s y) xs"

definition acceptable_threads :: "vc_thread_id list option \<Rightarrow> nat \<Rightarrow> bool" where
  "acceptable_threads ids count \<longleftrightarrow>
     (case ids of None \<Rightarrow> False
      | Some xs \<Rightarrow> count \<le> VC_PAUSE_MAX_THREADS \<and> valid_threads (take count xs))"

text \<open>The caller's thread list has the elements its count announces, unless the count is refused.\<close>

definition readable_threads :: "vc_thread_id list option \<Rightarrow> nat \<Rightarrow> bool" where
  "readable_threads ids count \<longleftrightarrow>
     (case ids of None \<Rightarrow> True | Some xs \<Rightarrow> count \<le> VC_PAUSE_MAX_THREADS \<longrightarrow> count \<le> length xs)"

definition pause_inv :: "vc_pause_state \<Rightarrow> bool" where
  "pause_inv s \<longleftrightarrow>
     length (thread_ids s) = VC_PAUSE_MAX_THREADS \<and> thread_count s \<le> VC_PAUSE_MAX_THREADS \<and>
     (\<forall>i. bit (owned_mask s) i \<longrightarrow> i < thread_count s) \<and>
     (active s \<longleftrightarrow> owned_mask s \<noteq> 0) \<and>
     (\<not> active s \<longrightarrow> s = vc_pause_clear) \<and>
     (active s \<longrightarrow>
        target_generation s \<noteq> 0 \<and> valid_threads (take (thread_count s) (thread_ids s)) \<and>
        started_ms s < deadline_ms s \<and>
        deadline_ms s - started_ms s \<le> VC_PAUSE_MAX_DURATION_MS)"

definition window_ok :: "uint64_t \<Rightarrow> uint64_t \<Rightarrow> bool" where
  "window_ok now_ms max_pause_ms \<longleftrightarrow>
     max_pause_ms \<noteq> 0 \<and> max_pause_ms \<le> VC_PAUSE_MAX_DURATION_MS \<and>
     unat now_ms + unat max_pause_ms < 2 ^ 64"

definition spec_begin ::
  "'c thread_operation \<Rightarrow> 'c thread_operation \<Rightarrow> pause_session option \<Rightarrow> uint64_t \<Rightarrow> uint64_t \<Rightarrow>
   uint64_t \<Rightarrow> vc_thread_id list option \<Rightarrow> nat \<Rightarrow> 'c \<Rightarrow>
   vc_pause_status \<times> pause_session option \<times> 'c" where
  "spec_begin suspend resume session generation now_ms max_pause_ms ids count c =
     (if generation = 0 \<or> \<not> window_ok now_ms max_pause_ms
      then (VC_PAUSE_STATUS_INVALID_ARGUMENT, session, c)
      else if session \<noteq> None then (VC_PAUSE_STATUS_ALREADY_ACTIVE, session, c)
      else if \<not> acceptable_threads ids count
      then (VC_PAUSE_STATUS_INVALID_THREADS, session, c)
      else
        let threads = take count (the ids);
            opened = \<lparr>session_generation = generation, session_started = now_ms,
                      session_deadline = now_ms + max_pause_ms, session_owned = threads,
                      session_failed = 0\<rparr>;
            (suspended, refused, c1) = call_until suspend threads c
        in if refused = None then (VC_PAUSE_STATUS_OK, Some opened, c1)
           else
             let (stuck, c2) = call_all resume (rev suspended) c1
             in if stuck = [] then (VC_PAUSE_STATUS_SUSPEND_FAILED, None, c2)
                else (VC_PAUSE_STATUS_ROLLBACK_FAILED,
                      Some (opened\<lparr>session_owned := rev stuck, session_failed := last stuck\<rparr>), c2))"

definition spec_end ::
  "'c thread_operation \<Rightarrow> pause_session option \<Rightarrow> uint64_t \<Rightarrow> 'c \<Rightarrow>
   vc_pause_status \<times> pause_session option \<times> 'c" where
  "spec_end resume session generation c =
     (if generation = 0 then (VC_PAUSE_STATUS_INVALID_ARGUMENT, session, c)
      else
        case session of
          None \<Rightarrow> (VC_PAUSE_STATUS_NOT_ACTIVE, None, c)
        | Some p \<Rightarrow>
            if session_generation p \<noteq> generation then (VC_PAUSE_STATUS_STALE_TARGET, session, c)
            else
              let (stuck, c1) = call_all resume (rev (session_owned p)) c
              in if stuck = [] then (VC_PAUSE_STATUS_OK, None, c1)
                 else (VC_PAUSE_STATUS_RESUME_FAILED,
                       Some (p\<lparr>session_owned := rev stuck, session_failed := hd stuck\<rparr>), c1))"

section \<open>Thread lists\<close>

lemma vc_pause_validate_loop_status:
  "vc_pause_validate_loop ids count index =
    (if \<forall>i. index \<le> i \<and> i < count \<longrightarrow>
          0 <s ids ! i \<and> (i \<noteq> 0 \<longrightarrow> ids ! (i - 1) <s ids ! i)
     then VC_PAUSE_STATUS_OK else VC_PAUSE_STATUS_INVALID_THREADS)"
proof (induction ids count index rule: vc_pause_validate_loop.induct)
  case (1 ids count index)
  show ?case
  proof (cases "index < count")
    case True
    have not_less: "\<not> (a <s b) \<longleftrightarrow> b \<le>s a" for a b :: vc_thread_id
      by (simp add: signed.not_less)
    show ?thesis
      using 1 True unfolding vc_pause_validate_loop.simps [of ids count index] all_from_step [OF True]
      by (auto simp: not_less)
  next
    case False
    then show ?thesis
      by (simp add: vc_pause_validate_loop.simps)
  qed
qed

lemma adjacent_sorted_wrt:
  assumes "transp P"
  shows "sorted_wrt P xs \<longleftrightarrow> (\<forall>i. Suc i < length xs \<longrightarrow> P (xs ! i) (xs ! Suc i))"
  using assms by (auto simp: sorted_wrt_iff_nth_Suc_transp)

lemma transp_signed_less: "transp (\<lambda>x y :: vc_thread_id. x <s y)"
  by (rule transpI) (rule signed.less_trans)

lemma vc_pause_validate_threads_iff:
  assumes "readable_threads ids count"
  shows "vc_pause_validate_threads ids count =
    (if acceptable_threads ids count
     then VC_PAUSE_STATUS_OK else VC_PAUSE_STATUS_INVALID_THREADS)"
proof (cases "ids = None \<or> count = 0 \<or> count > VC_PAUSE_MAX_THREADS")
  case True
  then show ?thesis
    by (auto simp: vc_pause_validate_threads_def acceptable_threads_def valid_threads_def
        split: option.splits)
next
  case False
  then obtain xs where xs: "ids = Some xs" "count \<le> length xs" "count \<noteq> 0"
    "count \<le> VC_PAUSE_MAX_THREADS"
    using assms by (auto simp: readable_threads_def)
  have "(\<forall>i. 0 \<le> i \<and> i < count \<longrightarrow> 0 <s xs ! i \<and> (i \<noteq> 0 \<longrightarrow> xs ! (i - 1) <s xs ! i)) \<longleftrightarrow>
      (\<forall>i < count. 0 <s xs ! i) \<and> (\<forall>i. Suc i < count \<longrightarrow> xs ! i <s xs ! Suc i)"
    by (auto dest: spec [of _ "Suc _"]) (metis Suc_pred neq0_conv)
  also have "\<dots> \<longleftrightarrow> valid_threads (take count xs)"
    using xs by (auto simp: valid_threads_def adjacent_sorted_wrt [OF transp_signed_less]
        all_set_conv_all_nth)
  finally show ?thesis
    using xs
    by (simp add: vc_pause_validate_threads_def vc_pause_validate_loop_status acceptable_threads_def)
qed

section \<open>Refinement of the session\<close>

lemma pause_session_None [simp]: "pause_session s = None \<longleftrightarrow> \<not> active s"
  by (simp add: pause_session_def)

lemma clear_simps [simp]:
  "active vc_pause_clear = False" "owned_mask vc_pause_clear = 0"
  "thread_count vc_pause_clear = 0" "length (thread_ids vc_pause_clear) = VC_PAUSE_MAX_THREADS"
  "target_generation vc_pause_clear = 0" "failed_thread_id vc_pause_clear = 0"
  by (simp_all add: vc_pause_clear_def)

lemma pause_inv_clear: "pause_inv vc_pause_clear"
  by (simp add: pause_inv_def VC_PAUSE_MAX_THREADS_def)

lemma prepare_simps [simp]:
  "active (vc_pause_prepare generation now_ms max_pause_ms ids count)"
  "owned_mask (vc_pause_prepare generation now_ms max_pause_ms ids count) = 0"
  "thread_count (vc_pause_prepare generation now_ms max_pause_ms ids count) = count"
  "target_generation (vc_pause_prepare generation now_ms max_pause_ms ids count) = generation"
  "started_ms (vc_pause_prepare generation now_ms max_pause_ms ids count) = now_ms"
  "deadline_ms (vc_pause_prepare generation now_ms max_pause_ms ids count) = now_ms + max_pause_ms"
  by (simp_all add: vc_pause_prepare_def)

lemma prepare_thread_ids:
  assumes "count \<le> length ids" and "count \<le> VC_PAUSE_MAX_THREADS"
  shows "length (thread_ids (vc_pause_prepare generation now_ms max_pause_ms ids count)) =
      VC_PAUSE_MAX_THREADS"
    and "take count (thread_ids (vc_pause_prepare generation now_ms max_pause_ms ids count)) =
      take count ids"
  using assms by (simp_all add: vc_pause_prepare_def min_def)

lemma map_nth_upt_take: "n \<le> length xs \<Longrightarrow> map (nth xs) [0..<n] = take n xs"
  by (rule nth_equalityI) simp_all

lemma valid_threads_distinct: "valid_threads xs \<Longrightarrow> distinct xs"
  unfolding valid_threads_def
  by (metis distinct_conv_nth nat_neq_iff signed.less_irrefl sorted_wrt_iff_nth_less)

lemma valid_threads_sublist:
  "valid_threads xs \<Longrightarrow> filter P xs \<noteq> [] \<Longrightarrow> valid_threads (filter P xs)"
  by (auto simp: valid_threads_def sorted_wrt_filter intro: order_trans [OF length_filter_le])

lemma valid_threads_nonzero: "valid_threads xs \<Longrightarrow> x \<in> set xs \<Longrightarrow> x \<noteq> 0"
  by (auto simp: valid_threads_def)

text \<open>The owned threads of a state whose mask is the indices that a resume pass left.\<close>

lemma owned_indices_stuck:
  assumes "call_all f (rev [i \<leftarrow> [0..<n]. P i]) c = (stuck, c')"
    and "\<And>i. bit own i \<longleftrightarrow> i \<in> set stuck"
  shows "owned_indices own n = rev stuck"
proof -
  have "distinct (rev [i \<leftarrow> [0..<n]. P i])"
    by simp
  from call_all_subseq [OF this assms(1)]
  have "stuck = rev [i \<leftarrow> [0..<n]. P i \<and> i \<in> set stuck]"
    by (simp add: rev_filter [symmetric] conj_commute)
  moreover have "[i \<leftarrow> [0..<n]. P i \<and> i \<in> set stuck] = [i \<leftarrow> [0..<n]. i \<in> set stuck]"
    using call_all_subset [OF assms(1)] by (intro filter_cong) auto
  ultimately show ?thesis
    by (metis (no_types, lifting) assms(2) filter_cong owned_indices_def rev_rev_ident)
qed

text \<open>The specification of an accepted begin, by the run of the suspensions over the prepared thread list.\<close>

lemma spec_begin_accepted:
  assumes "window_ok now_ms max_pause_ms" and "generation \<noteq> 0" and "valid_threads (take count ids)"
    and "count \<le> VC_PAUSE_MAX_THREADS" and threads: "take count ids = map (nth tids) [0..<count]"
    and run: "call_until (\<lambda>c i. suspend c (tids ! i)) [0..<count] c = (finished, refused, c1)"
  shows "spec_begin suspend resume None generation now_ms max_pause_ms (Some ids) count c =
    (let opened = \<lparr>session_generation = generation, session_started = now_ms,
                   session_deadline = now_ms + max_pause_ms, session_owned = take count ids,
                   session_failed = 0\<rparr>
     in if refused = None then (VC_PAUSE_STATUS_OK, Some opened, c1)
        else let (stuck, c2) = call_all (\<lambda>c i. resume c (tids ! i)) (rev finished) c1
          in if stuck = [] then (VC_PAUSE_STATUS_SUSPEND_FAILED, None, c2)
             else (VC_PAUSE_STATUS_ROLLBACK_FAILED,
               Some (opened\<lparr>session_owned := map (nth tids) (rev stuck),
                  session_failed := tids ! last stuck\<rparr>), c2))"
  using assms(1-4)
  unfolding spec_begin_def acceptable_threads_def
  by (simp add: threads call_until_map run Let_def rev_map call_all_map last_map split: prod.splits)

text \<open>A prepared state with some of its threads owned: its session, and that it is well formed.\<close>

lemma prepared_session:
  assumes "p = vc_pause_prepare generation now_ms max_pause_ms ids count"
  shows "pause_session (p\<lparr>owned_mask := own, failed_thread_id := t\<rparr>) =
      Some \<lparr>session_generation = generation, session_started = now_ms,
        session_deadline = now_ms + max_pause_ms,
        session_owned = map (nth (thread_ids p)) (owned_indices own count), session_failed = t\<rparr>"
  by (simp add: pause_session_def owned_threads_def assms)

lemma prepared_inv:
  assumes p: "p = vc_pause_prepare generation now_ms max_pause_ms ids count"
    and "window_ok now_ms max_pause_ms" and "generation \<noteq> 0" and "count \<le> length ids"
    and "valid_threads (take count ids)" and "count \<le> VC_PAUSE_MAX_THREADS"
    and "\<And>i. bit own i \<Longrightarrow> i < count" and "own \<noteq> 0"
  shows "pause_inv (p\<lparr>owned_mask := own, failed_thread_id := t\<rparr>)"
proof -
  have max: "max_pause_ms \<noteq> 0" "max_pause_ms \<le> VC_PAUSE_MAX_DURATION_MS"
    "unat now_ms + unat max_pause_ms < 2 ^ 64"
    using assms(2) by (auto simp: window_ok_def)
  then have "now_ms < now_ms + max_pause_ms" "now_ms + max_pause_ms - now_ms \<le> VC_PAUSE_MAX_DURATION_MS"
    by (auto simp: word_less_nat_alt unat_add_no_wrap unat_eq_0 word_neq_0_conv)
  with assms show ?thesis
    by (simp add: pause_inv_def prepare_thread_ids)
qed

lemma vc_pause_begin_open:
  assumes "window_ok now_ms max_pause_ms" and "generation \<noteq> 0" and "count \<le> length ids"
    and "valid_threads (take count ids)" and "count \<le> VC_PAUSE_MAX_THREADS"
    and that: "s' = fst (snd (vc_pause_suspend_loop suspend resume count 0
      (vc_pause_prepare generation now_ms max_pause_ms ids count) c))"
  defines "p \<equiv> vc_pause_prepare generation now_ms max_pause_ms ids count"
  shows "pause_inv s' \<and>
     map_prod id (map_prod pause_session id)
       (vc_pause_suspend_loop suspend resume count 0 p c) =
     spec_begin suspend resume None generation now_ms max_pause_ms (Some ids) count c"
proof -
  note that = that [folded p_def]
  let ?su = "\<lambda>c i. suspend c (thread_ids p ! i)" and ?re = "\<lambda>c i. resume c (thread_ids p ! i)"
  have threads: "take count ids = map (nth (thread_ids p)) [0..<count]"
    using assms(3,5) by (simp add: map_nth_upt_take p_def prepare_thread_ids)
  have count: "count \<le> 64" "count \<noteq> 0"
    using assms(4,5) by (auto simp: VC_PAUSE_MAX_THREADS_def valid_threads_def)
  note session = prepared_session [OF p_def [THEN meta_eq_to_obj_eq]]
  note inv = prepared_inv [OF p_def [THEN meta_eq_to_obj_eq] assms(1-5)]
  obtain finished refused c1 where run: "call_until ?su [0..<count] c = (finished, refused, c1)"
    by (metis surj_pair)
  note spec = spec_begin_accepted [OF assms(1,2,4,5) threads run, of resume]
  show ?thesis
  proof (cases refused)
    case None
    have "vc_pause_suspend_loop suspend resume count 0 p c =
        (VC_PAUSE_STATUS_OK, p\<lparr>owned_mask := Bit_Operations.mask count, failed_thread_id := 0\<rparr>, c1)"
      using run None by (intro vc_pause_suspend_loop_ok) (simp_all add: p_def)
    moreover have "(Bit_Operations.mask count :: uint64_t) \<noteq> 0"
      using count by (auto simp: mask_eq_0_iff bit_mask_iff intro!: exI [of _ 0])
    moreover from this have "pause_inv (p\<lparr>owned_mask := Bit_Operations.mask count, failed_thread_id := 0\<rparr>)"
      by (intro inv) (simp_all add: bit_mask_iff)
    ultimately show ?thesis
      using that None spec threads count
      by (simp add: session owned_indices_mask)
  next
    case (Some j)
    obtain stuck c2 where roll: "call_all ?re (rev [0..<j]) c1 = (stuck, c2)"
      by (meson surj_pair)
    obtain own' where own': "\<forall>i. bit own' i \<longleftrightarrow> i \<in> set stuck" "finished = [0..<j]" "j < count"
      "vc_pause_suspend_loop suspend resume count 0 p c =
      (if stuck = [] then (VC_PAUSE_STATUS_SUSPEND_FAILED, vc_pause_clear, c2)
       else (VC_PAUSE_STATUS_ROLLBACK_FAILED,
             p\<lparr>owned_mask := own', failed_thread_id := thread_ids p ! last stuck\<rparr>, c2))"
      using vc_pause_suspend_loop_failed [OF run [unfolded Some] _ count(1) _ roll]
      by (auto simp: p_def)
    have "[i \<leftarrow> [0..<count]. i < j] = [0..<j]"
      using own'(3) upt_add_eq_append [of 0 j "count - j"] by simp
    then have owned: "owned_indices own' count = rev stuck"
      using own'(1) roll by (intro owned_indices_stuck [where f = ?re and P = "\<lambda>i. i < j" and c = c1 and c' = c2]) auto
    have "pause_inv (p\<lparr>owned_mask := own', failed_thread_id := t\<rparr>)" if "stuck \<noteq> []" for t
      using that own'(1,3) call_all_subset [OF roll] by (intro inv) (auto simp: mask_eq_0_iff)
    then have "pause_inv s'"
      using that own'(4) by (simp add: pause_inv_clear)
    then show ?thesis
      using own'(2,4) roll spec Some owned by (simp add: session)
  qed
qed

text \<open>The session view of what a call returns.\<close>

definition session_result ::
  "vc_pause_status \<times> vc_pause_state option \<times> 'c \<Rightarrow> vc_pause_status \<times> pause_session option \<times> 'c" where
  "session_result r = (fst r, Option.bind (fst (snd r)) pause_session, snd (snd r))"

definition keeps_pause_inv :: "vc_pause_status \<times> vc_pause_state option \<times> 'c \<Rightarrow> bool" where
  "keeps_pause_inv r \<longleftrightarrow> (case fst (snd r) of None \<Rightarrow> False | Some s \<Rightarrow> pause_inv s)"

lemma window_ok_guard:
  "max_pause_ms = 0 \<or> max_pause_ms > VC_PAUSE_MAX_DURATION_MS \<or> now_ms > - 1 - max_pause_ms \<longleftrightarrow>
   \<not> window_ok now_ms max_pause_ms"
  using le_max_minus_iff [of now_ms max_pause_ms] by (auto simp: window_ok_def not_le)

lemma inv_not_active_iff: "pause_inv s \<Longrightarrow> active s \<or> owned_mask s \<noteq> 0 \<longleftrightarrow> pause_session s \<noteq> None"
  by (auto simp: pause_inv_def)

lemma vc_pause_begin_session:
  assumes "pause_inv s" and "readable_threads ids count"
    and "suspend_thread ops = Some suspend" and "resume_thread ops = Some resume"
  shows "keeps_pause_inv
      (vc_pause_begin (Some s) generation now_ms max_pause_ms ids count (Some ops) c) \<and>
    session_result (vc_pause_begin (Some s) generation now_ms max_pause_ms ids count (Some ops) c) =
    spec_begin suspend resume (pause_session s) generation now_ms max_pause_ms ids count c"
proof -
  note guard = window_ok_guard [of max_pause_ms now_ms]
  consider (argument) "generation = 0 \<or> \<not> window_ok now_ms max_pause_ms"
    | (busy) "generation \<noteq> 0" "window_ok now_ms max_pause_ms" "pause_session s \<noteq> None"
    | (threads) "generation \<noteq> 0" "window_ok now_ms max_pause_ms" "pause_session s = None"
        "\<not> acceptable_threads ids count"
    | (accept) "generation \<noteq> 0" "window_ok now_ms max_pause_ms" "pause_session s = None"
        "acceptable_threads ids count"
    by blast
  then show ?thesis
  proof cases
    case argument
    then show ?thesis
      using assms(1,3,4) guard
      by (auto simp: vc_pause_begin_def spec_begin_def session_result_def keeps_pause_inv_def)
  next
    case busy
    moreover from this have "active s \<or> owned_mask s \<noteq> 0"
      using inv_not_active_iff [OF assms(1)] by simp
    ultimately show ?thesis
      using assms(1,3,4) guard
      by (auto simp: vc_pause_begin_def spec_begin_def session_result_def keeps_pause_inv_def)
  next
    case threads
    moreover from this have "\<not> (active s \<or> owned_mask s \<noteq> 0)"
      using inv_not_active_iff [OF assms(1)] by simp
    ultimately show ?thesis
      using assms guard
      by (auto simp: vc_pause_begin_def spec_begin_def session_result_def keeps_pause_inv_def Let_def
          vc_pause_validate_threads_iff)
  next
    case accept
    then obtain xs where xs: "ids = Some xs" "valid_threads (take count xs)"
      "count \<le> VC_PAUSE_MAX_THREADS" "count \<le> length xs"
      using assms(2) by (auto simp: acceptable_threads_def readable_threads_def split: option.splits)
    have idle: "\<not> (active s \<or> owned_mask s \<noteq> 0)"
      using inv_not_active_iff [OF assms(1)] accept by simp
    obtain status s' c' where run: "vc_pause_suspend_loop suspend resume count 0
        (vc_pause_prepare generation now_ms max_pause_ms xs count) c = (status, s', c')"
      by (metis surj_pair)
    have "vc_pause_begin (Some s) generation now_ms max_pause_ms ids count (Some ops) c =
        (status, Some s', c')"
      using accept idle guard run assms(2-4) xs(1)
      by (auto simp: vc_pause_begin_def Let_def vc_pause_validate_threads_iff)
    moreover have "pause_inv s' \<and> (status, pause_session s', c') =
        spec_begin suspend resume None generation now_ms max_pause_ms (Some xs) count c"
      using vc_pause_begin_open [OF accept(2,1) xs(4,2,3) refl, of suspend resume c] run by simp
    ultimately show ?thesis
      unfolding accept(3) xs(1) by (simp add: session_result_def keeps_pause_inv_def)
  qed
qed

lemma vc_pause_resume_session:
  assumes "pause_inv s" and "active s"
    and "call_all resume (rev (owned_threads s)) c = (stuck, c1)"
    and "vc_pause_resume_loop resume (thread_count s) (s\<lparr>failed_thread_id := 0\<rparr>) c = (s', c')"
  shows "c' = c1 \<and> (owned_mask s' = 0 \<longleftrightarrow> stuck = []) \<and>
    (stuck \<noteq> [] \<longrightarrow> pause_inv s' \<and> pause_session s' =
       map_option (\<lambda>p. p\<lparr>session_owned := rev stuck, session_failed := hd stuck\<rparr>) (pause_session s))"
proof -
  let ?s = "s\<lparr>failed_thread_id := 0\<rparr>" and ?re = "\<lambda>c i. resume c (thread_ids s ! i)"
  let ?own = "rev (owned_indices (owned_mask s) (thread_count s))"
  obtain kept c2 where run: "call_all ?re ?own c = (kept, c2)"
    by (meson surj_pair)
  have stuck: "stuck = map (nth (thread_ids s)) kept" "c2 = c1"
    using assms(3) run by (auto simp: owned_threads_def rev_map call_all_map)
  have inv: "length (thread_ids s) = VC_PAUSE_MAX_THREADS" "thread_count s \<le> VC_PAUSE_MAX_THREADS"
    "\<And>i. bit (owned_mask s) i \<Longrightarrow> i < thread_count s"
    "valid_threads (take (thread_count s) (thread_ids s))"
    using assms(1,2) by (auto simp: pause_inv_def)
  have "thread_ids s ! i \<noteq> 0" if "i < thread_count s" for i
    using that inv(1,2) valid_threads_nonzero [OF inv(4)] by (metis in_set_conv_nth length_take min.absorb2 nth_take)
  then obtain own' where own': "keep_failed (owned_mask s) (thread_count s) kept own'"
    "s' = s\<lparr>owned_mask := own',
         failed_thread_id := (if kept = [] then 0 else thread_ids s ! hd kept)\<rparr>" "c' = c2"
    using vc_pause_resume_loop_call_all [of resume ?s "thread_count s" c kept c2] run assms(4) by auto
  have sub: "set kept \<subseteq> {i. i < thread_count s \<and> bit (owned_mask s) i}"
    using call_all_subset [OF run] by (auto simp: set_owned_indices)
  then have bits: "bit own' i \<longleftrightarrow> i \<in> set kept" for i
    using own'(1) inv(3) by (auto simp: keep_failed_def)
  then have zero: "own' = 0 \<longleftrightarrow> kept = []"
    by (simp add: mask_eq_0_iff)
  have "owned_indices own' (thread_count s) = rev kept"
    using owned_indices_stuck [OF run [unfolded owned_indices_def] bits] .
  then have "owned_threads s' = rev stuck"
    using own'(2) stuck(1) by (simp add: owned_threads_def rev_map)
  moreover have "pause_inv s'" if "kept \<noteq> []"
    using assms(1,2) own'(2) zero bits sub that by (auto simp: pause_inv_def)
  ultimately show ?thesis
    using own'(2,3) stuck zero assms(2)
    by (cases "kept = []") (simp_all add: pause_session_def hd_map)
qed

lemma vc_pause_end_session:
  assumes "pause_inv s" and "resume_thread ops = Some resume"
  shows "keeps_pause_inv (vc_pause_end (Some s) generation (Some ops) c) \<and>
    session_result (vc_pause_end (Some s) generation (Some ops) c) =
    spec_end resume (pause_session s) generation c"
proof (cases "generation \<noteq> 0 \<and> active s \<and> target_generation s = generation")
  case True
  obtain s' c' where loop:
    "vc_pause_resume_loop resume (thread_count s) (s\<lparr>failed_thread_id := 0\<rparr>) c = (s', c')"
    by (meson surj_pair)
  obtain stuck c1 where run: "call_all resume (rev (owned_threads s)) c = (stuck, c1)"
    by (meson surj_pair)
  have res: "c' = c1" "owned_mask s' = 0 \<longleftrightarrow> stuck = []"
    "stuck \<noteq> [] \<Longrightarrow> pause_inv s'"
    "stuck \<noteq> [] \<Longrightarrow> pause_session s' =
       map_option (\<lambda>p. p\<lparr>session_owned := rev stuck, session_failed := hd stuck\<rparr>) (pause_session s)"
    using vc_pause_resume_session [OF assms(1) _ run loop] True by auto
  show ?thesis
    using res True assms(2) loop run
    by (auto simp: vc_pause_end_def spec_end_def session_result_def keeps_pause_inv_def
        pause_session_def [of s] pause_inv_clear)
next
  case False
  with assms show ?thesis
    by (auto simp: vc_pause_end_def spec_end_def session_result_def keeps_pause_inv_def
        pause_session_def)
qed

definition expiry_status :: "vc_pause_status \<Rightarrow> vc_pause_status" where
  "expiry_status status =
     (if status = VC_PAUSE_STATUS_OK then VC_PAUSE_STATUS_EXPIRED else status)"

definition spec_tick ::
  "'c thread_operation \<Rightarrow> pause_session option \<Rightarrow> uint64_t \<Rightarrow> uint64_t \<Rightarrow> 'c \<Rightarrow>
   vc_pause_status \<times> pause_session option \<times> 'c" where
  "spec_tick resume session generation now_ms c =
     (case session of
        Some p \<Rightarrow>
          if session_generation p = generation \<and> generation \<noteq> 0 \<and>
             session_started p \<le> now_ms \<and> now_ms < session_deadline p
          then (VC_PAUSE_STATUS_OK, session, c)
          else map_prod expiry_status id (spec_end resume session generation c)
      | None \<Rightarrow> spec_end resume session generation c)"

definition spec_abandon :: "pause_session option \<Rightarrow> uint64_t \<Rightarrow> vc_pause_status \<times> pause_session option" where
  "spec_abandon session generation =
     (if generation = 0 then (VC_PAUSE_STATUS_INVALID_ARGUMENT, session)
      else
        case session of
          None \<Rightarrow> (VC_PAUSE_STATUS_NOT_ACTIVE, None)
        | Some p \<Rightarrow>
            if session_generation p \<noteq> generation then (VC_PAUSE_STATUS_STALE_TARGET, session)
            else (VC_PAUSE_STATUS_OK, None))"

lemma session_simps:
  "active s \<Longrightarrow> pause_session s = Some \<lparr>session_generation = target_generation s,
     session_started = started_ms s, session_deadline = deadline_ms s,
     session_owned = owned_threads s, session_failed = failed_thread_id s\<rparr>"
  "\<not> active s \<Longrightarrow> pause_session s = None"
  by (simp_all add: pause_session_def)

lemma vc_pause_tick_cases:
  assumes "resume_thread ops = Some resume"
  shows "vc_pause_tick (Some s) generation now_ms (Some ops) c =
    (if active s \<and> target_generation s = generation \<and> generation \<noteq> 0 \<and>
        started_ms s \<le> now_ms \<and> now_ms < deadline_ms s
     then (VC_PAUSE_STATUS_OK, Some s, c)
     else map_prod expiry_status id
       (vc_pause_end (Some s) generation (Some ops) c))"
  using assms by (auto simp: vc_pause_tick_def vc_pause_end_def expiry_status_def split: prod.splits)

lemma vc_pause_tick_session:
  assumes "pause_inv s" and "resume_thread ops = Some resume"
  shows "keeps_pause_inv (vc_pause_tick (Some s) generation now_ms (Some ops) c) \<and>
    session_result (vc_pause_tick (Some s) generation now_ms (Some ops) c) =
    spec_tick resume (pause_session s) generation now_ms c"
proof -
  let ?r = "vc_pause_end (Some s) generation (Some ops) c"
  have "keeps_pause_inv ?r" "session_result ?r = spec_end resume (pause_session s) generation c"
    using vc_pause_end_session [OF assms] by auto
  moreover have "keeps_pause_inv (map_prod f id ?r) \<longleftrightarrow> keeps_pause_inv ?r"
    "session_result (map_prod f id ?r) = map_prod f id (session_result ?r)" for f
    by (cases ?r, simp_all add: keeps_pause_inv_def session_result_def)+
  moreover have "keeps_pause_inv (VC_PAUSE_STATUS_OK, Some s, c)"
    using assms(1) by (simp add: keeps_pause_inv_def)
  ultimately show ?thesis
    unfolding vc_pause_tick_cases [OF assms(2)]
    by (cases "active s") (auto simp: spec_tick_def spec_end_def expiry_status_def session_simps
        session_result_def [of "(_, _, _)"])
qed

lemma vc_pause_abandon_session:
  assumes "pause_inv s" and "vc_pause_abandon (Some s) generation = (status, s')"
  shows "(\<exists>t. s' = Some t \<and> pause_inv t) \<and>
    (status, Option.bind s' pause_session) = spec_abandon (pause_session s) generation"
  using assms
  by (auto simp: vc_pause_abandon_def spec_abandon_def pause_session_def pause_inv_clear
      split: if_splits)

section \<open>Sequences of calls\<close>

text \<open>
  The calls the program makes on one pause state, in any order. The thread list of a begin is passed
  with its own length; \<open>None\<close> is the null list.
\<close>

datatype pause_call =
    Pause_Begin uint64_t uint64_t uint64_t "vc_thread_id list option"
  | Pause_End uint64_t
  | Pause_Tick uint64_t uint64_t
  | Pause_Abandon uint64_t

definition pause_call ::
  "'c vc_pause_operations option \<Rightarrow> vc_pause_state \<times> 'c \<Rightarrow> pause_call \<Rightarrow>
   vc_pause_status \<times> vc_pause_state option \<times> 'c" where
  "pause_call ops = (\<lambda>(s, c) call.
     case call of
       Pause_Begin generation now_ms max_pause_ms ids \<Rightarrow>
         vc_pause_begin (Some s) generation now_ms max_pause_ms ids
           (case ids of None \<Rightarrow> 0 | Some xs \<Rightarrow> length xs) ops c
     | Pause_End generation \<Rightarrow> vc_pause_end (Some s) generation ops c
     | Pause_Tick generation now_ms \<Rightarrow> vc_pause_tick (Some s) generation now_ms ops c
     | Pause_Abandon generation \<Rightarrow>
         (fst (vc_pause_abandon (Some s) generation), snd (vc_pause_abandon (Some s) generation), c))"

definition pause_step ::
  "'c vc_pause_operations option \<Rightarrow> vc_pause_state \<times> 'c \<Rightarrow> pause_call \<Rightarrow> vc_pause_state \<times> 'c" where
  "pause_step ops x call = map_prod the id (snd (pause_call ops x call))"

lemma readable_own_length: "readable_threads ids (case ids of None \<Rightarrow> 0 | Some xs \<Rightarrow> length xs)"
  by (simp add: readable_threads_def split: option.splits)

lemma keeps_no_callbacks:
  assumes "pause_inv s" and "resume_thread ops = None \<or> suspend_thread ops = None"
  shows "keeps_pause_inv (vc_pause_begin (Some s) generation now_ms max_pause_ms ids count (Some ops) c)"
  using assms by (auto simp: vc_pause_begin_def keeps_pause_inv_def split: option.splits)

lemma pause_call_keeps_inv:
  assumes "pause_inv s"
  shows "keeps_pause_inv (pause_call ops (s, c) call)"
proof (cases ops)
  case None
  with assms show ?thesis
    using vc_pause_abandon_session [OF assms]
    by (auto simp: pause_call_def vc_pause_begin_def vc_pause_end_def vc_pause_tick_def
        keeps_pause_inv_def split: pause_call.splits prod.splits) (metis option.simps(5) prod.collapse)
next
  case (Some o')
  show ?thesis
  proof (cases call)
    case (Pause_Begin generation now_ms max_pause_ms ids)
    show ?thesis
    proof (cases "resume_thread o' = None \<or> suspend_thread o' = None")
      case True
      then show ?thesis
        using keeps_no_callbacks [OF assms] Some Pause_Begin by (simp add: pause_call_def)
    next
      case False
      then show ?thesis
        using vc_pause_begin_session [OF assms readable_own_length, of o'] Some Pause_Begin
        by (auto simp: pause_call_def)
    qed
  next
    case (Pause_End generation)
    then show ?thesis
      using vc_pause_end_session [OF assms, of o'] assms Some
      by (cases "resume_thread o'") (auto simp: pause_call_def vc_pause_end_def keeps_pause_inv_def)
  next
    case (Pause_Tick generation now_ms)
    then show ?thesis
      using vc_pause_tick_session [OF assms, of o'] assms Some
      by (cases "resume_thread o'") (auto simp: pause_call_def vc_pause_tick_def keeps_pause_inv_def)
  next
    case (Pause_Abandon generation)
    then show ?thesis
      using vc_pause_abandon_session [OF assms, of generation]
      by (auto simp: pause_call_def keeps_pause_inv_def split: option.splits) (metis prod.collapse option.inject option.distinct(1))+
  qed
qed

lemma pause_step_keeps_inv: "pause_inv (fst x) \<Longrightarrow> pause_inv (fst (pause_step ops x call))"
  using pause_call_keeps_inv [of "fst x" ops "snd x" call]
  by (auto simp: pause_step_def keeps_pause_inv_def split: option.splits)

interpretation pause: invariant_machine "pause_step ops" "\<lambda>x. pause_inv (fst x)" for ops
  by unfold_locales (rule pause_step_keeps_inv)

end
