(* ===== verification/VC_Pause_Props.thy ===== *)
theory VC_Pause_Props
  imports VC_Pause_Correct
begin

unbundle bit_operations_syntax

text \<open>
  The contract of the thread callbacks as an interface, what a transaction does to the suspension
  counts of an adapter that keeps it, the host tests' fake adapter as a provider, and the properties
  of whole sequences of pause calls.
\<close>

section \<open>The contract of the thread operations\<close>

text \<open>
  The comment on \<^verbatim>\<open>vc_pause_thread_operation\<close>: success means exactly one suspend count was acquired or
  released, failure leaves every count alone. \<open>suspensions c t\<close> is the suspend count of thread \<open>t\<close> in
  the adapter's context.
\<close>

locale thread_adapter =
  fixes suspend resume :: "'c thread_operation"
    and suspensions :: "'c \<Rightarrow> vc_thread_id \<Rightarrow> int"
  assumes suspend_success:
      "suspend c t = (0, c') \<Longrightarrow> suspensions c' u = suspensions c u + (if u = t then 1 else 0)"
    and suspend_failure:
      "suspend c t = (result, c') \<Longrightarrow> result \<noteq> 0 \<Longrightarrow> suspensions c' u = suspensions c u"
    and resume_success:
      "resume c t = (0, c') \<Longrightarrow> suspensions c' u = suspensions c u - (if u = t then 1 else 0)"
    and resume_failure:
      "resume c t = (result, c') \<Longrightarrow> result \<noteq> 0 \<Longrightarrow> suspensions c' u = suspensions c u"

definition session_holds :: "pause_session option \<Rightarrow> vc_thread_id \<Rightarrow> int" where
  "session_holds session t =
     (case session of None \<Rightarrow> 0 | Some p \<Rightarrow> int (count_list (session_owned p) t))"

lemma call_until_all: "call_until f xs c = (finished, None, c') \<Longrightarrow> finished = xs"
  by (induction xs arbitrary: c finished) (auto split: if_splits prod.splits)

lemma count_list_rev: "count_list (rev xs) t = count_list xs t"
  by (induction xs) simp_all

context thread_adapter
begin

lemma call_until_suspensions:
  "call_until suspend xs c = (finished, refused, c') \<Longrightarrow>
    suspensions c' t = suspensions c t + int (count_list finished t)"
proof (induction xs arbitrary: c finished)
  case Nil
  then show ?case by simp
next
  case (Cons x xs)
  obtain result c1 where call: "suspend c x = (result, c1)"
    by (meson surj_pair)
  then show ?case
    using Cons suspend_failure [OF call, of t]
    by (cases "result = 0") (auto simp: suspend_success split: prod.splits)
qed

lemma call_until_outcome:
  "call_until suspend xs c = (finished, refused, c') \<Longrightarrow>
    suspensions c' t = suspensions c t + int (count_list finished t) \<and>
    (refused = None \<longrightarrow> finished = xs)"
  using call_until_suspensions call_until_all by fastforce

lemma call_all_suspensions:
  "call_all resume xs c = (stuck, c') \<Longrightarrow>
    suspensions c' t = suspensions c t - int (count_list xs t) + int (count_list stuck t)"
proof (induction xs arbitrary: c stuck)
  case Nil
  then show ?case by simp
next
  case (Cons x xs)
  obtain result c1 where call: "resume c x = (result, c1)"
    by (meson surj_pair)
  then show ?case
    using Cons resume_failure [OF call, of t]
    by (cases "result = 0") (auto simp: resume_success split: prod.splits if_splits)
qed

lemma spec_begin_suspensions:
  assumes "spec_begin suspend resume session generation now_ms max_pause_ms ids count c =
      (status, session', c')"
  shows "suspensions c' t - session_holds session' t = suspensions c t - session_holds session t"
  using assms
  by (auto simp: spec_begin_def session_holds_def Let_def count_list_rev
      dest!: call_until_outcome [of _ _ _ _ _ t] call_all_suspensions [of _ _ _ _ t]
      split: if_splits prod.splits)

lemma spec_end_suspensions:
  assumes "spec_end resume session generation c = (status, session', c')"
  shows "suspensions c' t - session_holds session' t = suspensions c t - session_holds session t"
  using assms
  by (auto simp: spec_end_def session_holds_def Let_def count_list_rev
      dest!: call_all_suspensions [of _ _ _ _ t]
      split: if_splits prod.splits option.splits)

lemma spec_tick_suspensions:
  assumes "spec_tick resume session generation now_ms c = (status, session', c')"
  shows "suspensions c' t - session_holds session' t = suspensions c t - session_holds session t"
proof (cases "spec_end resume session generation c")
  case (fields status1 session1 c1)
  from spec_end_suspensions [OF fields] assms fields show ?thesis
    by (auto simp: spec_tick_def split: option.splits if_splits)
qed

end

section \<open>Sequences of calls and sessions\<close>

definition thread_operations ::
  "'c thread_operation \<Rightarrow> 'c thread_operation \<Rightarrow> 'c vc_pause_operations option" where
  "thread_operations suspend resume =
     Some \<lparr>suspend_thread = Some suspend, resume_thread = Some resume\<rparr>"

definition spec_call ::
  "'c thread_operation \<Rightarrow> 'c thread_operation \<Rightarrow> pause_session option \<times> 'c \<Rightarrow> pause_call \<Rightarrow>
   vc_pause_status \<times> pause_session option \<times> 'c" where
  "spec_call suspend resume = (\<lambda>(session, c) call.
     case call of
       Pause_Begin generation now_ms max_pause_ms ids \<Rightarrow>
         spec_begin suspend resume session generation now_ms max_pause_ms ids
           (case ids of None \<Rightarrow> 0 | Some xs \<Rightarrow> length xs) c
     | Pause_End generation \<Rightarrow> spec_end resume session generation c
     | Pause_Tick generation now_ms \<Rightarrow> spec_tick resume session generation now_ms c
     | Pause_Abandon generation \<Rightarrow>
         (fst (spec_abandon session generation), snd (spec_abandon session generation), c))"

text \<open>The statuses a sequence of calls returns, with what it leaves.\<close>

primrec pause_run ::
  "'c vc_pause_operations option \<Rightarrow> vc_pause_state \<times> 'c \<Rightarrow> pause_call list \<Rightarrow>
   vc_pause_status list \<times> vc_pause_state \<times> 'c" where
  "pause_run ops x [] = ([], x)"
| "pause_run ops x (call # calls) =
     (let (statuses, y) = pause_run ops (pause_step ops x call) calls
      in (fst (pause_call ops x call) # statuses, y))"

primrec spec_run ::
  "'c thread_operation \<Rightarrow> 'c thread_operation \<Rightarrow> pause_session option \<times> 'c \<Rightarrow> pause_call list \<Rightarrow>
   vc_pause_status list \<times> pause_session option \<times> 'c" where
  "spec_run suspend resume x [] = ([], x)"
| "spec_run suspend resume x (call # calls) =
     (let (statuses, y) = spec_run suspend resume (snd (spec_call suspend resume x call)) calls
      in (fst (spec_call suspend resume x call) # statuses, y))"

definition pause_view :: "vc_pause_state \<times> 'c \<Rightarrow> pause_session option \<times> 'c" where
  "pause_view x = (pause_session (fst x), snd x)"

lemma pause_call_session:
  assumes "pause_inv s"
  shows "session_result (pause_call (thread_operations suspend resume) (s, c) call) =
    spec_call suspend resume (pause_session s, c) call"
proof (cases call)
  case (Pause_Begin generation now_ms max_pause_ms ids)
  then show ?thesis
    using vc_pause_begin_session [OF assms readable_own_length,
        of "\<lparr>suspend_thread = Some suspend, resume_thread = Some resume\<rparr>"]
    by (simp add: pause_call_def spec_call_def thread_operations_def)
next
  case (Pause_End generation)
  then show ?thesis
    using vc_pause_end_session [OF assms,
        of "\<lparr>suspend_thread = Some suspend, resume_thread = Some resume\<rparr>"]
    by (simp add: pause_call_def spec_call_def thread_operations_def)
next
  case (Pause_Tick generation now_ms)
  then show ?thesis
    using vc_pause_tick_session [OF assms,
        of "\<lparr>suspend_thread = Some suspend, resume_thread = Some resume\<rparr>"]
    by (simp add: pause_call_def spec_call_def thread_operations_def)
next
  case (Pause_Abandon generation)
  obtain status s' where run: "vc_pause_abandon (Some s) generation = (status, s')"
    by (meson surj_pair)
  have "(status, Option.bind s' pause_session) = spec_abandon (pause_session s) generation"
    using vc_pause_abandon_session [OF assms run] by simp
  with Pause_Abandon run show ?thesis
    by (cases "spec_abandon (pause_session s) generation")
      (simp add: pause_call_def spec_call_def session_result_def)
qed

lemma pause_step_session:
  assumes "pause_inv (fst x)"
  shows "pause_view (pause_step (thread_operations suspend resume) x call) =
      snd (spec_call suspend resume (pause_view x) call)"
    and "fst (pause_call (thread_operations suspend resume) x call) =
      fst (spec_call suspend resume (pause_view x) call)"
proof -
  let ?r = "pause_call (thread_operations suspend resume) x call"
  have x: "x = (fst x, snd x)"
    by simp
  have spec: "session_result ?r = spec_call suspend resume (pause_view x) call"
    using pause_call_session [OF assms, of suspend resume "snd x" call] by (simp add: pause_view_def)
  then show "fst ?r = fst (spec_call suspend resume (pause_view x) call)"
    by (metis session_result_def fst_conv)
  have "keeps_pause_inv ?r"
    using pause_call_keeps_inv [OF assms, of _ "snd x"] by simp
  then obtain s' where "fst (snd ?r) = Some s'"
    by (auto simp: keeps_pause_inv_def split: option.splits)
  then show "pause_view (pause_step (thread_operations suspend resume) x call) =
      snd (spec_call suspend resume (pause_view x) call)"
    unfolding spec [symmetric] pause_step_def session_result_def
    by (simp add: pause_view_def)
qed

lemma pause_run_session:
  "pause_inv (fst x) \<Longrightarrow>
    map_prod id pause_view (pause_run (thread_operations suspend resume) x calls) =
    spec_run suspend resume (pause_view x) calls"
proof (induction calls arbitrary: x)
  case Nil
  then show ?case by simp
next
  case (Cons call calls)
  let ?ops = "thread_operations suspend resume"
  have "pause_inv (fst (pause_step ?ops x call))"
    using Cons.prems by (rule pause_step_keeps_inv)
  from Cons.IH [OF this] show ?case
    by (simp add: pause_step_session [OF Cons.prems] map_prod_def split_beta prod_eq_iff)
qed

lemma pause_run_state: "snd (pause_run ops x calls) = foldl (pause_step ops) x calls"
  by (induction calls arbitrary: x) (simp_all add: split_beta)

section \<open>Suspension counts\<close>

context thread_adapter
begin

lemma spec_call_suspensions:
  assumes "\<And>generation. call \<noteq> Pause_Abandon generation"
    and "spec_call suspend resume (session, c) call = (status, session', c')"
  shows "suspensions c' t - session_holds session' t = suspensions c t - session_holds session t"
  using assms
  by (cases call)
    (auto simp: spec_call_def intro: spec_begin_suspensions spec_end_suspensions spec_tick_suspensions)

lemma spec_run_suspensions:
  assumes "\<And>generation. Pause_Abandon generation \<notin> set calls"
    and "spec_run suspend resume (session, c) calls = (statuses, session', c')"
  shows "suspensions c' t - session_holds session' t = suspensions c t - session_holds session t"
  using assms
proof (induction calls arbitrary: session c statuses)
  case Nil
  then show ?case by simp
next
  case (Cons call calls)
  obtain status session1 c1 where step: "spec_call suspend resume (session, c) call = (status, session1, c1)"
    by (metis surj_pair)
  obtain rest where rest: "spec_run suspend resume (session1, c1) calls = (rest, session', c')"
    using Cons.prems(2) step by (auto split: prod.splits)
  have "suspensions c' t - session_holds session' t = suspensions c1 t - session_holds session1 t"
    using Cons.prems(1) by (intro Cons.IH [OF _ rest]) simp
  with spec_call_suspensions [OF _ step, of t] Cons.prems(1) show ?case
    by auto
qed

end

lemma distinct_count_list_1: "distinct xs \<Longrightarrow> t \<in> set xs \<Longrightarrow> count_list xs t = 1"
  by (induction xs) (auto simp: count_list_0_iff)

lemma session_holds_state:
  assumes "pause_inv s"
  shows "session_holds (pause_session s) t =
    (if active s \<and> t \<in> set (owned_threads s) then 1 else 0)"
proof (cases "active s")
  case True
  then have inv: "valid_threads (take (thread_count s) (thread_ids s))"
    "thread_count s \<le> length (thread_ids s)" "\<And>i. bit (owned_mask s) i \<Longrightarrow> i < thread_count s"
    using assms by (auto simp: pause_inv_def)
  have "distinct (owned_threads s)"
    unfolding owned_threads_def
  proof (subst distinct_map, intro conjI)
    show "distinct (owned_indices (owned_mask s) (thread_count s))"
      by (simp add: owned_indices_def)
    have "inj_on (nth (take (thread_count s) (thread_ids s))) {..<thread_count s}"
      using valid_threads_distinct [OF inv(1)] inv(2) by (intro inj_on_nth) auto
    then show "inj_on (nth (thread_ids s)) (set (owned_indices (owned_mask s) (thread_count s)))"
      by (auto simp: set_owned_indices inj_on_def)
  qed
  with True show ?thesis
    by (auto simp: session_holds_def session_simps count_list_0_iff distinct_count_list_1)
next
  case False
  then show ?thesis
    by (simp add: session_holds_def session_simps)
qed

section \<open>An adapter: the fake threads of the host tests\<close>

text \<open>
  \<^verbatim>\<open>fake_threads\<close> of \<^verbatim>\<open>tests/host/test_pause.c\<close>: it records the operations (\<^verbatim>\<open>events\<close>, the first
  \<^verbatim>\<open>event_count\<close> of 32 entries, is a list here) and fails on demand. Its contexts carry beside the
  struct a tally of the suspensions that succeeded, which the tests do not compute.
\<close>

record fake_threads =
  events :: "(char \<times> vc_thread_id) list"
  suspend_failure :: vc_thread_id
  resume_failure :: vc_thread_id
  resume_failures_remaining :: uint32_t

definition record_event :: "fake_threads \<Rightarrow> char \<Rightarrow> vc_thread_id \<Rightarrow> fake_threads" where
  "record_event threads operation thread_id =
     (if length (events threads) < 32
      then threads\<lparr>events := events threads @ [(operation, thread_id)]\<rparr> else threads)"

definition fake_suspend_thread :: "fake_threads thread_operation" where
  "fake_suspend_thread threads thread_id =
     (let threads = record_event threads CHR ''S'' thread_id
      in (if thread_id = suspend_failure threads then - 1 else 0, threads))"

definition fake_resume_thread :: "fake_threads thread_operation" where
  "fake_resume_thread threads thread_id =
     (let threads = record_event threads CHR ''R'' thread_id
      in if thread_id = resume_failure threads \<and> resume_failures_remaining threads \<noteq> 0
         then (- 1, threads\<lparr>resume_failures_remaining := resume_failures_remaining threads - 1\<rparr>)
         else (0, threads))"

definition tallied ::
  "int \<Rightarrow> 'c thread_operation \<Rightarrow> ('c \<times> (vc_thread_id \<Rightarrow> int)) thread_operation" where
  "tallied d operation x t =
     (let (result, c) = operation (fst x) t
      in (result, c, if result = 0 then (snd x)(t := snd x t + d) else snd x))"

abbreviation "fake_suspend \<equiv> tallied 1 fake_suspend_thread"
abbreviation "fake_resume \<equiv> tallied (- 1) fake_resume_thread"

definition fake_context :: "vc_thread_id \<Rightarrow> vc_thread_id \<Rightarrow> uint32_t \<Rightarrow> fake_threads \<times> (vc_thread_id \<Rightarrow> int)" where
  "fake_context s r n =
     (\<lparr>events = [], suspend_failure = s, resume_failure = r, resume_failures_remaining = n\<rparr>, \<lambda>_. 0)"

lemma tallied_thread_adapter: "thread_adapter (tallied 1 suspend) (tallied (- 1) resume) snd"
  by unfold_locales (auto simp: tallied_def split: prod.splits if_splits)

interpretation fake: thread_adapter fake_suspend fake_resume snd
  by (rule tallied_thread_adapter)

section \<open>Progress of a retried end\<close>

text \<open>
  The calls of an operation with the thread and whether it succeeded, in order, and the outcomes of the
  calls on one thread.
\<close>

definition logged :: "'c thread_operation \<Rightarrow> ('c \<times> (vc_thread_id \<times> bool) list) thread_operation" where
  "logged operation x t = (let (result, c) = operation (fst x) t in (result, c, snd x @ [(t, result = 0)]))"

definition attempts :: "vc_thread_id \<Rightarrow> (vc_thread_id \<times> bool) list \<Rightarrow> bool list" where
  "attempts t log = map snd (filter (\<lambda>e. fst e = t) log)"

lemma attempts_simps [simp]:
  "attempts t [] = []" "attempts t (log @ [(u, b)]) = attempts t log @ (if u = t then [b] else [])"
  by (simp_all add: attempts_def)

text \<open>Every thread is called once, and the calls that failed are the threads that are kept.\<close>

lemma call_all_logged:
  "call_all (logged f) xs x = (stuck, y) \<Longrightarrow> distinct xs \<Longrightarrow>
    attempts t (snd y) = attempts t (snd x) @ (if t \<in> set xs then [t \<notin> set stuck] else [])"
proof (induction xs arbitrary: x stuck y)
  case Nil
  then show ?case by simp
next
  case (Cons u xs)
  obtain result c where op: "f (fst x) u = (result, c)"
    by (meson surj_pair)
  obtain rest z where "call_all (logged f) xs (c, snd x @ [(u, result = 0)]) = (rest, z)"
    by (meson surj_pair)
  moreover have "logged f x u = (result, c, snd x @ [(u, result = 0)])"
    by (simp add: logged_def op)
  ultimately have run: "call_all (logged f) xs (c, snd x @ [(u, result = 0)]) = (rest, y)"
      "stuck = (if result = 0 then rest else u # rest)"
    using Cons.prems(1) by simp_all
  have "u \<notin> set rest"
    using call_all_subset [OF run(1)] Cons.prems(2) by auto
  with Cons.IH [OF run(1)] Cons.prems(2) run(2) show ?case
    by auto
qed

lemma pause_view_end:
  assumes "pause_inv (fst x)"
  shows "pause_view (pause_step (thread_operations suspend resume) x (Pause_End generation)) =
    snd (spec_end resume (pause_session (fst x)) generation (snd x))"
  using pause_step_session(1) [OF assms, of suspend resume "Pause_End generation"]
  by (simp add: spec_call_def pause_view_def)

lemma owned_threads_distinct:
  assumes "pause_inv s" and "active s"
  shows "distinct (owned_threads s)"
proof -
  have inv: "valid_threads (take (thread_count s) (thread_ids s))"
    "thread_count s \<le> length (thread_ids s)"
    using assms by (simp_all add: pause_inv_def)
  have "inj_on (nth (take (thread_count s) (thread_ids s))) {..<thread_count s}"
    using valid_threads_distinct [OF inv(1)] inv(2) by (intro inj_on_nth) auto
  then have "inj_on (nth (thread_ids s)) (set (owned_indices (owned_mask s) (thread_count s)))"
    by (auto simp: set_owned_indices inj_on_def)
  then show ?thesis
    by (simp add: owned_threads_def distinct_map owned_indices_def)
qed

text \<open>A state owns a thread exactly while it is active.\<close>

lemma owned_threads_active:
  assumes "pause_inv s"
  shows "owned_threads s \<noteq> [] \<longleftrightarrow> active s"
proof (cases "active s")
  case True
  with assms obtain i where "bit (owned_mask s) i" "i < thread_count s"
    by (auto simp: pause_inv_def mask_eq_0_iff)
  then have "i \<in> set (owned_indices (owned_mask s) (thread_count s))"
    by (simp add: set_owned_indices)
  with True show ?thesis
    by (auto simp: owned_threads_def)
next
  case False
  with assms show ?thesis
    by (auto simp: pause_inv_def owned_threads_def owned_indices_def vc_pause_clear_def)
qed

text \<open>What a call of end with the generation of the transaction, if there is one, attempts and keeps.\<close>

lemma end_step:
  assumes inv: "pause_inv (fst x)" and target: "active (fst x) \<Longrightarrow> target_generation (fst x) = generation"
    and y: "y = pause_step (thread_operations suspend (logged resume)) x (Pause_End generation)"
  shows "pause_inv (fst y)" and "active (fst y) \<Longrightarrow> target_generation (fst y) = generation"
    and "set (owned_threads (fst y)) \<subseteq> set (owned_threads (fst x))"
    and "attempts t (snd (snd y)) = attempts t (snd (snd x)) @
      (if t \<in> set (owned_threads (fst x)) then [t \<notin> set (owned_threads (fst y))] else [])"
proof -
  show inv': "pause_inv (fst y)"
    unfolding y using inv by (rule pause_step_keeps_inv)
  have "(active (fst y) \<longrightarrow> target_generation (fst y) = generation) \<and>
      set (owned_threads (fst y)) \<subseteq> set (owned_threads (fst x)) \<and>
      attempts t (snd (snd y)) = attempts t (snd (snd x)) @
      (if t \<in> set (owned_threads (fst x)) then [t \<notin> set (owned_threads (fst y))] else [])" for t
  proof (cases "active (fst x)")
    case True
    obtain stuck z where run: "call_all (logged resume) (rev (owned_threads (fst x))) (snd x) = (stuck, z)"
      by (meson surj_pair)
    have "generation \<noteq> 0"
      using inv True target [OF True] by (simp add: pause_inv_def)
    then have view: "pause_view y =
        (if stuck = [] then (None, z)
         else (Some \<lparr>session_generation = generation, session_started = started_ms (fst x),
                 session_deadline = deadline_ms (fst x), session_owned = rev stuck,
                 session_failed = hd stuck\<rparr>, z))"
      unfolding y pause_view_end [OF inv]
      using target [OF True] by (simp add: spec_end_def session_simps True run)
    then have z: "snd y = z"
      by (auto simp: pause_view_def split: if_splits)
    have owned: "set (owned_threads (fst y)) = set stuck"
    proof (cases "stuck = []")
      case True
      with view have "\<not> active (fst y)"
        by (simp add: pause_view_def pause_session_def split: if_splits)
      with True show ?thesis
        using owned_threads_active [OF inv'] by simp
    next
      case False
      with view show ?thesis
        by (auto simp: pause_view_def pause_session_def split: if_splits)
    qed
    have "active (fst y) \<longrightarrow> target_generation (fst y) = generation"
      using view by (auto simp: pause_view_def pause_session_def split: if_splits)
    with call_all_logged [OF run, of t] call_all_subset [OF run] owned_threads_distinct [OF inv True] show ?thesis
      by (simp add: owned z)
  next
    case False
    then have "pause_view y = (None, snd x)"
      unfolding y pause_view_end [OF inv] by (simp add: spec_end_def session_simps)
    then have "\<not> active (fst y)" "snd y = snd x"
      by (auto simp: pause_view_def pause_session_def split: if_splits)
    with False show ?thesis
      using owned_threads_active [OF inv] owned_threads_active [OF inv'] by simp
  qed
  then show "active (fst y) \<Longrightarrow> target_generation (fst y) = generation"
    and "set (owned_threads (fst y)) \<subseteq> set (owned_threads (fst x))"
    and "attempts t (snd (snd y)) = attempts t (snd (snd x)) @
      (if t \<in> set (owned_threads (fst x)) then [t \<notin> set (owned_threads (fst y))] else [])"
    by blast+
qed

text \<open>The outcomes of a thread after \<open>n\<close> calls: all failures, or a success after failures only.\<close>

lemma end_steps:
  assumes "pause_inv (fst x)" and "active (fst x) \<Longrightarrow> target_generation (fst x) = generation"
    and "snd (snd x) = []"
    and "y = ((\<lambda>x. pause_step (thread_operations suspend (logged resume)) x (Pause_End generation)) ^^ n) x"
  shows "pause_inv (fst y) \<and> (active (fst y) \<longrightarrow> target_generation (fst y) = generation) \<and>
    set (owned_threads (fst y)) \<subseteq> set (owned_threads (fst x)) \<and>
    (if t \<in> set (owned_threads (fst y)) then attempts t (snd (snd y)) = replicate n False
     else if t \<in> set (owned_threads (fst x)) then \<exists>k<n. attempts t (snd (snd y)) = replicate k False @ [True]
     else attempts t (snd (snd y)) = [])"
  using assms(4)
proof (induction n arbitrary: y)
  case 0
  with assms show ?case
    by simp
next
  case (Suc n)
  let ?f = "\<lambda>x. pause_step (thread_operations suspend (logged resume)) x (Pause_End generation)"
  define z where "z = (?f ^^ n) x"
  have y: "y = ?f z"
    using Suc.prems by (simp add: z_def)
  note IH = Suc.IH [OF z_def]
  then have z: "pause_inv (fst z)" "active (fst z) \<Longrightarrow> target_generation (fst z) = generation"
    by blast+
  note step = end_step [OF z y]
  consider "t \<in> set (owned_threads (fst y))" "t \<in> set (owned_threads (fst z))"
    | "t \<notin> set (owned_threads (fst y))" "t \<in> set (owned_threads (fst z))"
    | "t \<notin> set (owned_threads (fst y))" "t \<notin> set (owned_threads (fst z))"
    using step(3) by blast
  then have "if t \<in> set (owned_threads (fst y)) then attempts t (snd (snd y)) = replicate (Suc n) False
     else if t \<in> set (owned_threads (fst x)) then \<exists>k<Suc n. attempts t (snd (snd y)) = replicate k False @ [True]
     else attempts t (snd (snd y)) = []"
  proof cases
    case 1
    with IH step(4) [of t] show ?thesis
      by (simp add: replicate_append_same)
  next
    case 2
    with IH step(4) [of t] show ?thesis
      by auto
  next
    case 3
    with IH step(4) [of t] show ?thesis
      by (auto simp: less_Suc_eq)
  qed
  with IH step(1-3) show ?case
    by blast
qed

section \<open>Properties\<close>

text \<open>C3. Refinement: from an initialised state, any sequence of begin, end, tick and abandon calls, with
  any thread operations, returns the statuses the session specification returns, leaves the
  operations' context the specification leaves, and ends in a state that stands for the
  specification's session (\<open>spec_begin\<close>, \<open>spec_end\<close>, \<open>spec_tick\<close>, \<open>spec_abandon\<close>: which threads are suspended and
  resumed, in which order, which are kept after a failure, which guard answers first).\<close>

theorem pause_calls_refine_sessions:
  "map_prod id pause_view (pause_run (thread_operations suspend resume) (vc_pause_clear, c) calls) =
    spec_run suspend resume (None, c) calls"
proof -
  have "pause_view (vc_pause_clear, c) = (None, c)"
    by (simp add: pause_view_def session_simps)
  then show ?thesis
    using pause_run_session [of "(vc_pause_clear, c)"] by (simp add: pause_inv_clear)
qed

text \<open>C23. Invariant: whatever calls are made on an initialised state, with whatever operations (null
  callbacks included), the state keeps \<open>pause_inv\<close>: the mask only has bits of listed threads, the state is
  active exactly while it owns a suspension and all zero otherwise, the listed threads are
  positive and strictly increasing, and the deadline lies after the start, at most ten minutes.\<close>

theorem pause_state_invariant:
  "pause_inv (fst (foldl (pause_step ops) (vc_pause_clear, c) calls))"
  by (rule pause.inv_run) (simp add: pause_inv_clear)

text \<open>C11. Conservation: with operations that keep the contract of \<^verbatim>\<open>vc_pause_thread_operation\<close>, after any
  sequence of begin, end and tick calls on an initialised state, the suspend count of a thread is its
  count at the start, plus one exactly if the state still owns a suspension of it. So a
  transaction that is over leaves no thread suspended, and no call resumes a suspension it does not own.\<close>

theorem pause_conserves_suspensions:
  assumes "thread_adapter suspend resume suspensions"
    and "\<forall>generation. Pause_Abandon generation \<notin> set calls"
    and "foldl (pause_step (thread_operations suspend resume)) (vc_pause_clear, c) calls = (s, c')"
  shows "suspensions c' t =
    suspensions c t + (if active s \<and> t \<in> set (owned_threads s) then 1 else 0)"
proof -
  let ?run = "pause_run (thread_operations suspend resume) (vc_pause_clear, c) calls"
  have "snd ?run = (s, c')"
    using assms(3) by (simp add: pause_run_state)
  moreover have "map_prod id pause_view ?run = spec_run suspend resume (None, c) calls"
    using pause_run_session [of "(vc_pause_clear, c)"]
    by (simp add: pause_inv_clear pause_view_def session_simps)
  ultimately have "spec_run suspend resume (None, c) calls = (fst ?run, pause_session s, c')"
    by (cases ?run) (simp add: pause_view_def)
  from thread_adapter.spec_run_suspensions [OF assms(1) _ this, of t] assms(2)
  have "suspensions c' t - session_holds (pause_session s) t = suspensions c t"
    by (simp add: session_holds_def)
  moreover have "pause_inv s"
    using pause.inv_run [of "(vc_pause_clear, c)" "thread_operations suspend resume" calls] assms(3)
    by (simp add: pause_inv_clear)
  ultimately show ?thesis
    by (simp add: session_holds_state)
qed

text \<open>C24. A failed cleanup is retried to its end, thread by thread. Whatever the callbacks do, after \<open>n\<close> calls of
  \<^verbatim>\<open>vc_pause_end\<close> with the generation of an active transaction: a thread that was owned and is not owned any more
  was resumed successfully exactly once, after failed attempts only, and was not called again; a thread that is
  still owned was attempted in each of the \<open>n\<close> calls and failed; no other thread was called. The transaction is still
  active exactly if some thread it owned has not been resumed, so it ends in the call in which the last of
  them succeeds.\<close>

theorem pause_end_eventually:
  assumes "pause_inv s" and "active s" and "target_generation s = generation"
    and "((\<lambda>x. pause_step (thread_operations suspend (logged resume)) x (Pause_End generation)) ^^ n)
      (s, c, []) = (s', c', log)"
  shows "(\<forall>t. if t \<in> set (owned_threads s') then t \<in> set (owned_threads s) \<and> attempts t log = replicate n False
      else if t \<in> set (owned_threads s) then \<exists>k<n. attempts t log = replicate k False @ [True]
      else attempts t log = []) \<and>
    (active s' \<longleftrightarrow> (\<exists>t \<in> set (owned_threads s). True \<notin> set (attempts t log)))"
proof -
  have steps: "pause_inv s' \<and> (active s' \<longrightarrow> target_generation s' = generation) \<and>
      set (owned_threads s') \<subseteq> set (owned_threads s) \<and>
      (if t \<in> set (owned_threads s') then attempts t log = replicate n False
       else if t \<in> set (owned_threads s) then \<exists>k<n. attempts t log = replicate k False @ [True]
       else attempts t log = [])" for t
    using end_steps [where x = "(s, c, [])" and y = "(s', c', log)" and t = t, unfolded fst_conv snd_conv,
        OF assms(1) assms(3) refl assms(4) [symmetric]] .
  have active: "active s' \<longleftrightarrow> set (owned_threads s') \<noteq> {}"
    using steps owned_threads_active [of s'] by simp
  have sub: "set (owned_threads s') \<subseteq> set (owned_threads s)"
    using steps [of undefined] by blast
  have outcome: "if t \<in> set (owned_threads s') then t \<in> set (owned_threads s) \<and> attempts t log = replicate n False
      else if t \<in> set (owned_threads s) then \<exists>k<n. attempts t log = replicate k False @ [True]
      else attempts t log = []" for t
    using steps [of t] sub by (cases "t \<in> set (owned_threads s')") (simp_all add: subset_iff)
  have "True \<in> set (attempts t log) \<longleftrightarrow> t \<notin> set (owned_threads s')" if "t \<in> set (owned_threads s)" for t
    using outcome [of t] that by (cases "t \<in> set (owned_threads s')") auto
  then have "(\<exists>t \<in> set (owned_threads s). True \<notin> set (attempts t log)) \<longleftrightarrow>
      (\<exists>t \<in> set (owned_threads s). t \<in> set (owned_threads s'))"
    by (intro bex_cong refl) simp
  also have "\<dots> \<longleftrightarrow> active s'"
    unfolding active ex_in_conv [symmetric] Bex_def by (intro iff_exI) (use sub in auto)
  finally have "active s' \<longleftrightarrow> (\<exists>t \<in> set (owned_threads s). True \<notin> set (attempts t log))" ..
  with outcome show ?thesis
    by (intro conjI allI)
qed

text \<open>C26. An active transaction answers no other generation: a begin of any generation, and an end, a tick or an
  abandon of another one, fails, changes nothing of the state and calls no thread operation.\<close>

theorem pause_other_generation_inert:
  assumes "active s" and "target_generation s \<noteq> generation"
    and "call \<in> {Pause_Begin other now_ms max_pause_ms ids, Pause_End generation,
      Pause_Tick generation now_ms, Pause_Abandon generation}"
  shows "\<exists>status. status \<notin> {VC_PAUSE_STATUS_OK, VC_PAUSE_STATUS_EXPIRED} \<and>
    pause_call ops (s, c) call = (status, Some s, c)"
  using assms
  by (auto simp: pause_call_def vc_pause_begin_def vc_pause_end_def vc_pause_tick_def vc_pause_abandon_def
      split: option.splits)

text \<open>C25. The deadline: after a successful begin at \<open>now_ms\<close> for \<open>max_pause_ms\<close>, a tick leaves the pause alone exactly
  when its time is at least \<open>now_ms\<close> and less than \<open>now_ms + max_pause_ms\<close> (as numbers: the sum does not
  wrap); at any other time, an earlier one included, it ends the transaction and reports success as expiry.\<close>

theorem pause_deadline:
  assumes "vc_pause_begin (Some s) generation now_ms max_pause_ms ids count
      (thread_operations suspend resume) c = (VC_PAUSE_STATUS_OK, Some s', c')"
    and "pause_inv s" and "readable_threads ids count"
  shows "vc_pause_tick (Some s') generation later_ms (thread_operations suspend resume) c2 =
    (if unat now_ms \<le> unat later_ms \<and> unat later_ms < unat now_ms + unat max_pause_ms
     then (VC_PAUSE_STATUS_OK, Some s', c2)
     else map_prod expiry_status id
       (vc_pause_end (Some s') generation (thread_operations suspend resume) c2))"
proof -
  let ?ops = "\<lparr>suspend_thread = Some suspend, resume_thread = Some resume\<rparr>"
  have "(VC_PAUSE_STATUS_OK, pause_session s', c') =
      spec_begin suspend resume (pause_session s) generation now_ms max_pause_ms ids count c"
    using vc_pause_begin_session [OF assms(2,3), of ?ops suspend resume generation now_ms max_pause_ms c]
      assms(1)
    by (simp add: thread_operations_def session_result_def)
  then have begun: "generation \<noteq> 0" "window_ok now_ms max_pause_ms" "active s'"
    "target_generation s' = generation" "started_ms s' = now_ms"
    "deadline_ms s' = now_ms + max_pause_ms"
    by (auto simp: spec_begin_def Let_def pause_session_def split: if_splits prod.splits)
  then have "unat (deadline_ms s') = unat now_ms + unat max_pause_ms"
    by (simp add: window_ok_def unat_add_no_wrap)
  then show ?thesis
    using begun vc_pause_tick_cases [of ?ops resume s' generation later_ms c2]
    by (simp add: thread_operations_def word_le_nat_alt word_less_nat_alt)
qed

text \<open>
  The clock of a tick is compared with the start and the deadline only. A tick whose clock went back, but not
  behind the start, leaves the pause alone, so the time already spent is granted again.
\<close>

lemma pause_clock_rollback_unseen:
  assumes "vc_pause_tick (Some s) generation earlier_ms operations c = (VC_PAUSE_STATUS_OK, state', c')"
    and "started_ms s \<le> later_ms" and "later_ms < earlier_ms"
  shows "vc_pause_tick state' generation later_ms operations c' = (VC_PAUSE_STATUS_OK, state', c')"
  using assms by (auto simp: vc_pause_tick_def split: option.splits if_splits prod.splits)

text \<open>Concrete runs: the threads 10, 20, 30 with a resume of 20 that fails twice.\<close>

abbreviation "sample_threads \<equiv> Some [10, 20, 30 :: vc_thread_id]"

theorem pause_conserves_suspensions_witness:
  "let (s, c) = foldl (pause_step (thread_operations fake_suspend fake_resume))
      (vc_pause_clear, fake_context 0 20 2)
      [Pause_Begin 9 100 1000 sample_threads, Pause_Tick 9 1100, Pause_End 9]
   in active s \<and> owned_threads s = [20] \<and> snd c 20 = 1 \<and> snd c 30 = 0"
proof -
  let ?calls = "[Pause_Begin 9 100 1000 sample_threads, Pause_Tick 9 1100, Pause_End 9]"
  let ?run = "foldl (pause_step (thread_operations fake_suspend fake_resume))
      (vc_pause_clear, fake_context 0 20 2) ?calls"
  have state: "active (fst ?run)" "owned_threads (fst ?run) = [20]"
    by code_simp+
  have "snd (snd ?run) t = snd (fake_context 0 20 2) t +
      (if active (fst ?run) \<and> t \<in> set (owned_threads (fst ?run)) then 1 else 0)" for t
    by (rule pause_conserves_suspensions [OF fake.thread_adapter_axioms, where calls = ?calls]) simp_all
  then have "snd (snd ?run) 20 = 1" "snd (snd ?run) 30 = 0"
    by (simp_all only: state) (simp_all add: fake_context_def)
  with state show ?thesis
    by (simp only: split_beta Let_def)
qed

abbreviation "begun \<equiv> pause_step (thread_operations fake_suspend fake_resume)
  (vc_pause_clear, fake_context 0 20 2) (Pause_Begin 9 100 1000 sample_threads)"

theorem pause_end_eventually_witness:
  "let (s', c', log) = ((\<lambda>x. pause_step (thread_operations (logged fake_suspend) (logged fake_resume)) x (Pause_End 9)) ^^ 3)
      (fst begun, snd begun, [])
   in active (fst begun) \<and> \<not> active s' \<and> attempts 20 log = [False, False, True] \<and> attempts 10 log = [True]"
proof -
  let ?run = "((\<lambda>x. pause_step (thread_operations (logged fake_suspend) (logged fake_resume)) x (Pause_End 9)) ^^ 3)
      (fst begun, snd begun, [])"
  have run: "attempts 10 (snd (snd ?run)) = [True]" "attempts 20 (snd (snd ?run)) = [False, False, True]"
    "attempts 30 (snd (snd ?run)) = [True]" "owned_threads (fst begun) = [10, 20, 30]"
    by code_simp+
  have begun: "active (fst begun)" "target_generation (fst begun) = 9"
    by code_simp+
  have "pause_inv (fst begun)"
    by (rule pause_step_keeps_inv) (simp add: pause_inv_clear)
  moreover obtain s' c' log where r: "?run = (s', c', log)"
    by (rule prod_cases3)
  note run = run [unfolded r snd_conv]
  ultimately have "\<not> active s'"
    using pause_end_eventually [OF _ _ _ r] begun run by simp
  with begun(1) run(1,2) show ?thesis
    unfolding r by simp
qed

theorem pause_other_generation_inert_witness:
  "\<exists>status. status \<notin> {VC_PAUSE_STATUS_OK, VC_PAUSE_STATUS_EXPIRED} \<and>
    pause_call (thread_operations fake_suspend fake_resume) (fst begun, snd begun) (Pause_End 8) =
      (status, Some (fst begun), snd begun)"
proof -
  have "active (fst begun)" "target_generation (fst begun) \<noteq> 8"
    by code_simp+
  then show ?thesis
    by (rule pause_other_generation_inert) simp
qed

theorem pause_deadline_witness:
  "vc_pause_tick (Some (fst begun)) 9 1099 (thread_operations fake_suspend fake_resume) (snd begun) =
      (VC_PAUSE_STATUS_OK, Some (fst begun), snd begun)"
proof -
  let ?ops = "thread_operations fake_suspend fake_resume"
  let ?r = "vc_pause_begin (Some vc_pause_clear) 9 100 1000 sample_threads 3 ?ops (fake_context 0 20 2)"
  have "fst ?r = VC_PAUSE_STATUS_OK" "fst (snd ?r) \<noteq> None"
    by code_simp+
  moreover have "begun = map_prod the id (snd ?r)"
    by (simp add: pause_step_def pause_call_def numeral_eq_Suc)
  ultimately have "?r = (VC_PAUSE_STATUS_OK, Some (fst begun), snd begun)"
    by (simp add: prod_eq_iff)
  then show ?thesis
    using pause_deadline [OF _ pause_inv_clear, of 9 100 1000 sample_threads 3 fake_suspend fake_resume
        "fake_context 0 20 2" "fst begun" "snd begun" 1099 "snd begun"]
    by (simp add: readable_threads_def)
qed

end
