(* ===== verification/VC_Host_Tests.thy ===== *)
theory VC_Host_Tests
  imports VC_Menu VC_Pause_Props
begin

unbundle bit_operations_syntax

text \<open>
  The cases of \<^verbatim>\<open>tests/host/test_menu_activation.c\<close> and \<^verbatim>\<open>tests/host/test_pause.c\<close>. A case is the conjunction of
  its \<^verbatim>\<open>CHECK\<close>s, and evaluates to true.
\<close>

section \<open>Menu activation\<close>

definition test_exact_hold_and_release_rearm :: bool where
  "test_exact_hold_and_release_rearm \<longleftrightarrow>
     menu_events menu_zero
       [(True, 1000), (True, 5999), (True, 6000), (True, 9000), (False, 9001), (True, 10000), (True, 15000)] =
     [VC_MENU_ACTIVATION_NONE, VC_MENU_ACTIVATION_NONE, VC_MENU_ACTIVATION_TRIGGERED, VC_MENU_ACTIVATION_NONE,
      VC_MENU_ACTIVATION_NONE, VC_MENU_ACTIVATION_NONE, VC_MENU_ACTIVATION_TRIGGERED]"

definition test_taps_and_clock_rollback :: bool where
  "test_taps_and_clock_rollback \<longleftrightarrow>
     menu_events menu_zero
       [(True, 100), (False, 1000), (True, 2000), (True, 6000), (True, 1500), (True, 6499), (True, 6500)] =
     replicate 6 VC_MENU_ACTIVATION_NONE @ [VC_MENU_ACTIVATION_TRIGGERED]"

definition test_clock_rollback_cannot_retrigger_latched_hold :: bool where
  "test_clock_rollback_cannot_retrigger_latched_hold \<longleftrightarrow>
     menu_events menu_zero
       [(True, 1000), (True, 6000), (True, 50), (True, 10000), (False, 10001), (True, 11000), (True, 16000)] =
     [VC_MENU_ACTIVATION_NONE, VC_MENU_ACTIVATION_TRIGGERED, VC_MENU_ACTIVATION_NONE, VC_MENU_ACTIVATION_NONE,
      VC_MENU_ACTIVATION_NONE, VC_MENU_ACTIVATION_NONE, VC_MENU_ACTIVATION_TRIGGERED]"

definition test_null_is_safe :: bool where
  "test_null_is_safe \<longleftrightarrow>
     fst (vc_menu_activation_update None True 0) = VC_MENU_ACTIVATION_NONE \<and> vc_menu_activation_reset None = None"

lemma menu_tests_pass:
  test_exact_hold_and_release_rearm
  test_taps_and_clock_rollback
  test_clock_rollback_cannot_retrigger_latched_hold
  test_null_is_safe
  by code_simp+

section \<open>Pause transaction\<close>

text \<open>\<^verbatim>\<open>operations_for\<close>, and the fake threads after \<^verbatim>\<open>memset\<close> with the failures a case asks for.\<close>

definition operations_for :: "fake_threads vc_pause_operations option" where
  "operations_for = thread_operations fake_suspend_thread fake_resume_thread"

definition failing_threads :: "vc_thread_id \<Rightarrow> vc_thread_id \<Rightarrow> uint32_t \<Rightarrow> fake_threads" where
  "failing_threads s r n =
     \<lparr>events = [], suspend_failure = s, resume_failure = r, resume_failures_remaining = n\<rparr>"

definition test_successful_pause_and_reverse_resume :: bool where
  "test_successful_pause_and_reverse_resume \<longleftrightarrow>
     (let (begun, s1, t1) = vc_pause_begin (Some vc_pause_clear) 7 1000 5000 (Some [10, 20, 30]) 3 operations_for
            (failing_threads 0 0 0);
          (ended, s2, t2) = vc_pause_end s1 7 operations_for t1
      in begun = VC_PAUSE_STATUS_OK \<and> active (the s1) \<and> target_generation (the s1) = 7 \<and>
         started_ms (the s1) = 1000 \<and> deadline_ms (the s1) = 6000 \<and> owned_mask (the s1) = 7 \<and>
         events t1 = [(CHR ''S'', 10), (CHR ''S'', 20), (CHR ''S'', 30)] \<and>
         ended = VC_PAUSE_STATUS_OK \<and> \<not> active (the s2) \<and> owned_mask (the s2) = 0 \<and>
         events t2 = events t1 @ [(CHR ''R'', 30), (CHR ''R'', 20), (CHR ''R'', 10)])"

definition test_suspend_failure_rolls_back :: bool where
  "test_suspend_failure_rolls_back \<longleftrightarrow>
     (let (begun, s1, t1) = vc_pause_begin (Some vc_pause_clear) 9 100 1000 (Some [10, 20, 30]) 3 operations_for
            (failing_threads 20 0 0)
      in begun = VC_PAUSE_STATUS_SUSPEND_FAILED \<and> \<not> active (the s1) \<and> owned_mask (the s1) = 0 \<and>
         events t1 = [(CHR ''S'', 10), (CHR ''S'', 20), (CHR ''R'', 10)])"

definition test_failed_rollback_retains_only_owned_suspensions :: bool where
  "test_failed_rollback_retains_only_owned_suspensions \<longleftrightarrow>
     (let (begun, s1, t1) = vc_pause_begin (Some vc_pause_clear) 11 100 1000 (Some [10, 20, 30]) 3 operations_for
            (failing_threads 30 20 1);
          (ended, s2, t2) = vc_pause_end s1 11 operations_for t1
      in begun = VC_PAUSE_STATUS_ROLLBACK_FAILED \<and> active (the s1) \<and> owned_mask (the s1) = 2 \<and>
         failed_thread_id (the s1) = 20 \<and> length (events t1) = 5 \<and>
         drop 3 (events t1) = [(CHR ''R'', 20), (CHR ''R'', 10)] \<and>
         ended = VC_PAUSE_STATUS_OK \<and> \<not> active (the s2) \<and> events t2 = events t1 @ [(CHR ''R'', 20)])"

definition test_resume_failure_is_retryable :: bool where
  "test_resume_failure_is_retryable \<longleftrightarrow>
     (let (begun, s1, t1) = vc_pause_begin (Some vc_pause_clear) 13 100 1000 (Some [10, 20, 30]) 3 operations_for
            (failing_threads 0 20 1);
          (ended, s2, t2) = vc_pause_end s1 13 operations_for t1;
          (again, s3, t3) = vc_pause_end s2 13 operations_for t2
      in begun = VC_PAUSE_STATUS_OK \<and> ended = VC_PAUSE_STATUS_RESUME_FAILED \<and> active (the s2) \<and>
         owned_mask (the s2) = 2 \<and> failed_thread_id (the s2) = 20 \<and>
         again = VC_PAUSE_STATUS_OK \<and> \<not> active (the s3) \<and> length (events t3) = 7 \<and>
         drop 3 (events t3) = [(CHR ''R'', 30), (CHR ''R'', 20), (CHR ''R'', 10), (CHR ''R'', 20)])"

definition test_generation_binding_and_confirmed_abandon :: bool where
  "test_generation_binding_and_confirmed_abandon \<longleftrightarrow>
     (let (begun, s1, t1) = vc_pause_begin (Some vc_pause_clear) 15 100 1000 (Some [10, 20]) 2 operations_for
            (failing_threads 0 0 0);
          (ended, s2, t2) = vc_pause_end s1 16 operations_for t1;
          (stale, s3) = vc_pause_abandon s2 16;
          (abandoned, s4) = vc_pause_abandon s3 15
      in begun = VC_PAUSE_STATUS_OK \<and> ended = VC_PAUSE_STATUS_STALE_TARGET \<and> events t2 = events t1 \<and>
         stale = VC_PAUSE_STATUS_STALE_TARGET \<and> active (the s3) \<and>
         abandoned = VC_PAUSE_STATUS_OK \<and> \<not> active (the s4))"

definition test_watchdog_expiry_and_clock_rollback :: bool where
  "test_watchdog_expiry_and_clock_rollback \<longleftrightarrow>
     (let (begun, s1, t1) = vc_pause_begin (Some vc_pause_clear) 17 100 50 (Some [10, 20]) 2 operations_for
            (failing_threads 0 0 0);
          (early, s2, t2) = vc_pause_tick s1 17 149 operations_for t1;
          (late, s3, t3) = vc_pause_tick s2 17 150 operations_for t2;
          (begun_again, s4, t4) = vc_pause_begin s3 18 100 50 (Some [10, 20]) 2 operations_for t3;
          (rolled_back, s5, t5) = vc_pause_tick s4 18 99 operations_for t4
      in begun = VC_PAUSE_STATUS_OK \<and> early = VC_PAUSE_STATUS_OK \<and> events t2 = events t1 \<and>
         late = VC_PAUSE_STATUS_EXPIRED \<and> \<not> active (the s3) \<and>
         begun_again = VC_PAUSE_STATUS_OK \<and> rolled_back = VC_PAUSE_STATUS_EXPIRED \<and> \<not> active (the s5))"

definition test_validation_is_side_effect_free :: bool where
  "test_validation_is_side_effect_free \<longleftrightarrow>
     (let too_many = map (\<lambda>index. of_nat (index + 1)) [0 ..< VC_PAUSE_MAX_THREADS + 1];
          s = Some vc_pause_clear; t = failing_threads 0 0 0;
          status = (\<lambda>generation now_ms max_pause_ms ids count.
            vc_pause_begin s generation now_ms max_pause_ms ids count operations_for t);
          refused = (\<lambda>result reason. result = (reason, s, t));
          (begun, s1, t1) = status 1 0 100 (Some [10, 20]) 2;
          (again, s2, t2) = vc_pause_begin s1 1 0 100 (Some [10, 20]) 2 operations_for t1;
          (ended, s3, t3) = vc_pause_end s2 1 operations_for t2;
          (over, s4, t4) = vc_pause_end s3 1 operations_for t3
      in refused (status 1 0 1 None 0) VC_PAUSE_STATUS_INVALID_THREADS \<and>
         refused (status 1 0 1 (Some [10, 10]) 2) VC_PAUSE_STATUS_INVALID_THREADS \<and>
         refused (status 1 0 1 (Some [0]) 1) VC_PAUSE_STATUS_INVALID_THREADS \<and>
         refused (status 1 0 1 (Some too_many) (VC_PAUSE_MAX_THREADS + 1)) VC_PAUSE_STATUS_INVALID_THREADS \<and>
         refused (status 0 0 1 (Some [10, 20]) 2) VC_PAUSE_STATUS_INVALID_ARGUMENT \<and>
         refused (status 1 0 (VC_PAUSE_MAX_DURATION_MS + 1) (Some [10, 20]) 2) VC_PAUSE_STATUS_INVALID_ARGUMENT \<and>
         refused (status 1 (- 1 - 5) 10 (Some [10, 20]) 2) VC_PAUSE_STATUS_INVALID_ARGUMENT \<and>
         begun = VC_PAUSE_STATUS_OK \<and> again = VC_PAUSE_STATUS_ALREADY_ACTIVE \<and> length (events t2) = 2 \<and>
         ended = VC_PAUSE_STATUS_OK \<and> over = VC_PAUSE_STATUS_NOT_ACTIVE)"

definition test_state_thread_list_can_be_reused :: bool where
  "test_state_thread_list_can_be_reused \<longleftrightarrow>
     (let s = vc_pause_clear\<lparr>thread_ids := (thread_ids vc_pause_clear)[0 := 10, 1 := 20]\<rparr>;
          (begun, s1, t1) = vc_pause_begin (Some s) 21 100 1000 (Some (thread_ids s)) 2 operations_for
            (failing_threads 0 0 0);
          (ended, s2, t2) = vc_pause_end s1 21 operations_for t1
      in begun = VC_PAUSE_STATUS_OK \<and> thread_ids (the s1) ! 0 = 10 \<and> thread_ids (the s1) ! 1 = 20 \<and>
         ended = VC_PAUSE_STATUS_OK)"

lemma pause_tests_pass:
  test_successful_pause_and_reverse_resume
  test_suspend_failure_rolls_back
  test_failed_rollback_retains_only_owned_suspensions
  test_resume_failure_is_retryable
  test_generation_binding_and_confirmed_abandon
  test_watchdog_expiry_and_clock_rollback
  test_validation_is_side_effect_free
  test_state_thread_list_can_be_reused
  by code_simp+

end
