(* ===== verification/Spec2Isabelle.thy ===== *)
theory Spec2Isabelle
  imports VC_Search_Random_Tests VC_Psv_Print VC_Psv_Reads VC_Psv_Host_Tests VC_Self_Test_App_Props
    VC_Fuzz_Search_Props VC_Host_Tests
begin

text \<open>
  A verification library for VitaCheat: the portable C core under \<^verbatim>\<open>src/\<close> with its headers under
  \<^verbatim>\<open>include/vitacheat/\<close>, and the application \<^verbatim>\<open>vita-self-test/main.c\<close> that runs it on the console.

  \<^bold>\<open>The program.\<close> Four components that do not call each other, an
  application over two of them, and a fuzz driver over one.
  \<^item> \<^verbatim>\<open>src/search.c\<close> scans a snapshot of memory for scalars (\<^verbatim>\<open>vc_search_initial\<close>) and narrows a list of
    offsets down by comparing two snapshots (\<^verbatim>\<open>vc_search_refine\<close>). It keeps no state; a caller feeds
    the offsets of one call to the next.
  \<^item> \<^verbatim>\<open>src/legacy_psv.c\<close> reads a cheat file into arrays of lines, cheats and operations and a report
    (\<^verbatim>\<open>vc_psv_parse\<close>). It accepts what it does not understand and marks the cheats concerned.
  \<^item> \<^verbatim>\<open>src/menu_activation.c\<close> turns samples of the Select button into one event per hold of five seconds.
  \<^item> \<^verbatim>\<open>src/pause.c\<close> suspends a list of threads through the callbacks of an adapter and resumes what it owns,
    with rollback, retry, deadline and abandonment.
  \<^item> \<^verbatim>\<open>vita-self-test/main.c\<close> opens a menu by the activation, runs the search over buffers of its own, and
    shows the report.
  \<^item> \<^verbatim>\<open>tests/fuzz/fuzz_search.c\<close> turns any input into calls of the search and aborts when a promise is broken.

  \<^bold>\<open>Foundations.\<close>
  \<^item> \<open>VC_Prelude\<close>: the integer types, shared automation, and the interface
    \<open>invariant_machine\<close> of a step function with an invariant.
  \<^item> \<open>VC_Memory\<close>: memory as a function from addresses of type \<open>'s word\<close> to bytes, arrays and
    counters in it, \<open>span\<close> and \<open>apart\<close>, and the interface \<open>range_guard\<close> of an overlap check with a size
    multiplication. The width of \<^verbatim>\<open>size_t\<close> stays a type parameter; theorems that need it assume
    \<open>supported_target\<close>, 32 or 64 bits.

  \<^bold>\<open>Scalar search.\<close> \<open>VC_Scalar\<close> models the types of \<^verbatim>\<open>search.h\<close> and the helpers up to \<^verbatim>\<open>vc_matches\<close>,
  with masks, shifts and sign extension on words; \<open>scalar_value\<close> and \<open>relation_holds\<close> are the reference on
  integers. \<open>VC_Search\<close> models validation and the two searches; arguments are the records \<open>search_args\<close>
  and \<open>refine_args\<close>, a call maps memory to a status and memory, and the scan loop, whose offset
  could wrap around, is an option-valued partial function. \<open>VC_Search_Correct\<close> states the contract over
  snapshot bytes (\<open>initial_hits\<close>, \<open>refine_hits\<close>, \<open>search_outcome\<close>) and proves the loops against it.
  \<open>VC_Search_Props\<close> holds the properties: exactness, totality, truncation, in-place refinement, and that every
  result is a valid input of the next call.

  \<^bold>\<open>Legacy cheat files.\<close> \<open>VC_Psv_Lex\<close> models white space, hexadecimal numbers and the code line, with the
  grammar of code lines beside it; the grammar has its own table of digits and its own blanks (\<open>digit_weight\<close>,
  \<open>blank\<close>), and the code's tests are proved to agree with them. \<open>VC_Psv\<close> models the rest of \<^verbatim>\<open>legacy_psv.c\<close>: the checks on
  addresses, the state \<open>psv_state\<close> (local variables and the three arrays), one definition per branch of the
  loop, the loop, truncation. \<open>VC_Psv_Doc\<close> is the abstract specification, a fold of line items into a
  document without arrays, capacities or counters; \<open>VC_Psv_Refine\<close> proves that the C state is the
  concrete form of the document at every iteration. \<open>VC_Psv_Invariant\<close>, \<open>VC_Psv_Text\<close> and
  \<open>VC_Psv_Props\<close> derive what a caller can rely on: raw spans that tile the source, consistent indices,
  decoded contents, sound translation states, exact and bounded counters, exact argument errors, and a
  retry that succeeds. \<open>VC_Psv_Print\<close> adds a printer and the round trip. \<open>VC_Psv_Reads\<close> writes
  the loop and its routines once more with checked reads, checked subtractions and the evaluation order of C, and proves
  that they never fail: no byte outside the source is read, and a line is tested within its content. \<open>VC_Psv_Stream\<close> states the loop as one that consumes the source from the front and
  looks at the text of a line only (\<open>psv_loop_stream\<close>), which is also how the parser is evaluated on files.

  \<^bold>\<open>Menu activation.\<close> \<open>VC_Menu\<close> models the whole file; timestamps are 64-bit words and the hold is
  the code's unsigned difference. The properties say that events come exactly at the end of holds.

  \<^bold>\<open>Pause transaction.\<close> \<open>VC_Pause\<close> models \<^verbatim>\<open>pause.c\<close> with the ownership mask as a 64-bit word and the
  callbacks as parameters. \<open>VC_Pause_Correct\<close> refines it to sessions on lists. \<open>VC_Pause_Props\<close> states
  the contract of the callbacks as the interface \<open>thread_adapter\<close>, interprets it with the fake adapter of
  \<^verbatim>\<open>tests/host/test_pause.c\<close>, and proves conservation of suspend counts, the deadline, and, over a
  log of the calls, that retried ends resume every owned thread exactly once and end with the last of them. \<open>pause_clock_rollback_unseen\<close> shows a limit that the comment of
  \<^verbatim>\<open>vc_pause_tick\<close> does not mention: a clock that goes back is noticed only when it falls behind the start.

  \<^bold>\<open>The application.\<close> \<open>VC_Self_Test\<close> models the self-test statement by statement on the memory model,
  with the static and local objects at arbitrary addresses that \<open>objects_apart\<close> keeps distinct.
  \<open>VC_Self_Test_App\<close> models \<^verbatim>\<open>main\<close>: \<open>app_state\<close> holds its local variables, what was drawn, and
  memory; \<open>app_step\<close> is an iteration, with a definition per screen, and \<open>app_run\<close> the loop on a finite
  sequence of inputs. \<open>VC_Self_Test_App_Props\<close> composes the components: the menu opens after a
  continuous hold and only then, the test passes, the latest drawing is the one the history of inputs asks for
  (\<open>hold_of\<close> and \<open>home_tenths\<close> tell the hold of Select from the inputs alone), and the program exits with code 0 on
  request only.

  \<^bold>\<open>The fuzz driver.\<close> \<open>VC_Fuzz_Search\<close> models it call by call: \<open>fuzz_objects\<close> are the addresses of the input
  and of its locals, a run is an option, and \<open>None\<close> is \<^verbatim>\<open>abort\<close>. The queries are values, as in the search
  model. \<open>VC_Fuzz_Objects\<close> and \<open>VC_Fuzz_Search_Props\<close> prove that no input makes it abort.

  \<^bold>\<open>The host tests.\<close> A test case of \<^verbatim>\<open>tests/host\<close> is a definition of the same name, the conjunction of its
  \<^verbatim>\<open>CHECK\<close>s on the model, and is proved to be true: those of the search in \<open>VC_Search_Host_Tests\<close>, those of the
  parser in \<open>VC_Psv_Host_Tests\<close>, those of the menu and the pause in \<open>VC_Host_Tests\<close>. \<open>VC_Search_Reference\<close> models the
  reference implementation in \<^verbatim>\<open>test_search.c\<close> and proves that the search agrees with it on every input;
  \<open>VC_Search_Random_Tests\<close> models the generator and what the two property tests draw, and proves that an iteration
  passes in every state of the generator.

  \<^bold>\<open>Interfaces.\<close> \<open>invariant_machine\<close> is interpreted by the menu, the pause calls, and five invariants of
  documents; \<open>range_guard\<close> by the guards of the search and of the parser; \<open>thread_adapter\<close> by the fake
  adapter. \<open>vc_psv_translation_state\<close> is a linear order, as the code compares its enumerators.

  \<^bold>\<open>Bounds.\<close> No definition uses fuel. The scan loop and its reference are partial functions that are
  proved to return; every other loop has a measure. Lengths are those of the code: a source of at most one mebibyte, at most
  64 threads, a pause of at most \<open>VC_PAUSE_MAX_DURATION_MS\<close>, a hold of 5000 ms.

  \<^bold>\<open>Not modelled.\<close> The debug screen, controller, clock and thread delay of VitaSDK are not in the
  repository: what they return is the input of a step, and drawn text is reduced to the numbers it shows.
  The loop of \<^verbatim>\<open>main\<close> may run forever, as its user may never leave, so theorems speak of finite
  sequences of inputs. Of the host tests, \<^verbatim>\<open>main\<close> and the printing of failures are left out. Build files,
  deployment records and documents hold no program code.
\<close>

end
